(* ===== verification/L3_Prelude.thy ===== *)
theory L3_Prelude
  imports Main "HOL-Library.Word" "HOL-Library.Multiset"
begin

text \<open>
  Shared ground of the development: the machine types of the service, byte strings and their
  literals, the little-endian layout that \<^verbatim>\<open>memcpy\<close> of an integer produces, and the counter and
  exclusive-or lemmas that the component theories use.
\<close>

unbundle bit_operations_syntax

section \<open>Machine types\<close>

text \<open>
  A \<^verbatim>\<open>std::string\<close>, a \<^verbatim>\<open>std::string_view\<close> and a \<^verbatim>\<open>std::vector<uint8_t>\<close> are all sequences of bytes,
  and the service casts freely between them, so all three are lists of 8-bit words.
  \<^verbatim>\<open>int64_t\<close> values on which the code only does comparisons (wall-clock times) are integers.
\<close>

type_synonym byte = "8 word"
type_synonym bytes = "byte list"
type_synonym u16 = "16 word"
type_synonym u32 = "32 word"
type_synonym u64 = "64 word"

abbreviation UINT32_MAX :: u32 where "UINT32_MAX \<equiv> 0xFFFFFFFF"

text \<open>Collections: layout facts (lengths and decodings of encoded integers), and xor algebra.\<close>

named_theorems layout
named_theorems xor_simps

text \<open>A C++ string literal as bytes.\<close>

definition lit :: "string \<Rightarrow> bytes" where
  "lit s = map of_char s"

lemma length_lit [simp]: "length (lit s) = length s"
  by (simp add: lit_def)

section \<open>Little-endian integers\<close>

fun nat_le :: "nat \<Rightarrow> nat \<Rightarrow> bytes" where
  "nat_le 0 v = []"
| "nat_le (Suc n) v = word_of_nat v # nat_le n (v div 256)"

fun le_nat :: "bytes \<Rightarrow> nat" where
  "le_nat [] = 0"
| "le_nat (b # bs) = unat b + 256 * le_nat bs"

definition put16 :: "u16 \<Rightarrow> bytes" where "put16 w = nat_le 2 (unat w)"
definition put32 :: "u32 \<Rightarrow> bytes" where "put32 w = nat_le 4 (unat w)"
definition put64 :: "u64 \<Rightarrow> bytes" where "put64 w = nat_le 8 (unat w)"

text \<open>Reading an integer from the front of a buffer: only the first bytes are looked at.\<close>

definition get16 :: "bytes \<Rightarrow> u16" where "get16 bs = word_of_nat (le_nat (take 2 bs))"
definition get32 :: "bytes \<Rightarrow> u32" where "get32 bs = word_of_nat (le_nat (take 4 bs))"
definition get64 :: "bytes \<Rightarrow> u64" where "get64 bs = word_of_nat (le_nat (take 8 bs))"

lemma length_nat_le [simp, layout]: "length (nat_le n v) = n"
  by (induction n arbitrary: v) auto

lemma le_nat_nat_le: "le_nat (nat_le n v) = v mod 256 ^ n"
proof (induction n arbitrary: v)
  case (Suc n)
  have "unat (word_of_nat v :: byte) = v mod 256"
    by (simp add: unat_of_nat)
  then show ?case
    using Suc by (simp add: mod_mult2_eq)
qed simp

lemma length_put [simp, layout]:
  "length (put16 a) = 2" "length (put32 b) = 4" "length (put64 c) = 8"
  by (simp_all add: put16_def put32_def put64_def)

lemma get16_put16 [simp, layout]: "get16 (put16 w @ bs) = w"
  using unsigned_less [of w, where ?'a = nat]
  by (simp add: get16_def put16_def le_nat_nat_le)

lemma get32_put32 [simp, layout]: "get32 (put32 w @ bs) = w"
  using unsigned_less [of w, where ?'a = nat]
  by (simp add: get32_def put32_def le_nat_nat_le)

lemma get64_put64 [simp, layout]: "get64 (put64 w @ bs) = w"
  using unsigned_less [of w, where ?'a = nat]
  by (simp add: get64_def put64_def le_nat_nat_le)

lemma get16_put16' [simp, layout]: "get16 (put16 w) = w"
  using get16_put16 [of w "[]"] by simp

lemma get32_put32' [simp, layout]: "get32 (put32 w) = w"
  using get32_put32 [of w "[]"] by simp

lemma get64_put64' [simp, layout]: "get64 (put64 w) = w"
  using get64_put64 [of w "[]"] by simp

lemma inj_put64: "put64 a = put64 b \<longleftrightarrow> a = b"
  by (metis get64_put64')

text \<open>The narrowing casts \<^verbatim>\<open>(uint16_t)n\<close> and \<^verbatim>\<open>(uint32_t)n\<close> keep a size that fits.\<close>

lemma unat_cast16 [simp]: "n < 65536 \<Longrightarrow> unat (word_of_nat n :: u16) = n"
  by (simp add: unat_of_nat)

lemma unat_cast32 [simp]: "n < 4294967296 \<Longrightarrow> unat (word_of_nat n :: u32) = n"
  by (simp add: unat_of_nat)

section \<open>32-bit counters\<close>

lemma unat32_less: "unat (l :: u32) < 4294967296"
  using unsigned_less [of l, where ?'a = nat] by simp

lemma u32_le_max [simp]: "(l :: u32) \<le> UINT32_MAX"
  using unat32_less [of l] by (simp add: word_le_nat_alt)

lemma unat32_add: "unat (a :: u32) + n < 4294967296 \<Longrightarrow> unat (a + word_of_nat n) = unat a + n"
  by (simp add: unat_word_ariths unat_of_nat)

lemma unat32_not_max: "(l :: u32) \<noteq> UINT32_MAX \<Longrightarrow> unat l + 1 < 4294967296"
  using unat32_less [of l] by (auto simp: word_unat_eq_iff)

lemma word_less_Suc: "(l :: u32) \<noteq> UINT32_MAX \<Longrightarrow> l < l + 1"
  using unat32_add [of l 1] unat32_not_max [of l] by (simp add: word_less_nat_alt)

text \<open>A block of fifty ticks above \<open>L\<close>, when fifty are left; the exclusive end may wrap to 0.\<close>

lemma room50: "\<not> UINT32_MAX - (L :: u32) < 50 \<Longrightarrow> unat L + 50 < 4294967296"
  using unat32_less [of L] by (simp add: word_less_nat_alt unat_sub word_le_nat_alt)

lemma word_range50:
  fixes L l :: u32
  assumes r: "\<not> UINT32_MAX - L < 50" and l: "L + 1 \<le> l" "l < L + 1 + 50"
  shows "L < l \<and> l \<le> L + 50"
proof -
  have b: "unat L + 50 < 4294967296" using r by (rule room50)
  have 1: "unat (L + 1) = unat L + 1" "unat (L + 50) = unat L + 50"
    using b unat32_add [of L 1] unat32_add [of L 50] by simp_all
  have 2: "unat l < unat L + 51"
  proof (cases "unat L + 51 < 4294967296")
    case True
    then have "unat (L + 51) = unat L + 51" using unat32_add [of L 51] by simp
    then show ?thesis using l(2) by (simp add: word_less_nat_alt add.assoc)
  next
    case False
    then show ?thesis using unat32_less [of l] b by simp
  qed
  show ?thesis using 1 2 l(1) by (simp add: word_less_nat_alt word_le_nat_alt)
qed

lemma word_start50:
  fixes L :: u32
  assumes "\<not> UINT32_MAX - L < 50"
  shows "L < L + 1" "L + 1 \<le> L + 50"
  using room50 [OF assms] unat32_add [of L 1] unat32_add [of L 50]
  by (simp_all add: word_less_nat_alt word_le_nat_alt)

section \<open>Exclusive or\<close>

definition xor_sum :: "u64 list \<Rightarrow> u64" where
  "xor_sum xs = fold (XOR) xs 0"

lemma xor_cancel [simp, xor_simps]: "(a :: u64) XOR (a XOR b) = b"
  by (simp add: xor.assoc [symmetric])

lemmas xor_ac [xor_simps] = xor.assoc xor.commute xor.left_commute

lemma fold_xor: "fold (XOR) xs a = a XOR xor_sum xs" for a :: u64
proof (induction xs arbitrary: a)
  case (Cons x xs)
  have "xor_sum (x # xs) = x XOR xor_sum xs"
    using Cons [of "x XOR 0"] by (simp add: xor_sum_def [of "x # xs"])
  then show ?case using Cons [of "x XOR a"] by (simp add: xor_ac)
qed (simp add: xor_sum_def)

lemma xor_sum_simps [simp]:
  "xor_sum [] = 0" "xor_sum (x # xs) = x XOR xor_sum xs"
  "xor_sum (xs @ ys) = xor_sum xs XOR xor_sum ys"
proof -
  show "xor_sum (x # xs) = x XOR xor_sum xs"
    by (simp add: xor_sum_def [of "x # xs"] fold_xor [of xs x])
  show "xor_sum (xs @ ys) = xor_sum xs XOR xor_sum ys"
    using fold_xor [of ys "xor_sum xs"] by (simp add: xor_sum_def [of "xs @ ys"] xor_sum_def [of xs])
qed (simp add: xor_sum_def)

lemma xor_sum_perm: "mset xs = mset ys \<Longrightarrow> xor_sum xs = xor_sum ys"
  unfolding xor_sum_def
  by (rule fun_cong [OF fold_multiset_equiv]) (auto simp: fun_eq_iff xor_ac)

lemma xor_sum_zeros [simp]: "xor_sum (replicate n 0) = 0"
  by (induction n) simp_all

lemma xor_eq_self_iff [simp, xor_simps]: "(a :: u64) XOR b = a \<longleftrightarrow> b = 0"
  by (metis xor_cancel xor.right_neutral)

lemma xor_eq_0_iff [simp, xor_simps]: "(a :: u64) XOR b = 0 \<longleftrightarrow> a = b"
  by (metis xor_cancel xor.right_neutral)

end
