(* ===== verification/Clock.thy ===== *)
theory Clock
  imports L3_Prelude
begin

text \<open>
  The hybrid logical clock of \<^verbatim>\<open>engine/clock.hpp\<close> and \<^verbatim>\<open>engine/clock.cpp\<close>: timestamps and their
  total order, the shared clock (\<^verbatim>\<open>now\<close>, \<^verbatim>\<open>update\<close>, \<^verbatim>\<open>reserve_logical\<close>) and the thread-local
  clock that hands out a batch of reserved logical ticks.

  The operating-system clock is an input: an operation takes the readings of
  \<^verbatim>\<open>get_physical_time()\<close> that it will see, in order, and returns the unused ones. An operation
  whose readings run out is still waiting: its result is \<open>None\<close>. Nothing is assumed about the
  readings (the system clock may jump backwards) unless a theorem says so.
\<close>

section \<open>Timestamps\<close>

datatype Timestamp = Timestamp (wall_time: int) (logical: u32) (node_id: u32)

text \<open>The comparison operators of the struct: \<^verbatim>\<open>operator<\<close> is lexicographic, and \<^verbatim>\<open>operator<=\<close> is the
  negation of \<^verbatim>\<open>operator>\<close>. They make the time stamps a linear order.\<close>

definition timestamp_less :: "Timestamp \<Rightarrow> Timestamp \<Rightarrow> bool" where
  "timestamp_less a b =
     (if wall_time a \<noteq> wall_time b then wall_time a < wall_time b
      else if logical a \<noteq> logical b then logical a < logical b
      else node_id a < node_id b)"

definition timestamp_le :: "Timestamp \<Rightarrow> Timestamp \<Rightarrow> bool" where
  "timestamp_le a b = (\<not> timestamp_less b a)"

instantiation Timestamp :: linorder
begin

definition less_Timestamp :: "Timestamp \<Rightarrow> Timestamp \<Rightarrow> bool" where
  "less_Timestamp = timestamp_less"

definition less_eq_Timestamp :: "Timestamp \<Rightarrow> Timestamp \<Rightarrow> bool" where
  "less_eq_Timestamp = timestamp_le"

instance
proof
  note defs = less_Timestamp_def less_eq_Timestamp_def timestamp_less_def timestamp_le_def
  fix x y z :: Timestamp
  show "(x < y) = (x \<le> y \<and> \<not> y \<le> x)"
    by (auto simp: defs split: if_splits)
  show "x \<le> x"
    by (simp add: defs)
  show "x \<le> y \<or> y \<le> x"
    by (auto simp: defs split: if_splits)
  show "x \<le> z" if "x \<le> y" "y \<le> z"
    using that by (auto simp: defs split: if_splits)
  show "x = y" if "x \<le> y" "y \<le> x"
    using that by (cases x; cases y) (auto simp: defs not_less split: if_splits)
qed

end

lemmas timestamp_order = less_Timestamp_def less_eq_Timestamp_def timestamp_less_def timestamp_le_def

text \<open>The two leading components, on which all timestamps of one node are compared.\<close>

definition tick_less :: "int \<Rightarrow> u32 \<Rightarrow> int \<Rightarrow> u32 \<Rightarrow> bool" where
  "tick_less w l w' l' = (w < w' \<or> w = w' \<and> l < l')"

section \<open>The shared clock\<close>

record hlc =
  max_wall_time :: int
  max_logical :: u32
  hlc_node_id :: u32

definition hlc_init :: "u32 \<Rightarrow> hlc" where
  "hlc_init n = \<lparr>max_wall_time = 0, max_logical = 0, hlc_node_id = n\<rparr>"

text \<open>\<^verbatim>\<open>while (get_physical_time() <= max_wall_time_) yield();\<close> keeps the readings left over.\<close>

fun wait_past :: "int \<Rightarrow> int list \<Rightarrow> int list option" where
  "wait_past m [] = None"
| "wait_past m (p # ps) = (if p \<le> m then wait_past m ps else Some ps)"

definition hlc_stamp :: "hlc \<Rightarrow> Timestamp" where
  "hlc_stamp c = Timestamp (max_wall_time c) (max_logical c) (hlc_node_id c)"

definition hlc_now :: "hlc \<Rightarrow> int list \<Rightarrow> (Timestamp \<times> hlc \<times> int list) option" where
  "hlc_now c readings =
     (case readings of
        [] \<Rightarrow> None
      | phys_now # ps \<Rightarrow>
          (if phys_now > max_wall_time c then
             (let c' = c\<lparr>max_wall_time := phys_now, max_logical := 0\<rparr>
              in Some (hlc_stamp c', c', ps))
           else if max_logical c = UINT32_MAX then
             (case wait_past (max_wall_time c) ps of
                None \<Rightarrow> None
              | Some [] \<Rightarrow> None
              | Some (new_phys # qs) \<Rightarrow>
                  (let c' = c\<lparr>max_wall_time := new_phys, max_logical := 0\<rparr>
                   in Some (hlc_stamp c', c', qs)))
           else
             (let c' = c\<lparr>max_logical := max_logical c + 1\<rparr>
              in Some (hlc_stamp c', c', ps))))"

definition hlc_update :: "hlc \<Rightarrow> int \<Rightarrow> Timestamp \<Rightarrow> hlc" where
  "hlc_update c phys_now incoming =
     (let l_old = max_wall_time c; c_old = max_logical c;
          l_msg = wall_time incoming; c_msg = logical incoming;
          m = max (max l_old l_msg) phys_now
      in c\<lparr>max_wall_time := m,
           max_logical :=
             (if m = l_old \<and> m = l_msg then max c_old c_msg + 1
              else if m = l_old then c_old + 1
              else if m = l_msg then c_msg + 1
              else 0)\<rparr>)"

text \<open>
  The C++ \<^verbatim>\<open>int count\<close> is compared and added after conversion to \<^verbatim>\<open>uint32_t\<close>; the start value is
  computed in 32 bits and then widened to \<^verbatim>\<open>int64_t\<close>. The result \<open>-1\<close> means "retry".
\<close>

definition reserve_logical :: "hlc \<Rightarrow> int \<Rightarrow> int \<Rightarrow> int \<Rightarrow> int \<times> hlc" where
  "reserve_logical c phys for_phys_time cnt =
     (let phys_now = max phys (max_wall_time c) in
      if for_phys_time < phys_now then (-1, c)
      else
        (let c1 = (if for_phys_time > max_wall_time c
                   then c\<lparr>max_wall_time := for_phys_time, max_logical := 0\<rparr> else c)
         in if UINT32_MAX - max_logical c1 < word_of_int cnt then (-1, c1)
            else (uint (max_logical c1 + 1),
                  c1\<lparr>max_logical := max_logical c1 + word_of_int cnt\<rparr>)))"

section \<open>The thread-local clock\<close>

record tlc =
  cached_phys_time :: int
  cached_logical_next :: u32
  cached_logical_end :: u32

definition tlc_init :: tlc where
  "tlc_init = \<lparr>cached_phys_time = 0, cached_logical_next = 0, cached_logical_end = 0\<rparr>"

abbreviation BATCH_SIZE :: int where "BATCH_SIZE \<equiv> 50"

text \<open>Serving from the batch: the hit path and the first stamp of a new batch.\<close>

definition tlc_take :: "u32 \<Rightarrow> tlc \<Rightarrow> Timestamp \<times> tlc" where
  "tlc_take n t =
     (Timestamp (cached_phys_time t) (cached_logical_next t) n,
      t\<lparr>cached_logical_next := cached_logical_next t + 1\<rparr>)"

definition tlc_fill :: "int \<Rightarrow> int \<Rightarrow> tlc \<Rightarrow> tlc" where
  "tlc_fill phys start t =
     (let nx = word_of_int start
      in t\<lparr>cached_phys_time := phys, cached_logical_next := nx,
           cached_logical_end := nx + word_of_int BATCH_SIZE\<rparr>)"

fun tlc_refill :: "hlc \<Rightarrow> tlc \<Rightarrow> int \<Rightarrow> int list \<Rightarrow> (Timestamp \<times> hlc \<times> tlc \<times> int list) option" where
  "tlc_refill g t phys_now [] = None"
| "tlc_refill g t phys_now (p # ps) =
     (let (start_logical, g') = reserve_logical g p phys_now BATCH_SIZE in
      if start_logical \<ge> 0 then
        (let (ts, t') = tlc_take (hlc_node_id g') (tlc_fill phys_now start_logical t)
         in Some (ts, g', t', ps))
      else
        (case ps of
           [] \<Rightarrow> None
         | next_phys # qs \<Rightarrow>
             (if next_phys = phys_now then
                (case hlc_now g' qs of
                   None \<Rightarrow> None
                 | Some (ts, g'', rs) \<Rightarrow> Some (ts, g'', t, rs))
              else tlc_refill g' t next_phys qs)))"

definition tlc_reset :: "int \<Rightarrow> tlc \<Rightarrow> tlc" where
  "tlc_reset phys t =
     t\<lparr>cached_phys_time := phys, cached_logical_next := 0, cached_logical_end := 0\<rparr>"

definition tlc_now :: "hlc \<Rightarrow> tlc \<Rightarrow> int list \<Rightarrow> (Timestamp \<times> hlc \<times> tlc \<times> int list) option" where
  "tlc_now g t readings =
     (case readings of
        [] \<Rightarrow> None
      | phys_now # ps \<Rightarrow>
          (if phys_now = cached_phys_time t \<and> cached_logical_next t < cached_logical_end t then
             (let (ts, t') = tlc_take (hlc_node_id g) t in Some (ts, g, t', ps))
           else if phys_now > cached_phys_time t then
             tlc_refill g (tlc_reset phys_now t) phys_now ps
           else tlc_refill g t phys_now ps))"

definition tlc_update :: "hlc \<Rightarrow> int \<Rightarrow> Timestamp \<Rightarrow> hlc" where
  "tlc_update g phys incoming = hlc_update g phys incoming"


section \<open>Order facts\<close>

lemma Timestamp_less_iff:
  "a < b \<longleftrightarrow> tick_less (wall_time a) (logical a) (wall_time b) (logical b) \<or>
     wall_time a = wall_time b \<and> logical a = logical b \<and> node_id a < node_id b"
  by (auto simp: timestamp_order tick_less_def)

lemma tick_less_imp_less:
  "tick_less (wall_time a) (logical a) (wall_time b) (logical b) \<Longrightarrow> a < b"
  by (simp add: Timestamp_less_iff)

lemma tick_less_trans:
  "tick_less w l w' l' \<Longrightarrow> tick_less w' l' w'' l'' \<Longrightarrow> tick_less w l w'' l''"
  by (auto simp: tick_less_def)

lemma tick_less_irrefl [simp]: "\<not> tick_less w l w l"
  by (simp add: tick_less_def)

section \<open>The shared clock only moves forward\<close>

text \<open>One call of \<^verbatim>\<open>now\<close> is below the clock it leaves and above the clock it found.\<close>

lemma wait_past_sorted: "wait_past m ps = Some qs \<Longrightarrow> sorted ps \<Longrightarrow> \<forall>q \<in> set qs. m < q"
  by (induction ps) (auto split: if_splits)

lemma ex_nat_Suc: "(\<exists>i. P i) \<longleftrightarrow> P 0 \<or> (\<exists>i. P (Suc i))"
  by (metis not0_implies_Suc)

lemma wait_past_Some_iff:
  "(\<exists>q qs. wait_past m ps = Some (q # qs)) \<longleftrightarrow> (\<exists>i. Suc i < length ps \<and> m < ps ! i)"
proof (induction ps)
  case (Cons p ps)
  show ?case
  proof (cases "p \<le> m")
    case True
    then have "(\<exists>i. Suc i < length (p # ps) \<and> m < (p # ps) ! i) \<longleftrightarrow>
        (\<exists>i. Suc i < length ps \<and> m < ps ! i)"
      by (subst ex_nat_Suc) simp
    with True Cons show ?thesis by simp
  next
    case False
    then show ?thesis
      by (cases ps) (auto intro: exI [of _ 0])
  qed
qed simp

lemma hlc_now_cases:
  assumes "hlc_now c ps = Some (ts, c', qs)"
  obtains (advance) p where "ps = p # qs" "max_wall_time c < p"
      "c' = c\<lparr>max_wall_time := p, max_logical := 0\<rparr>" "ts = hlc_stamp c'"
    | (tick) p where "ps = p # qs" "p \<le> max_wall_time c" "max_logical c \<noteq> UINT32_MAX"
      "c' = c\<lparr>max_logical := max_logical c + 1\<rparr>" "ts = hlc_stamp c'"
    | (overflow) p rs q where "ps = p # rs" "p \<le> max_wall_time c" "max_logical c = UINT32_MAX"
      "wait_past (max_wall_time c) rs = Some (q # qs)"
      "c' = c\<lparr>max_wall_time := q, max_logical := 0\<rparr>" "ts = hlc_stamp c'"
  using assms
  by (auto simp: hlc_now_def Let_def split: list.splits if_splits option.splits)

lemma hlc_now_stamp: "hlc_now c ps = Some (ts, c', qs) \<Longrightarrow> ts = hlc_stamp c'"
  by (elim hlc_now_cases)

lemma hlc_now_node: "hlc_now c ps = Some (ts, c', qs) \<Longrightarrow> hlc_node_id c' = hlc_node_id c"
  by (elim hlc_now_cases) simp_all

text \<open>The readings behave: none is needed to, except on the overflow path.\<close>

definition readings_ok :: "hlc \<Rightarrow> int list \<Rightarrow> bool" where
  "readings_ok c ps \<longleftrightarrow> max_logical c \<noteq> UINT32_MAX \<or> sorted ps"

lemma hlc_now_tick:
  assumes "hlc_now c ps = Some (ts, c', qs)" and "readings_ok c ps"
  shows "tick_less (max_wall_time c) (max_logical c) (max_wall_time c') (max_logical c')"
  using assms(1)
proof (cases rule: hlc_now_cases)
  case (overflow p rs q)
  with assms(2) have "sorted rs" by (simp add: readings_ok_def)
  with overflow(4) have "max_wall_time c < q" by (auto dest: wait_past_sorted)
  with overflow show ?thesis by (simp add: tick_less_def)
qed (auto simp: tick_less_def word_less_Suc)

lemma hlc_update_node [simp]: "hlc_node_id (hlc_update c p m) = hlc_node_id c"
  by (simp add: hlc_update_def Let_def)

lemma hlc_update_wall:
  "max_wall_time (hlc_update c p m) = max (max (max_wall_time c) (wall_time m)) p"
  by (simp add: hlc_update_def Let_def)

text \<open>
  The successor in \<^verbatim>\<open>update\<close> is taken without an overflow check; it does not wrap as long as
  neither counter is at its maximum.
\<close>

definition update_fits :: "hlc \<Rightarrow> Timestamp \<Rightarrow> bool" where
  "update_fits c m \<longleftrightarrow> max_logical c \<noteq> UINT32_MAX \<and> logical m \<noteq> UINT32_MAX"

lemma max_Suc_above:
  fixes a b :: u32
  assumes "a \<noteq> UINT32_MAX" "b \<noteq> UINT32_MAX"
  shows "a < max a b + 1" "b < max a b + 1"
proof -
  have "max a b < max a b + 1"
    using assms by (intro word_less_Suc) (simp add: max_def)
  then show "a < max a b + 1" "b < max a b + 1"
    by (metis max.cobounded1 max.cobounded2 order_le_less_trans)+
qed

lemma hlc_update_tick:
  assumes "update_fits c m"
  shows "tick_less (max_wall_time c) (max_logical c)
           (max_wall_time (hlc_update c p m)) (max_logical (hlc_update c p m))"
    and "tick_less (wall_time m) (logical m)
           (max_wall_time (hlc_update c p m)) (max_logical (hlc_update c p m))"
  using assms
  by (auto simp: hlc_update_def Let_def tick_less_def update_fits_def max_Suc_above
      word_less_Suc)

text \<open>A successful reservation takes ticks above the clock, up to the clock it leaves.\<close>

lemma reserve_node [simp]:
  "reserve_logical c p f n = (st, c') \<Longrightarrow> hlc_node_id c' = hlc_node_id c"
  by (auto simp: reserve_logical_def Let_def split: if_splits)

definition reserve_base :: "hlc \<Rightarrow> int \<Rightarrow> u32" where
  "reserve_base c f = (if f > max_wall_time c then 0 else max_logical c)"

lemma reserve_success:
  assumes "reserve_logical c p f BATCH_SIZE = (st, c')" and "st \<ge> 0"
  shows "max_wall_time c \<le> f" "max_wall_time c' = f" "p \<le> f"
    and "st = uint (reserve_base c f + 1)"
    and "max_logical c' = reserve_base c f + 50"
    and "\<not> UINT32_MAX - reserve_base c f < 50"
  using assms by (auto simp: reserve_logical_def Let_def reserve_base_def split: if_splits)

lemma reserve_failure:
  assumes "reserve_logical c p f BATCH_SIZE = (st, c')" and "st < 0"
  shows "c' = c \<or> max_wall_time c < max_wall_time c' \<and> max_logical c' = 0"
proof (rule ccontr)
  assume n: "\<not> ?thesis"
  have "\<exists>w :: u32. st = uint w"
    using assms(1) n unfolding reserve_logical_def Let_def
    by (simp only: split: if_splits) (auto intro: exI [of _ "1 :: u32"])
  then obtain w :: u32 where "st = uint w" ..
  with assms(2) show False using unsigned_greater_eq [of w, where ?'a = int] by linarith
qed

lemma reserve_above:
  assumes "reserve_logical c p f BATCH_SIZE = (st, c')" "st \<ge> 0" "reserve_base c f < l"
  shows "tick_less (max_wall_time c) (max_logical c) f l"
proof (cases "f > max_wall_time c")
  case False
  with reserve_success(1) [OF assms(1,2)] have "f = max_wall_time c" by simp
  with assms(3) False show ?thesis by (simp add: tick_less_def reserve_base_def)
qed (simp add: tick_less_def)

section \<open>One node's threads: interleaved clock operations\<close>

text \<open>
  The threads of a node share one clock under a mutex, and each thread owns a local clock. A
  step is one critical section of the shared clock or one private access to a local clock, so
  any interleaving of \<^verbatim>\<open>ThreadLocalClock::now\<close> calls, global \<^verbatim>\<open>now\<close> calls and received timestamps
  is a sequence of steps. \<open>issued\<close> records every timestamp handed out.
\<close>

record clock_sys =
  glob :: hlc
  locals :: "nat \<Rightarrow> tlc"
  issued :: "Timestamp list"

definition clock_sys_init :: "u32 \<Rightarrow> clock_sys" where
  "clock_sys_init n = \<lparr>glob = hlc_init n, locals = (\<lambda>_. tlc_init), issued = []\<rparr>"

datatype clock_event = Global_now "int list" | Receive int Timestamp | Local_access nat

inductive clock_step :: "clock_sys \<Rightarrow> clock_event \<Rightarrow> clock_sys \<Rightarrow> bool" where
  global_now: "hlc_now (glob s) ps = Some (ts, g', qs) \<Longrightarrow>
    clock_step s (Global_now ps) (s\<lparr>glob := g', issued := ts # issued s\<rparr>)"
| receive: "clock_step s (Receive p m) (s\<lparr>glob := hlc_update (glob s) p m\<rparr>)"
| hit: "cached_logical_next (locals s i) < cached_logical_end (locals s i) \<Longrightarrow>
    tlc_take (hlc_node_id (glob s)) (locals s i) = (ts, t') \<Longrightarrow>
    clock_step s (Local_access i) (s\<lparr>locals := (locals s)(i := t'), issued := ts # issued s\<rparr>)"
| reset: "cached_phys_time (locals s i) < p \<Longrightarrow>
    clock_step s (Local_access i) (s\<lparr>locals := (locals s)(i := tlc_reset p (locals s i))\<rparr>)"
| refill: "reserve_logical (glob s) p phys BATCH_SIZE = (start, g') \<Longrightarrow> start \<ge> 0 \<Longrightarrow>
    tlc_take (hlc_node_id g') (tlc_fill phys start (locals s i)) = (ts, t') \<Longrightarrow>
    clock_step s (Local_access i) (s\<lparr>glob := g', locals := (locals s)(i := t'), issued := ts # issued s\<rparr>)"
| retry: "reserve_logical (glob s) p phys BATCH_SIZE = (start, g') \<Longrightarrow> start < 0 \<Longrightarrow>
    clock_step s (Local_access i) (s\<lparr>glob := g'\<rparr>)"

text \<open>
  Two things the code does not check: that \<^verbatim>\<open>update\<close> has room for its successor, and that a call of \<^verbatim>\<open>now\<close>
  which waits out an exhausted counter sees readings that do not go back. A run is orderly if neither
  happens.
\<close>

fun orderly :: "clock_sys \<Rightarrow> clock_event \<Rightarrow> bool" where
  "orderly s (Global_now ps) = readings_ok (glob s) ps"
| "orderly s (Receive p m) = update_fits (glob s) m"
| "orderly s (Local_access i) = True"

text \<open>Sequences of steps, all of them orderly if the flag is set.\<close>

abbreviation clock_steps :: "bool \<Rightarrow> clock_sys \<Rightarrow> clock_sys \<Rightarrow> bool" where
  "clock_steps b \<equiv> (\<lambda>s s'. \<exists>e. (b \<longrightarrow> orderly s e) \<and> clock_step s e s')\<^sup>*\<^sup>*"

inductive orderly_reachable :: "u32 \<Rightarrow> clock_sys \<Rightarrow> bool" for n where
  start: "orderly_reachable n (clock_sys_init n)"
| step: "orderly_reachable n s \<Longrightarrow> orderly s e \<Longrightarrow> clock_step s e s' \<Longrightarrow> orderly_reachable n s'"

text \<open>The ticks a local clock still holds, and the ticks below the shared clock.\<close>

definition pending :: "tlc \<Rightarrow> (int \<times> u32) set" where
  "pending t = {(w, l). w = cached_phys_time t \<and> cached_logical_next t \<le> l \<and> l < cached_logical_end t}"

definition below :: "hlc \<Rightarrow> (int \<times> u32) set" where
  "below c = {(w, l). \<not> tick_less (max_wall_time c) (max_logical c) w l}"

definition ticks :: "Timestamp list \<Rightarrow> (int \<times> u32) list" where
  "ticks tss = map (\<lambda>ts. (wall_time ts, logical ts)) tss"

definition clock_inv :: "clock_sys \<Rightarrow> bool" where
  "clock_inv s \<longleftrightarrow>
     distinct (ticks (issued s)) \<and> set (ticks (issued s)) \<subseteq> below (glob s) \<and>
     (\<forall>i. pending (locals s i) \<subseteq> below (glob s)) \<and>
     (\<forall>i. pending (locals s i) \<inter> set (ticks (issued s)) = {}) \<and>
     (\<forall>i j. i \<noteq> j \<longrightarrow> pending (locals s i) \<inter> pending (locals s j) = {})"

lemma ticks_Cons [simp]: "ticks (ts # tss) = (wall_time ts, logical ts) # ticks tss"
  by (simp add: ticks_def)

lemma below_mono:
  "tick_less (max_wall_time c) (max_logical c) (max_wall_time c') (max_logical c') \<Longrightarrow>
   below c \<subseteq> below c'"
  by (auto simp: below_def dest: tick_less_trans)

lemma below_top [simp]: "(max_wall_time c, max_logical c) \<in> below c"
  by (simp add: below_def)

lemma above_notin_below: "tick_less (max_wall_time c) (max_logical c) w l \<Longrightarrow> (w, l) \<notin> below c"
  by (simp add: below_def)

lemma pending_reset [simp]: "pending (tlc_reset p t) = {}"
  by (simp add: pending_def tlc_reset_def)

lemma succ_le_iff: "(a :: u32) < e \<Longrightarrow> a + 1 \<le> l \<longleftrightarrow> a < l"
  by (auto simp: inc_less_eq_iff)

lemma pending_take:
  assumes "tlc_take n t = (ts, t')" "cached_logical_next t < cached_logical_end t"
  shows "pending t' = pending t - {(wall_time ts, logical ts)}"
    and "(wall_time ts, logical ts) \<in> pending t"
  using assms by (auto simp: tlc_take_def pending_def succ_le_iff)

lemma pending_fill:
  assumes "reserve_logical g p phys BATCH_SIZE = (start, g')" "start \<ge> 0"
    and "(w, l) \<in> pending (tlc_fill phys start t)"
  shows "w = phys" "reserve_base g phys < l" "l \<le> max_logical g'"
  using assms(3) word_range50 [of "reserve_base g phys" l] reserve_success [OF assms(1,2)]
  by (auto simp: pending_def tlc_fill_def Let_def)

text \<open>The first stamp of a new batch, whether or not the exclusive end of the batch wrapped.\<close>

lemma pending_fill_take:
  assumes res: "reserve_logical g p phys BATCH_SIZE = (start, g')" "start \<ge> 0"
    and take: "tlc_take n (tlc_fill phys start t) = (ts, t')"
  shows "pending t' \<subseteq> pending (tlc_fill phys start t) - {(wall_time ts, logical ts)}"
    and "(wall_time ts, logical ts) = (phys, reserve_base g phys + 1)"
proof -
  let ?b = "reserve_base g phys"
  have s: "word_of_int start = ?b + 1"
    using reserve_success(4) [OF res] by simp
  have "?b + 1 < ?b + 1 + 1"
    using room50 [OF reserve_success(6) [OF res]] unat32_add [of ?b 1] unat32_add [of ?b 2]
    by (simp add: word_less_nat_alt add.assoc)
  then show "pending t' \<subseteq> pending (tlc_fill phys start t) - {(wall_time ts, logical ts)}"
    using take s by (auto simp: pending_def tlc_take_def tlc_fill_def Let_def)
  show "(wall_time ts, logical ts) = (phys, ?b + 1)"
    using take s by (auto simp: tlc_take_def tlc_fill_def Let_def)
qed

lemma clock_inv_init: "clock_inv (clock_sys_init n)"
  by (simp add: clock_inv_def clock_sys_init_def tlc_init_def pending_def ticks_def)

lemma clock_inv_raise:
  "clock_inv s \<Longrightarrow> below (glob s) \<subseteq> below g' \<Longrightarrow> clock_inv (s\<lparr>glob := g'\<rparr>)"
  by (auto simp: clock_inv_def)

lemma clock_inv_fresh:
  assumes "clock_inv s" "below (glob s) \<subseteq> below g'"
    and "(wall_time ts, logical ts) \<notin> below (glob s)" "(wall_time ts, logical ts) \<in> below g'"
  shows "clock_inv (s\<lparr>glob := g', issued := ts # issued s\<rparr>)"
  using assms by (auto simp: clock_inv_def)

lemma clock_inv_drop:
  assumes "clock_inv s" "pending t' \<subseteq> pending (locals s i)"
  shows "clock_inv (s\<lparr>locals := (locals s)(i := t')\<rparr>)"
  using assms by (simp add: clock_inv_def) blast

lemma clock_inv_hand_out:
  assumes "clock_inv s" "(wall_time ts, logical ts) \<in> pending (locals s i)"
    and "pending t' \<subseteq> pending (locals s i) - {(wall_time ts, logical ts)}"
  shows "clock_inv (s\<lparr>locals := (locals s)(i := t'), issued := ts # issued s\<rparr>)"
  using assms by (simp add: clock_inv_def) blast

lemma clock_inv_new_batch:
  assumes "clock_inv s" "below (glob s) \<subseteq> below g'"
    and "(wall_time ts, logical ts) \<notin> below (glob s)" "(wall_time ts, logical ts) \<in> below g'"
    and "pending t' \<inter> below (glob s) = {}" "pending t' \<subseteq> below g' - {(wall_time ts, logical ts)}"
  shows "clock_inv (s\<lparr>glob := g', locals := (locals s)(i := t'), issued := ts # issued s\<rparr>)"
  using assms by (simp add: clock_inv_def) blast

lemma clock_inv_refill:
  assumes inv: "clock_inv s"
    and res: "reserve_logical (glob s) p phys BATCH_SIZE = (start, g')" "start \<ge> 0"
    and take: "tlc_take n (tlc_fill phys start (locals s i)) = (ts, t')"
  shows "clock_inv (s\<lparr>glob := g', locals := (locals s)(i := t'), issued := ts # issued s\<rparr>)"
proof -
  let ?b = "reserve_base (glob s) phys"
  note top = reserve_success [OF res] and b50 = word_start50 [OF reserve_success(6) [OF res]]
  have tick: "(wall_time ts, logical ts) = (phys, ?b + 1)"
    by (rule pending_fill_take(2) [OF res take])
  have up: "tick_less (max_wall_time (glob s)) (max_logical (glob s)) phys l" if "?b < l" for l
    by (rule reserve_above [OF res that])
  have in_new: "(phys, l) \<in> below g'" if "l \<le> max_logical g'" for l
    using that top(2) by (simp add: below_def tick_less_def not_less)
  have pend: "w = phys \<and> ?b < l \<and> l \<le> max_logical g' \<and> (w, l) \<noteq> (wall_time ts, logical ts)"
    if "(w, l) \<in> pending t'" for w l
    using that pending_fill_take(1) [OF res take] pending_fill [OF res, of w l] by blast
  have le: "?b + 1 \<le> max_logical g'" and lt: "?b < max_logical g'"
    using b50 top(5) by auto
  show ?thesis
  proof (rule clock_inv_new_batch [OF inv])
    show "below (glob s) \<subseteq> below g'"
      using up [OF lt] top(2) by (intro below_mono) simp
    show "(wall_time ts, logical ts) \<notin> below (glob s)"
      unfolding tick by (rule above_notin_below [OF up [OF b50(1)]])
    show "(wall_time ts, logical ts) \<in> below g'"
      unfolding tick by (rule in_new [OF le])
    show "pending t' \<inter> below (glob s) = {}"
      using pend above_notin_below [OF up] by fastforce
    show "pending t' \<subseteq> below g' - {(wall_time ts, logical ts)}"
      using pend in_new by fastforce
  qed
qed

lemma below_retry:
  assumes "reserve_logical c p f BATCH_SIZE = (st, c')" "st < 0"
  shows "below c \<subseteq> below c'"
  using reserve_failure [OF assms] below_mono [of c c'] by (auto simp: tick_less_def)

lemma clock_step_inv: "clock_step s e s' \<Longrightarrow> orderly s e \<Longrightarrow> clock_inv s \<Longrightarrow> clock_inv s'"
proof (induction rule: clock_step.induct)
  case (global_now s ps ts g' qs)
  have up: "tick_less (max_wall_time (glob s)) (max_logical (glob s)) (max_wall_time g') (max_logical g')"
    using global_now by (auto intro: hlc_now_tick)
  have "ts = hlc_stamp g'" using global_now(1) by (rule hlc_now_stamp)
  with global_now(3) below_mono [OF up] above_notin_below [OF up] show ?case
    by (intro clock_inv_fresh) (simp_all add: hlc_stamp_def)
next
  case (receive s p m)
  then show ?case by (intro clock_inv_raise below_mono hlc_update_tick) simp_all
next
  case (hit s i ts t')
  then show ?case
    using pending_take [OF hit(2,1)] by (intro clock_inv_hand_out) auto
next
  case (reset s i p)
  then show ?case by (intro clock_inv_drop) simp_all
next
  case (refill s p phys start g' i ts t')
  show ?case using refill(5,1-3) by (rule clock_inv_refill)
next
  case (retry s p phys start g' i)
  then show ?case by (intro clock_inv_raise below_retry)
qed

lemma reachable_clock_inv: "orderly_reachable n s \<Longrightarrow> clock_inv s"
  by (induction rule: orderly_reachable.induct) (auto intro: clock_inv_init clock_step_inv)

lemma reachable_distinct: "orderly_reachable n s \<Longrightarrow> distinct (issued s)"
  using reachable_clock_inv [of n s] by (simp add: clock_inv_def ticks_def distinct_map)

lemma clock_step_node: "clock_step s e s' \<Longrightarrow> hlc_node_id (glob s') = hlc_node_id (glob s)"
  by (induction rule: clock_step.induct) (auto dest: hlc_now_node)

text \<open>
  The whole call \<^verbatim>\<open>ThreadLocalClock::now\<close> of thread \<open>i\<close>, run without interference, is a sequence
  of these steps, so the steps cover every behaviour of the code.
\<close>

lemma tlc_refill_steps:
  assumes "tlc_refill g t phys ps = Some (ts, g', t', qs)"
    and "glob s = g" "locals s i = t" "b \<longrightarrow> sorted ps"
  shows "clock_steps b s (s\<lparr>glob := g', locals := (locals s)(i := t'), issued := ts # issued s\<rparr>)"
  using assms
proof (induction g t phys ps arbitrary: s rule: tlc_refill.induct)
  case (2 g t phys p ps)
  obtain st g1 where res: "reserve_logical g p phys BATCH_SIZE = (st, g1)" by force
  let ?s1 = "s\<lparr>glob := g1\<rparr>"
  show ?case
  proof (cases "st \<ge> 0")
    case True
    then have "tlc_take (hlc_node_id g1) (tlc_fill phys st t) = (ts, t')" "g1 = g'"
      using 2(2) res by (auto simp: Let_def split: prod.splits)
    with 2(3,4) res True have "clock_step s (Local_access i) (s\<lparr>glob := g', locals := (locals s)(i := t'), issued := ts # issued s\<rparr>)"
      by (blast intro: clock_step.refill)
    moreover have "orderly s (Local_access i)" by simp
    ultimately show ?thesis by (blast intro: r_into_rtranclp)
  next
    case False
    with 2(2) res obtain np rs where ps: "ps = np # rs" by (auto split: list.splits)
    from False 2(3) res clock_step.retry [of s p phys st g1 i] have s1: "\<exists>e. (b \<longrightarrow> orderly s e) \<and> clock_step s e ?s1"
      by (intro exI [of _ "Local_access i"]) auto
    have srt: "b \<longrightarrow> sorted rs" using 2(5) ps by simp
    show ?thesis
    proof (cases "np = phys")
      case True
      then obtain ts0 g0 rs0 where "hlc_now g1 rs = Some (ts0, g0, rs0)"
        using 2(2) res False ps by (auto split: option.splits)
      then have "hlc_now (glob ?s1) rs = Some (ts, g', qs)" "t' = t"
        using True 2(2) res False ps by auto
      then have "\<exists>e. (b \<longrightarrow> orderly ?s1 e) \<and> clock_step ?s1 e (?s1\<lparr>glob := g', issued := ts # issued ?s1\<rparr>)"
        using clock_step.global_now [of ?s1 rs] srt by (intro exI [of _ "Global_now rs"]) (auto simp: readings_ok_def)
      moreover have "(locals s)(i := t') = locals s"
        using \<open>t' = t\<close> 2(4) by (simp add: fun_upd_idem)
      ultimately show ?thesis
        using s1 by (simp add: converse_rtranclp_into_rtranclp r_into_rtranclp)
    next
      case neq: False
      have "clock_steps b ?s1 (?s1\<lparr>glob := g', locals := (locals ?s1)(i := t'), issued := ts # issued ?s1\<rparr>)"
        using 2(2,4) res False neq ps srt
        by (intro 2(1) [OF res [symmetric] refl False ps neq]) auto
      from converse_rtranclp_into_rtranclp [OF s1 this] show ?thesis by (simp add: fun_upd_def)
    qed
  qed
qed simp

section \<open>Properties\<close>

text \<open>C20: every timestamp \<^verbatim>\<open>now()\<close> returns is strictly above everything the clock knew before
  (its own last timestamp included) and becomes the new high-water mark, for arbitrary, even
  backward-jumping, physical readings; only on the counter-overflow path must the readings of
  that one call not go backwards.\<close>

theorem hlc_now_monotone:
  assumes "hlc_now c ps = Some (ts, c', qs)" and "readings_ok c ps"
  shows "hlc_stamp c < ts \<and> hlc_stamp c' = ts \<and> node_id ts = hlc_node_id c"
  using hlc_now_tick [OF assms] hlc_now_stamp [OF assms(1)] hlc_now_node [OF assms(1)]
  by (auto simp: hlc_stamp_def intro: tick_less_imp_less)

theorem hlc_now_monotone_witness:
  "hlc_stamp (hlc_init 7) < Timestamp 0 1 7 \<and>
   hlc_stamp \<lparr>max_wall_time = 0, max_logical = 1, hlc_node_id = 7\<rparr> = Timestamp 0 1 7 \<and>
   node_id (Timestamp 0 1 7) = hlc_node_id (hlc_init 7)"
  by (rule hlc_now_monotone [of _ "[-5]" _ _ "[]"])
     (simp_all add: hlc_now_def hlc_init_def hlc_stamp_def readings_ok_def)

text \<open>C23: \<^verbatim>\<open>now()\<close> blocks only when the logical counter is exhausted and physical time does not
  advance: it returns exactly when the clock may tick, or when some later reading passes the
  high-water mark and one more reading follows.\<close>

theorem hlc_now_returns_iff:
  "(\<exists>r. hlc_now c (p # ps) = Some r) \<longleftrightarrow>
     max_wall_time c < p \<or> max_logical c \<noteq> UINT32_MAX \<or>
     (\<exists>i. Suc i < length ps \<and> max_wall_time c < ps ! i)"
  using wait_past_Some_iff [of "max_wall_time c" ps]
  by (auto simp: hlc_now_def Let_def split: list.splits option.splits)

theorem hlc_now_returns_iff_witness:
  "\<exists>r. hlc_now \<lparr>max_wall_time = 9, max_logical = UINT32_MAX, hlc_node_id = 1\<rparr> [5, 10, 11] = Some r"
proof -
  have "Suc 0 < length [10, 11 :: int] \<and> 9 < [10, 11 :: int] ! 0" by simp
  then show ?thesis
    using hlc_now_returns_iff [of "\<lparr>max_wall_time = 9, max_logical = UINT32_MAX, hlc_node_id = 1\<rparr>" 5 "[10, 11]"]
    by auto
qed

text \<open>C21: receive rule. After \<^verbatim>\<open>update(incoming)\<close> the next \<^verbatim>\<open>now()\<close> is later than the received
  timestamp and later than everything the clock had issued, as long as no logical counter is at
  its maximum.\<close>

theorem hlc_update_causal:
  assumes "update_fits c m" and "hlc_now (hlc_update c p m) ps = Some (ts, c', qs)"
    and "readings_ok (hlc_update c p m) ps"
  shows "m < ts \<and> hlc_stamp c < ts"
proof -
  have "ts = hlc_stamp c'" using assms(2) by (rule hlc_now_stamp)
  then show ?thesis
    using hlc_update_tick [OF assms(1), of p, THEN tick_less_trans, OF hlc_now_tick [OF assms(2,3)]]
    by (simp add: hlc_stamp_def tick_less_imp_less)
qed

theorem hlc_update_causal_witness:
  "Timestamp 1000 4 2 < Timestamp 1000 6 1 \<and> hlc_stamp (hlc_init 1) < Timestamp 1000 6 1"
  by (rule hlc_update_causal [of _ _ 20 "[30]" _ _ "[]"])
     (simp_all add: update_fits_def hlc_now_def hlc_update_def hlc_init_def hlc_stamp_def
       readings_ok_def)

text \<open>The successor taken by \<^verbatim>\<open>update\<close> is not protected against overflow, unlike the one in
  \<^verbatim>\<open>now\<close>: after a received timestamp with the maximal logical counter and a wall time that is
  not behind, the counter wraps to zero and the next local timestamp is \<^emph>\<open>earlier\<close> than the
  received one.\<close>

theorem hlc_update_wraps:
  assumes "logical m = UINT32_MAX" "max_wall_time c \<le> wall_time m" "p \<le> wall_time m"
    and "q \<le> wall_time m"
  shows "hlc_now (hlc_update c p m) (q # ps) =
           Some (Timestamp (wall_time m) 1 (hlc_node_id c),
                 (hlc_update c p m)\<lparr>max_logical := 1\<rparr>, ps) \<and>
         Timestamp (wall_time m) 1 (hlc_node_id c) < m"
proof -
  have mx: "max (max_logical c) UINT32_MAX = UINT32_MAX"
    by (simp add: max_absorb2)
  have "max_logical (hlc_update c p m) = 0" "max_wall_time (hlc_update c p m) = wall_time m"
    using assms mx by (auto simp: hlc_update_def Let_def max_def)
  then show ?thesis
    using assms by (auto simp: hlc_now_def hlc_stamp_def Let_def Timestamp_less_iff tick_less_def)
qed

theorem hlc_update_wraps_witness:
  "hlc_now (hlc_update (hlc_init 1) 5 (Timestamp 9 UINT32_MAX 2)) [6] =
     Some (Timestamp 9 1 1, (hlc_update (hlc_init 1) 5 (Timestamp 9 UINT32_MAX 2))\<lparr>max_logical := 1\<rparr>, []) \<and>
   Timestamp 9 1 1 < Timestamp 9 UINT32_MAX 2"
  using hlc_update_wraps [of "Timestamp 9 UINT32_MAX 2" "hlc_init 1" 5 6 "[]"]
  by (simp add: hlc_init_def)

text \<open>C15: whatever the interleaving of the node's threads, of global \<^verbatim>\<open>now()\<close> calls and of
  received timestamps, no timestamp is issued twice, as long as the run is orderly: no received
  timestamp, and no clock that receives one, has its logical counter at the maximum (\<^verbatim>\<open>update\<close> would
  wrap it), and a call of \<^verbatim>\<open>now()\<close> that finds the counter exhausted sees readings that do not go back.\<close>

theorem issued_unique:
  assumes "orderly_reachable n s"
  shows "distinct (issued s)"
  by (rule reachable_distinct [OF assms])

theorem issued_unique_witness:
  "orderly_reachable 1 ((clock_sys_init 1)\<lparr>glob := \<lparr>max_wall_time = 9, max_logical = 0, hlc_node_id = 1\<rparr>,
     issued := [Timestamp 9 0 1]\<rparr>) \<and>
   distinct [Timestamp 9 0 1]"
proof -
  have "clock_step (clock_sys_init 1) (Global_now [9]) ((clock_sys_init 1)\<lparr>glob := \<lparr>max_wall_time = 9, max_logical = 0,
      hlc_node_id = 1\<rparr>, issued := Timestamp 9 0 1 # issued (clock_sys_init 1)\<rparr>)"
    by (rule clock_step.global_now [of _ "[9]" _ _ "[]"])
       (simp_all add: hlc_now_def clock_sys_init_def hlc_init_def hlc_stamp_def)
  moreover have "orderly (clock_sys_init 1) (Global_now [9])"
    by (simp add: readings_ok_def clock_sys_init_def hlc_init_def)
  ultimately have r: "orderly_reachable 1 ((clock_sys_init 1)\<lparr>glob := \<lparr>max_wall_time = 9, max_logical = 0,
      hlc_node_id = 1\<rparr>, issued := [Timestamp 9 0 1]\<rparr>)"
    using orderly_reachable.step [OF orderly_reachable.start, of 1 "Global_now [9]"] by (simp add: clock_sys_init_def)
  from issued_unique [OF this] r show ?thesis by simp
qed

text \<open>The condition is needed: a timestamp with the maximal counter, received twice, makes the node
  issue the same timestamp twice.\<close>

theorem maximal_counter_repeats:
  "\<exists>s. clock_steps False (clock_sys_init n) s \<and> issued s = [Timestamp 5 1 n, Timestamp 5 1 n]"
proof -
  let ?m = "Timestamp 5 UINT32_MAX 2"
  let ?g0 = "\<lparr>max_wall_time = 5, max_logical = 0, hlc_node_id = n\<rparr>" and ?g1 = "\<lparr>max_wall_time = 5, max_logical = 1, hlc_node_id = n\<rparr>"
  let ?s = "\<lambda>g l. (clock_sys_init n)\<lparr>glob := g, issued := l\<rparr>"
  have u: "hlc_update (hlc_init n) 0 ?m = ?g0" "hlc_update ?g1 0 ?m = ?g0"
    by (simp_all add: hlc_update_def hlc_init_def Let_def max_def)
  have now: "hlc_now ?g0 [0] = Some (Timestamp 5 1 n, ?g1, [])"
    by (simp add: hlc_now_def hlc_stamp_def Let_def)
  have "clock_step (clock_sys_init n) (Receive 0 ?m) (?s ?g0 [])"
    using clock_step.receive [of "clock_sys_init n" 0 ?m] u(1) by (simp add: clock_sys_init_def)
  moreover have "clock_step (?s ?g0 l) (Global_now [0]) (?s ?g1 (Timestamp 5 1 n # l))" for l
    using clock_step.global_now [of "?s ?g0 l" "[0]" "Timestamp 5 1 n" ?g1 "[]"] now by simp
  moreover have "clock_step (?s ?g1 l) (Receive 0 ?m) (?s ?g0 l)" for l
    using clock_step.receive [of "?s ?g1 l" 0 ?m] u(2) by (simp add: clock_sys_init_def)
  ultimately have "clock_steps False (clock_sys_init n) (?s ?g0 [])" "clock_steps False (?s ?g0 l) (?s ?g1 (Timestamp 5 1 n # l))"
    "clock_steps False (?s ?g1 l) (?s ?g0 l)" for l by (blast intro: r_into_rtranclp)+
  then have "clock_steps False (clock_sys_init n) (?s ?g1 [Timestamp 5 1 n, Timestamp 5 1 n])"
    by (blast intro: rtranclp_trans)
  then show ?thesis by (intro exI [of _ "?s ?g1 [Timestamp 5 1 n, Timestamp 5 1 n]"]) simp
qed

lemma orderly_steps_reachable: "clock_steps True s s' \<Longrightarrow> orderly_reachable n s \<Longrightarrow> orderly_reachable n s'"
  by (induction rule: rtranclp_induct) (auto intro: orderly_reachable.step)

text \<open>A call of a thread-local clock, as steps.\<close>

lemma tlc_now_steps:
  assumes "tlc_now (glob s) (locals s i) ps = Some (ts, g', t', qs)"
  shows "clock_steps (sorted ps) s (s\<lparr>glob := g', locals := (locals s)(i := t'), issued := ts # issued s\<rparr>)"
proof -
  let ?t = "locals s i"
  obtain p rs where ps: "ps = p # rs" using assms(1) by (auto simp: tlc_now_def split: list.splits)
  consider "p = cached_phys_time ?t" "cached_logical_next ?t < cached_logical_end ?t"
    | "p > cached_phys_time ?t"
    | "\<not> (p = cached_phys_time ?t \<and> cached_logical_next ?t < cached_logical_end ?t)"
      "\<not> p > cached_phys_time ?t"
    by blast
  then show ?thesis
  proof cases
    case 1
    then show ?thesis using assms(1) ps
      by (auto simp: tlc_now_def split: prod.splits intro!: r_into_rtranclp exI [of _ "Local_access i"] clock_step.hit)
  next
    case 2
    let ?s1 = "s\<lparr>locals := (locals s)(i := tlc_reset p ?t)\<rparr>"
    have "clock_steps (sorted ps) ?s1 (?s1\<lparr>glob := g', locals := (locals ?s1)(i := t'), issued := ts # issued ?s1\<rparr>)"
      using assms ps 2 by (intro tlc_refill_steps [of "glob s" _ p rs]) (auto simp: tlc_now_def)
    moreover have "\<exists>e. (sorted ps \<longrightarrow> orderly s e) \<and> clock_step s e ?s1"
      using clock_step.reset [OF 2] by (intro exI [of _ "Local_access i"]) simp
    ultimately show ?thesis by (auto intro: converse_rtranclp_into_rtranclp)
  next
    case 3
    then show ?thesis
      using assms ps by (intro tlc_refill_steps [of "glob s" _ p rs]) (auto simp: tlc_now_def)
  qed
qed

text \<open>C22: \<^verbatim>\<open>ThreadLocalClock::now()\<close> refines the interleaving model: a call of thread \<open>i\<close> that
  returns \<open>ts\<close>, whatever readings of the system clock it saw, is a sequence of steps that adds exactly
  \<open>ts\<close> to the issued timestamps. If the readings it saw do not go back the steps are orderly, so that in an
  orderly run \<open>ts\<close> is new.\<close>

theorem tlc_now_refines:
  assumes "tlc_now (glob s) (locals s i) ps = Some (ts, g', t', qs)"
  shows "clock_steps (sorted ps) s (s\<lparr>glob := g', locals := (locals s)(i := t'), issued := ts # issued s\<rparr>) \<and>
    (orderly_reachable n s \<and> sorted ps \<longrightarrow> ts \<notin> set (issued s))"
proof -
  have "clock_steps (sorted ps) s (s\<lparr>glob := g', locals := (locals s)(i := t'), issued := ts # issued s\<rparr>)"
    by (rule tlc_now_steps [OF assms])
  moreover from this have "orderly_reachable n (s\<lparr>glob := g', locals := (locals s)(i := t'), issued := ts # issued s\<rparr>)"
    if "orderly_reachable n s" "sorted ps"
    using that orderly_steps_reachable by simp
  ultimately show ?thesis using reachable_distinct by fastforce
qed

theorem tlc_now_refines_witness:
  "clock_steps True (clock_sys_init 1)
     ((clock_sys_init 1)\<lparr>glob := \<lparr>max_wall_time = 9, max_logical = 50, hlc_node_id = 1\<rparr>,
       locals := (locals (clock_sys_init 1))(0 :=
         \<lparr>cached_phys_time = 9, cached_logical_next = 2, cached_logical_end = 51\<rparr>),
       issued := Timestamp 9 1 1 # issued (clock_sys_init 1)\<rparr>)"
proof -
  have "tlc_now (glob (clock_sys_init 1)) (locals (clock_sys_init 1) 0) [9, 9] =
      Some (Timestamp 9 1 1, \<lparr>max_wall_time = 9, max_logical = 50, hlc_node_id = 1\<rparr>,
        \<lparr>cached_phys_time = 9, cached_logical_next = 2, cached_logical_end = 51\<rparr>, [])"
    by code_simp
  from tlc_now_refines [OF this] show ?thesis by simp
qed

text \<open>A thread-local clock ignores what \<^verbatim>\<open>update\<close> told the shared clock until its batch is
  used up: with ticks left and an unchanged physical time, its next timestamp is \<^emph>\<open>earlier\<close> than a
  received timestamp from the future.\<close>

theorem tlc_update_ignored:
  assumes "cached_logical_next t < cached_logical_end t" and "cached_phys_time t < wall_time m"
  shows "\<exists>ts t'. tlc_now (tlc_update g p m) t (cached_phys_time t # ps) =
             Some (ts, tlc_update g p m, t', ps) \<and> ts < m"
proof (intro exI conjI)
  show "tlc_now (tlc_update g p m) t (cached_phys_time t # ps) =
      Some (fst (tlc_take (hlc_node_id (tlc_update g p m)) t), tlc_update g p m,
        snd (tlc_take (hlc_node_id (tlc_update g p m)) t), ps)"
    using assms(1) by (simp add: tlc_now_def split_beta)
  show "fst (tlc_take (hlc_node_id (tlc_update g p m)) t) < m"
    using assms(2) by (intro tick_less_imp_less) (simp add: tlc_take_def tick_less_def)
qed

theorem tlc_update_ignored_witness:
  "\<exists>ts t'. tlc_now (tlc_update (hlc_init 1) 5 (Timestamp 1000 0 2))
       \<lparr>cached_phys_time = 5, cached_logical_next = 2, cached_logical_end = 51\<rparr> [5] =
     Some (ts, tlc_update (hlc_init 1) 5 (Timestamp 1000 0 2), t', []) \<and> ts < Timestamp 1000 0 2"
  using tlc_update_ignored [of "\<lparr>cached_phys_time = 5, cached_logical_next = 2, cached_logical_end = 51\<rparr>"
      "Timestamp 1000 0 2" "hlc_init 1" 5 "[]"]
  by simp

end
