(* ===== verification/Replication_Log.thy ===== *)
theory Replication_Log
  imports Clock
begin

text \<open>
  \<^verbatim>\<open>engine/replication_log.hpp\<close>: the mutation record that travels between nodes and the bounded
  in-memory queue of mutations, which drops its oldest entry when it is full.
  \<^verbatim>\<open>pop_front\<close> on an empty deque is undefined behaviour in C++; the model returns \<open>None\<close> there.
\<close>

record Mutation =
  mut_timestamp :: Timestamp
  mut_key :: bytes
  mut_value :: bytes
  is_delete :: bool

record rlog =
  rl_queue :: "Mutation list"
  rl_max_size :: nat

definition rlog_init :: "nat \<Rightarrow> rlog" where
  "rlog_init mx = \<lparr>rl_queue = [], rl_max_size = mx\<rparr>"

definition pop_front :: "'a list \<Rightarrow> 'a list option" where
  "pop_front q = (case q of [] \<Rightarrow> None | _ # q' \<Rightarrow> Some q')"

definition rl_append :: "Mutation \<Rightarrow> rlog \<Rightarrow> rlog option" where
  "rl_append m r =
     (case (if length (rl_queue r) \<ge> rl_max_size r then pop_front (rl_queue r)
            else Some (rl_queue r)) of
        None \<Rightarrow> None
      | Some q \<Rightarrow> Some (r\<lparr>rl_queue := q @ [m]\<rparr>))"

text \<open>\<^verbatim>\<open>while (!queue_.empty() && batch.size() < limit)\<close> moves the front into the batch.\<close>

fun pop_loop :: "Mutation list \<Rightarrow> Mutation list \<Rightarrow> nat \<Rightarrow> Mutation list \<times> Mutation list" where
  "pop_loop [] batch limit = (batch, [])"
| "pop_loop (m # q) batch limit =
     (if length batch < limit then pop_loop q (batch @ [m]) limit else (batch, m # q))"

definition rl_pop_batch :: "nat \<Rightarrow> rlog \<Rightarrow> Mutation list \<times> rlog" where
  "rl_pop_batch limit r =
     (let (batch, q) = pop_loop (rl_queue r) [] limit in (batch, r\<lparr>rl_queue := q\<rparr>))"

definition rl_size :: "rlog \<Rightarrow> nat" where
  "rl_size r = length (rl_queue r)"

definition rl_empty :: "rlog \<Rightarrow> bool" where
  "rl_empty r = (rl_queue r = [])"

fun rl_appends :: "Mutation list \<Rightarrow> rlog \<Rightarrow> rlog option" where
  "rl_appends [] r = Some r"
| "rl_appends (m # ms) r = (case rl_append m r of None \<Rightarrow> None | Some r' \<Rightarrow> rl_appends ms r')"

section \<open>The abstract queue\<close>

text \<open>
  The contract: a window of the last \<open>cap\<close> entries. \<open>keep_last\<close> is the abstract state after
  any number of appends, and a batch is a prefix of it.
\<close>

definition keep_last :: "nat \<Rightarrow> 'a list \<Rightarrow> 'a list" where
  "keep_last n xs = drop (length xs - n) xs"

lemma keep_last_short [simp]: "length xs \<le> n \<Longrightarrow> keep_last n xs = xs"
  by (simp add: keep_last_def)

lemma length_keep_last [simp]: "length (keep_last n xs) = min (length xs) n"
  by (simp add: keep_last_def min_def)

lemma keep_last_absorb: "keep_last n (keep_last n xs @ ys) = keep_last n (xs @ ys)"
  by (cases "length xs \<le> n") (auto simp: keep_last_def add.commute)

lemma keep_last_full: "length (x # q) = n \<Longrightarrow> keep_last n ((x # q) @ [m]) = q @ [m]"
  by (simp add: keep_last_def)

locale bounded_queue =
  fixes append :: "'m \<Rightarrow> 'q \<Rightarrow> 'q option"
    and pop :: "nat \<Rightarrow> 'q \<Rightarrow> 'm list \<times> 'q"
    and content :: "'q \<Rightarrow> 'm list"
    and cap :: "'q \<Rightarrow> nat"
    and inv :: "'q \<Rightarrow> bool"
  assumes append_ok: "inv q \<Longrightarrow> \<exists>q'. append m q = Some q' \<and> inv q' \<and> cap q' = cap q \<and>
      content q' = keep_last (cap q) (content q @ [m])"
    and pop_ok: "inv q \<Longrightarrow> pop n q = (b, q') \<Longrightarrow> inv q' \<and> cap q' = cap q \<and>
      b = take n (content q) \<and> content q' = drop n (content q)"
begin

fun appends :: "'m list \<Rightarrow> 'q \<Rightarrow> 'q option" where
  "appends [] q = Some q"
| "appends (m # ms) q = (case append m q of None \<Rightarrow> None | Some q' \<Rightarrow> appends ms q')"

lemma appends_window:
  "inv q \<Longrightarrow> content q = keep_last (cap q) xs \<Longrightarrow>
   \<exists>q'. appends ms q = Some q' \<and> inv q' \<and> cap q' = cap q \<and>
        content q' = keep_last (cap q) (xs @ ms)"
proof (induction ms arbitrary: q xs)
  case (Cons m ms)
  obtain q1 where q1: "append m q = Some q1" "inv q1" "cap q1 = cap q"
      "content q1 = keep_last (cap q) (content q @ [m])"
    using append_ok [OF Cons.prems(1)] by blast
  then have "content q1 = keep_last (cap q1) (xs @ [m])"
    using Cons.prems(2) by (simp add: keep_last_absorb)
  from Cons.IH [OF q1(2) this] q1 show ?case by auto
qed auto

text \<open>Draining: popping with a limit at least the content empties the queue in order.\<close>

lemma pop_all: "inv q \<Longrightarrow> length (content q) \<le> n \<Longrightarrow> pop n q = (b, q') \<Longrightarrow>
    b = content q \<and> content q' = []"
  using pop_ok by fastforce

end

definition rlog_inv :: "rlog \<Rightarrow> bool" where
  "rlog_inv r \<longleftrightarrow> 0 < rl_max_size r \<and> length (rl_queue r) \<le> rl_max_size r"

lemma pop_loop_take:
  "pop_loop q batch limit =
     (batch @ take (limit - length batch) q, drop (limit - length batch) q)"
  by (induction q batch limit rule: pop_loop.induct) (auto simp: Suc_diff_le take_Cons' drop_Cons')

lemma rl_append_window:
  assumes "rlog_inv r"
  shows "\<exists>r'. rl_append m r = Some r' \<and> rlog_inv r' \<and> rl_max_size r' = rl_max_size r \<and>
     rl_queue r' = keep_last (rl_max_size r) (rl_queue r @ [m])"
proof (cases "length (rl_queue r) \<ge> rl_max_size r")
  case True
  with assms obtain x q where q: "rl_queue r = x # q"
    by (cases "rl_queue r") (auto simp: rlog_inv_def)
  with True assms have "length (x # q) = rl_max_size r" by (simp add: rlog_inv_def)
  then show ?thesis
    using True q keep_last_full [of x q "rl_max_size r" m]
    by (auto simp: rl_append_def pop_front_def rlog_inv_def)
next
  case False
  then show ?thesis using assms by (auto simp: rl_append_def rlog_inv_def)
qed

interpretation rlq: bounded_queue rl_append rl_pop_batch rl_queue rl_max_size rlog_inv
proof
  fix q m assume "rlog_inv q"
  then show "\<exists>q'. rl_append m q = Some q' \<and> rlog_inv q' \<and> rl_max_size q' = rl_max_size q \<and>
      rl_queue q' = keep_last (rl_max_size q) (rl_queue q @ [m])"
    by (rule rl_append_window)
next
  fix q n b q' assume "rlog_inv q" "rl_pop_batch n q = (b, q')"
  then show "rlog_inv q' \<and> rl_max_size q' = rl_max_size q \<and>
      b = take n (rl_queue q) \<and> rl_queue q' = drop n (rl_queue q)"
    by (auto simp: rl_pop_batch_def pop_loop_take rlog_inv_def)
qed

lemma rl_appends_eq: "rl_appends ms r = rlq.appends ms r"
  by (induction ms arbitrary: r) (auto split: option.splits)

section \<open>Properties\<close>

text \<open>C34: the log keeps exactly the latest \<^verbatim>\<open>max_size\<close> mutations, in the order they were appended,
  and a batch pop then returns the oldest of those and leaves the rest, so nothing is reordered
  or duplicated and only the oldest entries are dropped.\<close>

theorem rlog_keeps_latest:
  assumes "0 < mx"
  shows "\<exists>r. rl_appends ms (rlog_init mx) = Some r \<and> rl_queue r = keep_last mx ms \<and>
     rl_size r = min (length ms) mx \<and>
     fst (rl_pop_batch n r) = take n (keep_last mx ms) \<and>
     rl_queue (snd (rl_pop_batch n r)) = drop n (keep_last mx ms)"
proof -
  have "rlog_inv (rlog_init mx)" using assms by (simp add: rlog_inv_def rlog_init_def)
  from rlq.appends_window [OF this, of "[]" ms]
  obtain r where r: "rl_appends ms (rlog_init mx) = Some r" "rlog_inv r"
      "rl_queue r = keep_last mx ms"
    by (auto simp: rlog_init_def rl_appends_eq)
  obtain b r' where "rl_pop_batch n r = (b, r')" by force
  with rlq.pop_ok [OF r(2) this] r show ?thesis by (auto simp: rl_size_def)
qed

definition mut_example :: "byte \<Rightarrow> Mutation" where
  "mut_example b = \<lparr>mut_timestamp = Timestamp 1 0 1, mut_key = [b], mut_value = [], is_delete = False\<rparr>"

theorem rlog_keeps_latest_witness:
  "\<exists>r. rl_appends (map mut_example [1, 2, 3]) (rlog_init 2) = Some r \<and>
     rl_queue r = keep_last 2 (map mut_example [1, 2, 3]) \<and>
     rl_size r = min (length (map mut_example [1, 2, 3])) 2 \<and>
     fst (rl_pop_batch 1 r) = take 1 (keep_last 2 (map mut_example [1, 2, 3])) \<and>
     rl_queue (snd (rl_pop_batch 1 r)) = drop 1 (keep_last 2 (map mut_example [1, 2, 3]))"
  by (rule rlog_keeps_latest) simp

end
