(* ===== verification/Merkle.thy ===== *)
theory Merkle
  imports L3_Prelude
begin

text \<open>
  \<^verbatim>\<open>engine/merkle.hpp\<close>: the 64-bit FNV-1a hash and the five-level Merkle tree with lazily
  recomputed inner levels. The arrays of the class are lists of the sizes the constructor gives
  them, the \<^verbatim>\<open>uint8_t\<close> dirty flags are booleans. The reference semantics is a tree recomputed from
  its leaves; the lazy tree is shown to agree with it.
\<close>

section \<open>FNV-1a\<close>

definition fnv1a_step :: "byte \<Rightarrow> u64 \<Rightarrow> u64" where
  "fnv1a_step b hash = (hash XOR ucast b) * 0x100000001b3"

definition fnv1a_64 :: "bytes \<Rightarrow> u64" where
  "fnv1a_64 data = fold fnv1a_step data 0xcbf29ce484222325"

section \<open>The tree\<close>

record merkle =
  leaves :: "u64 list"
  l3 :: "u64 list"
  l3_dirty :: "bool list"
  l2 :: "u64 list"
  l2_dirty :: "bool list"
  l1 :: "u64 list"
  l1_dirty :: "bool list"
  l0 :: "u64 list"
  l0_dirty :: "bool list"

text \<open>\<^verbatim>\<open>fnv1a_64(&v[i * 16], 16 * sizeof(uint64_t))\<close>: the hash of block \<open>i\<close> of sixteen entries.\<close>

definition block_hash :: "u64 list \<Rightarrow> nat \<Rightarrow> u64" where
  "block_hash v i = fnv1a_64 (concat (map put64 (take 16 (drop (i * 16) v))))"

definition merkle_init :: merkle where
  "merkle_init =
     (let h_l3 = fnv1a_64 (concat (map put64 (replicate 16 0)));
          h_l2 = fnv1a_64 (concat (map put64 (replicate 16 h_l3)));
          h_l1 = fnv1a_64 (concat (map put64 (replicate 16 h_l2)));
          h_l0 = fnv1a_64 (concat (map put64 (replicate 16 h_l1)))
      in \<lparr>leaves = replicate 65536 0,
          l3 = replicate 4096 h_l3, l3_dirty = replicate 4096 False,
          l2 = replicate 256 h_l2, l2_dirty = replicate 256 False,
          l1 = replicate 16 h_l1, l1_dirty = replicate 16 False,
          l0 = [h_l0], l0_dirty = [False]\<rparr>)"

definition bucket_idx :: "bytes \<Rightarrow> nat" where
  "bucket_idx key = unat (drop_bit 48 (fnv1a_64 key) AND 0xFFFF)"

definition apply_delta :: "bytes \<Rightarrow> u64 \<Rightarrow> merkle \<Rightarrow> merkle" where
  "apply_delta key hash_delta t =
     (let b = bucket_idx key
      in t\<lparr>leaves := (leaves t)[b := (leaves t ! b) XOR hash_delta],
           l3_dirty := (l3_dirty t)[b div 16 := True]\<rparr>)"

text \<open>
  One iteration of a rehash loop: node \<open>i\<close> of a level is rehashed from its block of children if
  it is dirty; its flag is cleared and its parent's flag set. The state of a loop is the level's
  hashes, its flags and the flags of the level above.
\<close>

definition rehash :: "u64 list \<Rightarrow> nat \<Rightarrow> u64 list \<times> bool list \<times> bool list \<Rightarrow>
    u64 list \<times> bool list \<times> bool list" where
  "rehash children i s =
     (case s of (h, dirty, parent_dirty) \<Rightarrow>
        if dirty ! i
        then (h[i := block_hash children i], dirty[i := False], parent_dirty[i div 16 := True])
        else s)"

text \<open>Phase 1 goes shard by shard (256 shards of sixteen nodes); the other phases are plain loops.\<close>

definition recompute_l3 :: "merkle \<Rightarrow> merkle" where
  "recompute_l3 t =
     (let (h, d, pd) = fold (\<lambda>s. fold (\<lambda>i. rehash (leaves t) (s * 16 + i)) [0..<16]) [0..<256]
          (l3 t, l3_dirty t, l2_dirty t)
      in t\<lparr>l3 := h, l3_dirty := d, l2_dirty := pd\<rparr>)"

definition recompute_l2 :: "merkle \<Rightarrow> merkle" where
  "recompute_l2 t =
     (let (h, d, pd) = fold (rehash (l3 t)) [0..<256] (l2 t, l2_dirty t, l1_dirty t)
      in t\<lparr>l2 := h, l2_dirty := d, l1_dirty := pd\<rparr>)"

definition recompute_l1 :: "merkle \<Rightarrow> merkle" where
  "recompute_l1 t =
     (let (h, d, pd) = fold (rehash (l2 t)) [0..<16] (l1 t, l1_dirty t, l0_dirty t)
      in t\<lparr>l1 := h, l1_dirty := d, l0_dirty := pd\<rparr>)"

definition recompute_l0 :: "merkle \<Rightarrow> merkle" where
  "recompute_l0 t =
     (if l0_dirty t ! 0
      then t\<lparr>l0 := (l0 t)[0 := block_hash (l1 t) 0], l0_dirty := (l0_dirty t)[0 := False]\<rparr>
      else t)"

definition recompute_dirty :: "merkle \<Rightarrow> merkle" where
  "recompute_dirty t = recompute_l0 (recompute_l1 (recompute_l2 (recompute_l3 t)))"

definition get_root_hash :: "merkle \<Rightarrow> u64 \<times> merkle" where
  "get_root_hash t = (let t' = recompute_dirty t in (l0 t' ! 0, t'))"

text \<open>
  \<^verbatim>\<open>get_node_hash\<close> indexes its vectors without a bounds check: an index outside the level is
  undefined behaviour (\<open>None\<close>); an unknown level is 0.
\<close>

definition vec_at :: "u64 list \<Rightarrow> nat \<Rightarrow> u64 option" where
  "vec_at v i = (if i < length v then Some (v ! i) else None)"

definition get_node_hash :: "merkle \<Rightarrow> int \<Rightarrow> nat \<Rightarrow> u64 option" where
  "get_node_hash t level index =
     (if level = 0 then vec_at (l0 t) 0
      else if level = 1 then vec_at (l1 t) index
      else if level = 2 then vec_at (l2 t) index
      else if level = 3 then vec_at (l3 t) index
      else if level = 4 then vec_at (leaves t) index
      else Some 0)"

section \<open>Reference: the tree computed from its leaves\<close>

definition ref_l3 :: "u64 list \<Rightarrow> u64 list" where
  "ref_l3 lv = map (block_hash lv) [0..<4096]"

definition ref_l2 :: "u64 list \<Rightarrow> u64 list" where
  "ref_l2 lv = map (block_hash (ref_l3 lv)) [0..<256]"

definition ref_l1 :: "u64 list \<Rightarrow> u64 list" where
  "ref_l1 lv = map (block_hash (ref_l2 lv)) [0..<16]"

definition ref_root :: "u64 list \<Rightarrow> u64" where
  "ref_root lv = block_hash (ref_l1 lv) 0"

section \<open>Invariant of the lazy tree\<close>

definition level_ok :: "u64 list \<Rightarrow> u64 list \<Rightarrow> bool list \<Rightarrow> bool" where
  "level_ok children h dirty \<longleftrightarrow>
     length dirty = length h \<and> (\<forall>i < length h. \<not> dirty ! i \<longrightarrow> h ! i = block_hash children i)"

definition merkle_inv :: "merkle \<Rightarrow> bool" where
  "merkle_inv t \<longleftrightarrow>
     length (leaves t) = 65536 \<and> length (l3 t) = 4096 \<and> length (l2 t) = 256 \<and>
     length (l1 t) = 16 \<and> length (l0 t) = 1 \<and>
     level_ok (leaves t) (l3 t) (l3_dirty t) \<and> level_ok (l3 t) (l2 t) (l2_dirty t) \<and>
     level_ok (l2 t) (l1 t) (l1_dirty t) \<and> level_ok (l1 t) (l0 t) (l0_dirty t)"

lemma bucket_idx_less [simp]: "bucket_idx key < 65536"
proof -
  have "drop_bit 48 (fnv1a_64 key) AND 0xFFFF \<le> (0xFFFF :: u64)"
    by (rule word_and_le1)
  then show ?thesis by (simp add: bucket_idx_def word_le_nat_alt)
qed

lemma block_hash_cong:
  assumes "length v = length v'" "\<And>j. j div 16 = i \<Longrightarrow> j < length v \<Longrightarrow> v ! j = v' ! j"
  shows "block_hash v i = block_hash v' i"
proof -
  have "take 16 (drop (i * 16) v) = take 16 (drop (i * 16) v')"
    using assms by (intro nth_equalityI) auto
  then show ?thesis by (simp add: block_hash_def)
qed

lemma block_hash_replicate:
  "i * 16 + 16 \<le> n \<Longrightarrow> block_hash (replicate n x) i = fnv1a_64 (concat (map put64 (replicate 16 x)))"
proof -
  assume "i * 16 + 16 \<le> n"
  then have "min 16 (n - i * 16) = 16" by simp
  then show ?thesis by (simp only: block_hash_def drop_replicate take_replicate)
qed

text \<open>What one rehash loop computes, for a loop over the nodes \<open>0..<n\<close>.\<close>

lemma map_upt_update:
  "(map f [0..<m])[k := v] = map (\<lambda>i. if i = k then v else f i) [0..<m]"
  by (rule nth_equalityI) (auto simp: nth_list_update)

lemma fold_rehash:
  assumes "length d = length h" "n \<le> length h"
  shows "fold (rehash ch) [0..<n] (h, d, pd) =
    (map (\<lambda>i. if i < n \<and> d ! i then block_hash ch i else h ! i) [0..<length h],
     map (\<lambda>i. \<not> i < n \<and> d ! i) [0..<length h],
     map (\<lambda>j. pd ! j \<or> (\<exists>i < n. d ! i \<and> i div 16 = j)) [0..<length pd])"
  using assms(2)
proof (induction n)
  case 0
  show ?case using assms(1) by (auto intro!: nth_equalityI)
next
  case (Suc n)
  then have n: "n < length h" by simp
  have "fold (rehash ch) [0..<Suc n] (h, d, pd) = rehash ch n (fold (rehash ch) [0..<n] (h, d, pd))"
    by simp
  then show ?case
    using Suc.IH n by (simp add: rehash_def map_upt_update) (auto simp: less_Suc_eq)
qed

lemma fold_shards:
  "fold (\<lambda>s. fold (\<lambda>i. f (s * 16 + i)) [0..<16]) [0..<n] st = fold f [0..<n * 16] st"
proof (induction n)
  case (Suc n)
  have "fold f [0..<Suc n * 16] st = fold f [n * 16..<n * 16 + 16] (fold f [0..<n * 16] st)"
    using upt_add_eq_append [of 0 "n * 16" 16] by (simp add: add.commute)
  also have "[n * 16..<n * 16 + 16] = map (\<lambda>i. n * 16 + i) [0..<16]"
    using map_add_upt [of "n * 16" 16] by (simp add: add.commute)
  finally show ?case using Suc by (simp add: fold_map comp_def)
qed simp

text \<open>
  A rehash loop makes its level exact, provided every child whose value changed since the level
  was last correct has a dirty parent; it marks every node whose hash changes.
\<close>

lemma rehash_level:
  assumes ok: "level_ok och h d" and len: "length ch = length och" "length ch = length h * 16"
    and changed: "\<And>j. j < length ch \<Longrightarrow> ch ! j \<noteq> och ! j \<Longrightarrow> d ! (j div 16)"
    and res: "fold (rehash ch) [0..<length h] (h, d, pd) = (h', d', pd')"
  shows "h' = map (block_hash ch) [0..<length h]" "d' = replicate (length h) False"
    and "length pd' = length pd" "\<And>j. pd ! j \<Longrightarrow> j < length pd \<Longrightarrow> pd' ! j"
    and "\<And>i. i < length h \<Longrightarrow> i div 16 < length pd \<Longrightarrow> h' ! i \<noteq> h ! i \<Longrightarrow> pd' ! (i div 16)"
proof -
  have "length d = length h" using ok by (simp add: level_ok_def)
  note eqs = fold_rehash [OF this order.refl, of ch pd, unfolded res]
  have clean: "h ! i = block_hash ch i" if "i < length h" "\<not> d ! i" for i
  proof -
    have "block_hash och i = block_hash ch i"
    proof (rule block_hash_cong)
      show "och ! j = ch ! j" if "j div 16 = i" "j < length och" for j
        using changed [of j] that \<open>\<not> d ! i\<close> len by (cases "ch ! j = och ! j") auto
    qed (use len in simp)
    then show ?thesis using ok that by (simp add: level_ok_def)
  qed
  show "h' = map (block_hash ch) [0..<length h]"
    using eqs clean by auto
  show "d' = replicate (length h) False"
    using eqs by (auto intro: nth_equalityI)
  show "length pd' = length pd" "\<And>j. pd ! j \<Longrightarrow> j < length pd \<Longrightarrow> pd' ! j"
    using eqs by auto
  show "\<And>i. i < length h \<Longrightarrow> i div 16 < length pd \<Longrightarrow> h' ! i \<noteq> h ! i \<Longrightarrow> pd' ! (i div 16)"
    using eqs by (auto split: if_splits)
qed

lemma level_ok_more_dirty:
  "level_ok ch h d \<Longrightarrow> length d' = length d \<Longrightarrow> (\<And>j. d ! j \<Longrightarrow> j < length d \<Longrightarrow> d' ! j) \<Longrightarrow>
   level_ok ch h d'"
  by (auto simp: level_ok_def)

lemma level_ok_exact: "level_ok ch (map (block_hash ch) [0..<n]) (replicate n False)"
  by (simp add: level_ok_def)

text \<open>After \<^verbatim>\<open>recompute_dirty\<close> every level is the reference level and nothing is dirty.\<close>

definition merkle_exact :: "u64 list \<Rightarrow> merkle" where
  "merkle_exact lv =
     \<lparr>leaves = lv, l3 = ref_l3 lv, l3_dirty = replicate 4096 False,
      l2 = ref_l2 lv, l2_dirty = replicate 256 False,
      l1 = ref_l1 lv, l1_dirty = replicate 16 False,
      l0 = [ref_root lv], l0_dirty = [False]\<rparr>"

text \<open>
  One loop inside the tree: the level \<open>h\<close> over children that changed from \<open>och\<close> to \<open>ch\<close>
  becomes exact, and the level above stays correct for the old \<open>h\<close> with a dirty parent for every
  change, which is what the next loop needs.
\<close>

lemma rehash_chain:
  assumes ok: "level_ok och h d" "length ch = length och" "length ch = length h * 16"
    "\<And>j. j < length ch \<Longrightarrow> ch ! j \<noteq> och ! j \<Longrightarrow> d ! (j div 16)"
    and above: "level_ok h h2 pd" "length h = length h2 * 16"
  shows "\<exists>pd'. fold (rehash ch) [0..<length h] (h, d, pd) =
      (map (block_hash ch) [0..<length h], replicate (length h) False, pd') \<and>
    level_ok h h2 pd' \<and>
    (\<forall>i < length h. map (block_hash ch) [0..<length h] ! i \<noteq> h ! i \<longrightarrow> pd' ! (i div 16))"
proof -
  obtain h' d' pd' where f: "fold (rehash ch) [0..<length h] (h, d, pd) = (h', d', pd')"
    by (metis prod_cases3)
  note r = rehash_level [OF ok f]
  have "length pd = length h2" using above(1) by (simp add: level_ok_def)
  then have "\<forall>i < length h. map (block_hash ch) [0..<length h] ! i \<noteq> h ! i \<longrightarrow> pd' ! (i div 16)"
    using r(1,5) above(2) by auto
  moreover have "level_ok h h2 pd'"
    using above(1) r(3,4) by (rule level_ok_more_dirty)
  ultimately show ?thesis using f r(1,2) by blast
qed

lemma recompute_dirty_exact:
  assumes "merkle_inv t"
  shows "recompute_dirty t = merkle_exact (leaves t)"
proof -
  note inv = assms [unfolded merkle_inv_def]
  obtain p2 where f3: "fold (rehash (leaves t)) [0..<length (l3 t)] (l3 t, l3_dirty t, l2_dirty t) =
      (ref_l3 (leaves t), replicate 4096 False, p2)" and ok2: "level_ok (l3 t) (l2 t) p2"
    and ch2: "\<forall>i < 4096. ref_l3 (leaves t) ! i \<noteq> l3 t ! i \<longrightarrow> p2 ! (i div 16)"
    using rehash_chain [of "leaves t" "l3 t" "l3_dirty t" "leaves t" "l2 t" "l2_dirty t"] inv
    by (auto simp: ref_l3_def)
  obtain p1 where f2: "fold (rehash (ref_l3 (leaves t))) [0..<length (l2 t)] (l2 t, p2, l1_dirty t) =
      (ref_l2 (leaves t), replicate 256 False, p1)" and ok1: "level_ok (l2 t) (l1 t) p1"
    and ch1: "\<forall>i < 256. ref_l2 (leaves t) ! i \<noteq> l2 t ! i \<longrightarrow> p1 ! (i div 16)"
    using rehash_chain [OF ok2, of "ref_l3 (leaves t)" "l1 t" "l1_dirty t"] inv ch2
    by (auto simp: ref_l3_def ref_l2_def)
  obtain h d p0 where f1: "fold (rehash (ref_l2 (leaves t))) [0..<length (l1 t)] (l1 t, p1, l0_dirty t) =
      (h, d, p0)" by (metis prod_cases3)
  have l0d: "length (l0_dirty t) = 1" "l0_dirty t \<noteq> []"
    using inv by (auto simp: level_ok_def)
  have r1: "h = ref_l1 (leaves t)" "d = replicate 16 False" "length p0 = 1"
    "\<And>j. l0_dirty t ! j \<Longrightarrow> j < 1 \<Longrightarrow> p0 ! j"
    "\<And>i. i < 16 \<Longrightarrow> h ! i \<noteq> l1 t ! i \<Longrightarrow> p0 ! (i div 16)"
    using rehash_level [OF ok1 _ _ _ f1] inv ch1 l0d
    by (simp_all add: ref_l1_def ref_l2_def)
  let ?t3 = "t\<lparr>l3 := ref_l3 (leaves t), l3_dirty := replicate 4096 False, l2_dirty := p2\<rparr>"
  let ?t2 = "?t3\<lparr>l2 := ref_l2 (leaves t), l2_dirty := replicate 256 False, l1_dirty := p1\<rparr>"
  let ?t1 = "?t2\<lparr>l1 := ref_l1 (leaves t), l1_dirty := replicate 16 False, l0_dirty := p0\<rparr>"
  have "recompute_l3 t = ?t3"
    using f3 inv by (simp add: recompute_l3_def fold_shards)
  moreover have "recompute_l2 ?t3 = ?t2"
    using f2 inv by (simp add: recompute_l2_def)
  moreover have "recompute_l1 ?t2 = ?t1"
    using f1 r1 inv by (simp add: recompute_l1_def)
  moreover have "recompute_l0 ?t1 = merkle_exact (leaves t)"
  proof -
    obtain x y where l0: "l0 t = [x]" "p0 = [y]"
      using inv r1(3) by (auto simp: length_Suc_conv)
    have "l0 t ! 0 = ref_root (leaves t)" if "\<not> p0 ! 0"
    proof -
      have "\<not> l0_dirty t ! 0" using r1(4) that by auto
      moreover have "h ! i = l1 t ! i" if "i < 16" for i
        using r1(5) [of i] that \<open>\<not> p0 ! 0\<close> by auto
      then have "block_hash (l1 t) 0 = block_hash h 0"
        using inv r1(1) by (intro block_hash_cong) (auto simp: ref_l1_def)
      ultimately show ?thesis
        using inv r1(1) by (simp add: level_ok_def ref_root_def)
    qed
    then show ?thesis
      using l0 by (cases t) (auto simp: recompute_l0_def merkle_exact_def ref_root_def)
  qed
  ultimately show ?thesis by (simp add: recompute_dirty_def)
qed

lemma merkle_exact_inv: "length lv = 65536 \<Longrightarrow> merkle_inv (merkle_exact lv)"
  using level_ok_exact [of "ref_l1 lv" 1] level_ok_exact [of lv 4096]
    level_ok_exact [of "ref_l3 lv" 256] level_ok_exact [of "ref_l2 lv" 16]
  by (simp add: merkle_inv_def merkle_exact_def ref_l3_def ref_l2_def ref_l1_def ref_root_def)

lemma leaves_length: "merkle_inv t \<Longrightarrow> length (leaves t) = 65536"
  by (simp add: merkle_inv_def)

lemma merkle_init_inv: "merkle_inv merkle_init"
  by (simp add: merkle_inv_def merkle_init_def Let_def level_ok_def block_hash_replicate)

lemma leaves_apply_delta:
  "leaves (apply_delta k d t) =
     (leaves t)[bucket_idx k := (leaves t ! bucket_idx k) XOR d]"
  by (simp add: apply_delta_def Let_def)

lemma apply_delta_inv:
  assumes "merkle_inv t"
  shows "merkle_inv (apply_delta k d t)"
proof -
  let ?b = "bucket_idx k"
  have "level_ok (leaves (apply_delta k d t)) (l3 t) ((l3_dirty t)[?b div 16 := True])"
    unfolding level_ok_def
  proof (intro conjI allI impI)
    fix i assume i: "i < length (l3 t)" "\<not> (l3_dirty t)[?b div 16 := True] ! i"
    have "i \<noteq> ?b div 16"
      using i assms by (auto simp: merkle_inv_def level_ok_def)
    moreover from this have "\<not> l3_dirty t ! i" using i(2) by simp
    moreover from \<open>i \<noteq> ?b div 16\<close> have "block_hash (leaves t) i = block_hash (leaves (apply_delta k d t)) i"
      by (intro block_hash_cong) (auto simp: leaves_apply_delta)
    ultimately show "l3 t ! i = block_hash (leaves (apply_delta k d t)) i"
      using assms i(1) by (simp add: merkle_inv_def level_ok_def)
  qed (use assms in \<open>simp add: merkle_inv_def level_ok_def\<close>)
  then show ?thesis
    using assms by (simp add: merkle_inv_def apply_delta_def Let_def)
qed

section \<open>The interface of a digest tree\<close>

text \<open>
  What the store and the replication protocol need of the tree: a delta xors one leaf, the root
  is a function of the leaves.
\<close>

locale digest_tree =
  fixes inv :: "'t \<Rightarrow> bool"
    and delta :: "bytes \<Rightarrow> u64 \<Rightarrow> 't \<Rightarrow> 't"
    and leaf :: "'t \<Rightarrow> nat \<Rightarrow> u64"
    and root :: "'t \<Rightarrow> u64"
    and bucket :: "bytes \<Rightarrow> nat"
  assumes inv_delta: "inv t \<Longrightarrow> inv (delta k d t)"
    and leaf_delta: "inv t \<Longrightarrow> leaf (delta k d t) b = (if b = bucket k then leaf t b XOR d else leaf t b)"
    and root_cong: "inv t \<Longrightarrow> inv t' \<Longrightarrow> (\<And>b. leaf t b = leaf t' b) \<Longrightarrow> root t = root t'"
begin

abbreviation deltas :: "(bytes \<times> u64) list \<Rightarrow> 't \<Rightarrow> 't" where
  "deltas ds t \<equiv> fold (\<lambda>(k, d). delta k d) ds t"

definition in_bucket :: "nat \<Rightarrow> (bytes \<times> u64) list \<Rightarrow> u64 list" where
  "in_bucket b ds = map snd (filter (\<lambda>(k, d). bucket k = b) ds)"

lemma inv_deltas: "inv t \<Longrightarrow> inv (deltas ds t)"
  by (induction ds arbitrary: t) (auto intro: inv_delta)

lemma leaf_deltas: "inv t \<Longrightarrow> leaf (deltas ds t) b = leaf t b XOR xor_sum (in_bucket b ds)"
  by (induction ds arbitrary: t)
     (auto simp: in_bucket_def inv_delta leaf_delta xor_ac)

lemma deltas_perm:
  assumes "inv t" "mset ds = mset ds'"
  shows "root (deltas ds t) = root (deltas ds' t)"
proof (rule root_cong)
  have "mset (in_bucket b ds) = mset (in_bucket b ds')" for b
    using assms(2) by (simp add: in_bucket_def)
  then show "leaf (deltas ds t) b = leaf (deltas ds' t) b" for b
    using assms(1) xor_sum_perm [of "in_bucket b ds" "in_bucket b ds'"] by (simp add: leaf_deltas)
qed (use assms(1) in \<open>simp_all add: inv_deltas\<close>)

lemma delta_twice: "inv t \<Longrightarrow> root (delta k d (delta k d t)) = root t"
  by (rule root_cong) (auto simp: inv_delta leaf_delta xor.assoc)

end

abbreviation root_hash :: "merkle \<Rightarrow> u64" where
  "root_hash t \<equiv> fst (get_root_hash t)"

lemma get_root_hash_exact:
  "merkle_inv t \<Longrightarrow> get_root_hash t = (ref_root (leaves t), merkle_exact (leaves t))"
  by (simp add: get_root_hash_def recompute_dirty_exact) (simp add: merkle_exact_def)

interpretation mt: digest_tree merkle_inv apply_delta "\<lambda>t b. leaves t ! b" root_hash bucket_idx
proof
  fix t k d b assume "merkle_inv t"
  then show "leaves (apply_delta k d t) ! b =
      (if b = bucket_idx k then (leaves t ! b) XOR d else leaves t ! b)"
    by (simp add: leaves_apply_delta merkle_inv_def)
next
  fix t t' assume inv: "merkle_inv t" "merkle_inv t'" "\<And>b. leaves t ! b = leaves t' ! b"
  then have "leaves t = leaves t'" by (intro nth_equalityI) (auto simp: merkle_inv_def)
  with inv show "root_hash t = root_hash t'" by (simp add: get_root_hash_exact)
qed (rule apply_delta_inv)

text \<open>A history of the tree: writers apply deltas, the gossip thread asks for the root.\<close>

datatype merkle_op = Delta bytes u64 | Root

fun merkle_step :: "merkle_op \<Rightarrow> merkle \<Rightarrow> merkle" where
  "merkle_step (Delta k d) t = apply_delta k d t"
| "merkle_step Root t = snd (get_root_hash t)"

definition merkle_run :: "merkle_op list \<Rightarrow> merkle \<Rightarrow> merkle" where
  "merkle_run ops t = fold merkle_step ops t"

definition op_deltas :: "merkle_op list \<Rightarrow> nat \<Rightarrow> u64 list" where
  "op_deltas ops b = concat (map (\<lambda>p. case p of Delta k d \<Rightarrow> if bucket_idx k = b then [d] else []
     | Root \<Rightarrow> []) ops)"

lemma merkle_step_inv: "merkle_inv t \<Longrightarrow> merkle_inv (merkle_step p t)"
  by (cases p) (auto simp: apply_delta_inv get_root_hash_exact merkle_exact_inv leaves_length)

lemma merkle_run_inv: "merkle_inv t \<Longrightarrow> merkle_inv (merkle_run ops t)"
  unfolding merkle_run_def by (induction ops arbitrary: t) (auto intro: merkle_step_inv)

lemma leaves_merkle_step:
  "merkle_inv t \<Longrightarrow> leaves (merkle_step p t) ! b = (leaves t ! b) XOR xor_sum (op_deltas [p] b)"
  by (cases p) (auto simp: mt.leaf_delta op_deltas_def get_root_hash_exact merkle_exact_def)

lemma leaves_merkle_run:
  "merkle_inv t \<Longrightarrow> leaves (merkle_run ops t) ! b = (leaves t ! b) XOR xor_sum (op_deltas ops b)"
proof (induction ops arbitrary: t)
  case (Cons p ops)
  have "op_deltas (p # ops) b = op_deltas [p] b @ op_deltas ops b" by (simp add: op_deltas_def)
  with Cons merkle_step_inv [OF Cons.prems] leaves_merkle_step [OF Cons.prems] show ?case
    by (simp add: merkle_run_def xor_ac)
qed (simp add: merkle_run_def op_deltas_def)

lemma leaves_run_init:
  "leaves (merkle_run ops merkle_init) = map (\<lambda>b. xor_sum (op_deltas ops b)) [0..<65536]"
proof (rule nth_equalityI)
  have "length (leaves (merkle_run ops merkle_init)) = 65536"
    using merkle_run_inv [OF merkle_init_inv] by (simp add: merkle_inv_def)
  then show "length (leaves (merkle_run ops merkle_init)) =
      length (map (\<lambda>b. xor_sum (op_deltas ops b)) [0..<65536])" by simp
  fix i assume "i < length (leaves (merkle_run ops merkle_init))"
  with \<open>length (leaves (merkle_run ops merkle_init)) = 65536\<close>
  show "leaves (merkle_run ops merkle_init) ! i = map (\<lambda>b. xor_sum (op_deltas ops b)) [0..<65536] ! i"
    using leaves_merkle_run [OF merkle_init_inv, of ops i] by (simp add: merkle_init_def Let_def)
qed

section \<open>Properties\<close>

text \<open>C9: lazy equals eager. Whatever sequence of writes and root queries the tree has seen,
  \<^verbatim>\<open>get_root_hash()\<close> returns the root of the tree recomputed from scratch over the current leaves,
  where each leaf is the exclusive or of all deltas of its bucket; the query leaves every inner
  node exact and nothing dirty.\<close>

theorem root_hash_is_reference:
  "get_root_hash (merkle_run ops merkle_init) =
     (ref_root (map (\<lambda>b. xor_sum (op_deltas ops b)) [0..<65536]),
      merkle_exact (map (\<lambda>b. xor_sum (op_deltas ops b)) [0..<65536]))"
  using get_root_hash_exact [OF merkle_run_inv [OF merkle_init_inv]]
  by (simp add: leaves_run_init)

text \<open>After a root query the node hashes served to a peer are those of the reference tree at
  every level, for every index inside the level.\<close>

theorem node_hash_after_root:
  assumes "merkle_inv t"
  shows "get_node_hash (snd (get_root_hash t)) 1 i = (if i < 16 then Some (ref_l1 (leaves t) ! i) else None) \<and>
    get_node_hash (snd (get_root_hash t)) 2 i = (if i < 256 then Some (ref_l2 (leaves t) ! i) else None) \<and>
    get_node_hash (snd (get_root_hash t)) 3 i = (if i < 4096 then Some (ref_l3 (leaves t) ! i) else None) \<and>
    get_node_hash (snd (get_root_hash t)) 4 i = (if i < 65536 then Some (leaves t ! i) else None)"
  using assms
  by (simp add: get_root_hash_exact get_node_hash_def vec_at_def merkle_exact_def
      ref_l1_def ref_l2_def ref_l3_def merkle_inv_def)

theorem node_hash_after_root_witness:
  "get_node_hash (snd (get_root_hash merkle_init)) 1 15 = (if (15::nat) < 16 then Some (ref_l1 (leaves merkle_init) ! 15) else None) \<and>
   get_node_hash (snd (get_root_hash merkle_init)) 2 15 = (if (15::nat) < 256 then Some (ref_l2 (leaves merkle_init) ! 15) else None) \<and>
   get_node_hash (snd (get_root_hash merkle_init)) 3 15 = (if (15::nat) < 4096 then Some (ref_l3 (leaves merkle_init) ! 15) else None) \<and>
   get_node_hash (snd (get_root_hash merkle_init)) 4 15 = (if (15::nat) < 65536 then Some (leaves merkle_init ! 15) else None)"
  by (rule node_hash_after_root [OF merkle_init_inv])

end
