(* ===== verification/Wal_Storage.thy ===== *)
theory Wal_Storage
  imports L3_Prelude
begin

text \<open>
  \<^verbatim>\<open>engine/wal_storage.hpp\<close>: the positioned read and write operations that the log hands to
  \<^verbatim>\<open>libconveyor\<close>. The Windows calls behind them are parameters. Also here: the interface the log
  needs of a byte source it reads from start to end, with its interpretation on positioned reads.
\<close>

section \<open>Positioned reads, writes and seeks\<close>

text \<open>Outcome of \<^verbatim>\<open>ReadFile\<close>: the bytes read, or failure with the flag "error is end of file".\<close>

datatype win_read = ReadOk bytes | ReadFailed bool

text \<open>The 64-bit offset is split over the two \<^verbatim>\<open>DWORD\<close> fields of \<^verbatim>\<open>OVERLAPPED\<close>.\<close>

definition overlapped :: "u64 \<Rightarrow> u32 \<times> u32" where
  "overlapped offset = (ucast offset, ucast (drop_bit 32 offset))"

definition pread_impl :: "('h \<Rightarrow> u32 \<Rightarrow> u32 \<times> u32 \<Rightarrow> win_read) \<Rightarrow> 'h \<Rightarrow> nat \<Rightarrow> u64 \<Rightarrow> int \<times> bytes" where
  "pread_impl ReadFile handle n offset =
     (case ReadFile handle (word_of_nat n) (overlapped offset) of
        ReadOk bs \<Rightarrow> (int (length bs), bs)
      | ReadFailed eof \<Rightarrow> (if eof then 0 else -1, []))"

definition pwrite_impl :: "('h \<Rightarrow> bytes \<Rightarrow> u32 \<times> u32 \<Rightarrow> (nat \<times> 'h) option) \<Rightarrow> 'h \<Rightarrow> bytes \<Rightarrow> u64 \<Rightarrow> int \<times> 'h" where
  "pwrite_impl WriteFile handle buf offset =
     (case WriteFile handle (take (unat (word_of_nat (length buf) :: u32)) buf) (overlapped offset) of
        None \<Rightarrow> (-1, handle)
      | Some (written, handle') \<Rightarrow> (int written, handle'))"

datatype seek_method = FILE_BEGIN | FILE_CURRENT | FILE_END

text \<open>\<^verbatim>\<open>SEEK_SET\<close>, \<^verbatim>\<open>SEEK_CUR\<close> and \<^verbatim>\<open>SEEK_END\<close> are 0, 1 and 2.\<close>

definition lseek_impl :: "('h \<Rightarrow> int \<Rightarrow> seek_method \<Rightarrow> (int \<times> 'h) option) \<Rightarrow> 'h \<Rightarrow> int \<Rightarrow> int \<Rightarrow> int \<times> 'h" where
  "lseek_impl SetFilePointerEx handle offset whence =
     (case (if whence = 0 then Some FILE_BEGIN
            else if whence = 1 then Some FILE_CURRENT
            else if whence = 2 then Some FILE_END
            else None) of
        None \<Rightarrow> (-1, handle)
      | Some method \<Rightarrow>
          (case SetFilePointerEx handle offset method of
             None \<Rightarrow> (-1, handle)
           | Some (newPos, handle') \<Rightarrow> (newPos, handle')))"

lemma overlapped_recombine:
  "unat (fst (overlapped x)) + 2 ^ 32 * unat (snd (overlapped x)) = unat x"
proof -
  have "unat x < 2 ^ 64" using unsigned_less [of x, where ?'a = nat] by simp
  then have "unat x div 2 ^ 32 < 2 ^ 32" by (simp add: div_less_iff_less_mult)
  then show ?thesis
    by (simp add: overlapped_def unsigned_ucast_eq unsigned_drop_bit_eq take_bit_eq_mod
        drop_bit_eq_div unat_div)
qed

section \<open>Reading a file from start to end\<close>

text \<open>
  A sequential reader returns the next bytes and moves past them; at the end of the data it
  returns what is left. The length of one read of the log always fits 32 bits.
\<close>

locale sequential_reader =
  fixes rd :: "'r \<Rightarrow> nat \<Rightarrow> bytes option \<times> 'r"
    and rest :: "'r \<Rightarrow> bytes"
    and ok :: "'r \<Rightarrow> bool"
  assumes rd_bytes: "ok r \<Longrightarrow> n < 4294967296 \<Longrightarrow> fst (rd r n) = Some (take n (rest r))"
    and rd_rest: "ok r \<Longrightarrow> n < 4294967296 \<Longrightarrow> rest (snd (rd r n)) = drop n (rest r)"
    and rd_ok: "ok r \<Longrightarrow> n < 4294967296 \<Longrightarrow> ok (snd (rd r n))"

text \<open>
  A reader that keeps a running offset and reads through \<^verbatim>\<open>pread_impl\<close>. \<open>read_file\<close> is what
  \<^verbatim>\<open>ReadFile\<close> does on a plain file: at or past the end it fails with end-of-file.
\<close>

definition read_file :: "bytes \<Rightarrow> u32 \<Rightarrow> u32 \<times> u32 \<Rightarrow> win_read" where
  "read_file f n ov =
     (let off = unat (fst ov) + 2 ^ 32 * unat (snd ov)
      in if length f \<le> off then ReadFailed True else ReadOk (take (unat n) (drop off f)))"

definition storage_read :: "bytes \<times> nat \<Rightarrow> nat \<Rightarrow> bytes option \<times> bytes \<times> nat" where
  "storage_read r n =
     (case r of (f, off) \<Rightarrow>
        let (res, bs) = pread_impl read_file f n (word_of_nat off)
        in if res < 0 then (None, f, off) else (Some bs, f, off + length bs))"

definition storage_rest :: "bytes \<times> nat \<Rightarrow> bytes" where
  "storage_rest r = drop (snd r) (fst r)"

definition storage_ok :: "bytes \<times> nat \<Rightarrow> bool" where
  "storage_ok r \<longleftrightarrow> snd r \<le> length (fst r) \<and> length (fst r) < 2 ^ 64"

lemma storage_read_eq:
  assumes "storage_ok (f, off)" "n < 4294967296"
  shows "storage_read (f, off) n = (Some (take n (drop off f)), f, off + min n (length f - off))"
proof -
  have "off < 2 ^ 64" using assms(1) by (simp add: storage_ok_def)
  then have "unat (word_of_nat off :: u64) = off" by (simp add: unat_of_nat)
  then have "read_file f (word_of_nat n) (overlapped (word_of_nat off)) =
      (if length f \<le> off then ReadFailed True else ReadOk (take n (drop off f)))"
    using overlapped_recombine [of "word_of_nat off"] assms(2)
    by (simp add: read_file_def Let_def)
  then show ?thesis by (simp add: storage_read_def pread_impl_def min.commute)
qed

interpretation storage: sequential_reader storage_read storage_rest storage_ok
proof
  fix r :: "bytes \<times> nat" and n :: nat
  assume a: "storage_ok r" "n < 4294967296"
  obtain f off where r: "r = (f, off)" by force
  note eq = storage_read_eq [OF a(1) [unfolded r] a(2)]
  show "fst (storage_read r n) = Some (take n (storage_rest r))"
    by (simp add: r eq storage_rest_def)
  show "storage_rest (snd (storage_read r n)) = drop n (storage_rest r)"
    by (cases "n \<le> length f - off") (simp_all add: r eq storage_rest_def add.commute)
  show "storage_ok (snd (storage_read r n))"
    using a(1) by (simp add: r eq storage_ok_def) linarith
qed

end
