(* ===== verification/Wal.thy ===== *)
theory Wal
  imports Wal_Storage
begin

text \<open>
  \<^verbatim>\<open>engine/wal.hpp\<close>: the record format of the write-ahead log, appending of single operations and
  of batches, and the recovery loop. The reader (a \<^verbatim>\<open>libconveyor\<close> object in the code) is a
  parameter \<open>rd\<close>: given its state and a length it returns the bytes read, or \<open>None\<close> for a
  read error. The recovery callback is called in file order and its own exceptions are caught by
  the caller, so the model returns the list of calls.
\<close>

section \<open>Operations and the checksum\<close>

datatype WalOp = PUT | PATCH_I64 | DELETE_OP | BATCH | PATCH_STR

fun wal_code :: "WalOp \<Rightarrow> byte" where
  "wal_code PUT = 1"
| "wal_code PATCH_I64 = 2"
| "wal_code DELETE_OP = 3"
| "wal_code BATCH = 4"
| "wal_code PATCH_STR = 5"

record BatchOp =
  bop :: WalOp
  bkey :: bytes
  bvalue :: bytes

text \<open>One call of the recovery callback: the operation byte, the key and the payload.\<close>

type_synonym wal_call = "byte \<times> bytes \<times> bytes"

definition crc_bit :: "u32 \<Rightarrow> u32" where
  "crc_bit crc = drop_bit 1 crc XOR (0xEDB88320 AND (- (crc AND 1)))"

definition crc_byte :: "byte \<Rightarrow> u32 \<Rightarrow> u32" where
  "crc_byte b crc = (crc_bit ^^ 8) (crc XOR ucast b)"

definition compute_crc :: "byte \<Rightarrow> bytes \<Rightarrow> bytes \<Rightarrow> u32" where
  "compute_crc op key payload =
     NOT (fold crc_byte payload (fold crc_byte key (crc_byte op 0xFFFFFFFF)))"

section \<open>Records\<close>

record LogHeader =
  h_crc :: u32
  h_op :: byte
  h_key_len :: u16
  h_payload_len :: u32

text \<open>The packed header: eleven bytes, little-endian.\<close>

definition header_bytes :: "LogHeader \<Rightarrow> bytes" where
  "header_bytes h = put32 (h_crc h) @ [h_op h] @ put16 (h_key_len h) @ put32 (h_payload_len h)"

definition header_of :: "bytes \<Rightarrow> LogHeader" where
  "header_of bs = \<lparr>h_crc = get32 bs, h_op = bs ! 4, h_key_len = get16 (drop 5 bs),
     h_payload_len = get32 (drop 7 bs)\<rparr>"

text \<open>The bytes \<^verbatim>\<open>append\<close> writes; the lengths are cast to 16 and 32 bits, the data is not cut.\<close>

definition record_bytes :: "WalOp \<Rightarrow> bytes \<Rightarrow> bytes \<Rightarrow> bytes" where
  "record_bytes op key payload =
     header_bytes \<lparr>h_crc = compute_crc (wal_code op) key payload, h_op = wal_code op,
       h_key_len = word_of_nat (length key), h_payload_len = word_of_nat (length payload)\<rparr>
     @ key @ payload"

definition wal_append :: "('w \<Rightarrow> bytes \<Rightarrow> bool \<times> 'w) \<Rightarrow> WalOp \<Rightarrow> bytes \<Rightarrow> bytes \<Rightarrow> 'w \<Rightarrow> 'w" where
  "wal_append write op key payload w = snd (write w (record_bytes op key payload))"

definition batch_op_bytes :: "BatchOp \<Rightarrow> bytes" where
  "batch_op_bytes x =
     [wal_code (bop x)] @ put16 (word_of_nat (length (bkey x))) @ bkey x
     @ put32 (word_of_nat (length (bvalue x))) @ bvalue x"

definition batch_bytes :: "BatchOp list \<Rightarrow> bytes" where
  "batch_bytes ops = put32 (word_of_nat (length ops)) @ concat (map batch_op_bytes ops)"

definition wal_append_batch :: "('w \<Rightarrow> bytes \<Rightarrow> bool \<times> 'w) \<Rightarrow> BatchOp list \<Rightarrow> 'w \<Rightarrow> 'w" where
  "wal_append_batch write ops w = wal_append write BATCH [] (batch_bytes ops) w"

section \<open>Recovery\<close>

text \<open>The \<^verbatim>\<open>for\<close> loop over a batch payload; each guard is a \<^verbatim>\<open>break\<close>.\<close>

fun batch_calls :: "nat \<Rightarrow> bytes \<Rightarrow> wal_call list" where
  "batch_calls 0 p = []"
| "batch_calls (Suc n) p =
     (if length p < 1 then []
      else let op_byte = p ! 0; p1 = drop 1 p in
        if length p1 < 2 then []
        else let klen = unat (get16 p1); p2 = drop 2 p1 in
          if length p2 < klen then []
          else let k = take klen p2; p3 = drop klen p2 in
            if length p3 < 4 then []
            else let vlen = unat (get32 p3); p4 = drop 4 p3 in
              if length p4 < vlen then []
              else (op_byte, k, take vlen p4) # batch_calls n (drop vlen p4))"

definition record_calls :: "byte \<Rightarrow> bytes \<Rightarrow> bytes \<Rightarrow> wal_call list" where
  "record_calls op key payload =
     (if op = wal_code BATCH then
        (if length payload < 4 then []
         else batch_calls (unat (get32 payload)) (drop 4 payload))
      else [(op, key, payload)])"

text \<open>\<^verbatim>\<open>Buffered::read\<close>: all the bytes asked for, or failure.\<close>

definition read_exact :: "('r \<Rightarrow> nat \<Rightarrow> bytes option \<times> 'r) \<Rightarrow> 'r \<Rightarrow> nat \<Rightarrow> bytes option \<times> 'r" where
  "read_exact rd r n =
     (case rd r n of
        (None, r') \<Rightarrow> (None, r')
      | (Some bs, r') \<Rightarrow> (if length bs = n then Some bs else None, r'))"

definition read_field :: "('r \<Rightarrow> nat \<Rightarrow> bytes option \<times> 'r) \<Rightarrow> 'r \<Rightarrow> nat \<Rightarrow> bytes option \<times> 'r" where
  "read_field rd r n = (if n > 0 then read_exact rd r n else (Some [], r))"

text \<open>A stored checksum of zero is let through ("legacy").\<close>

definition crc_accepts :: "u32 \<Rightarrow> u32 \<Rightarrow> bool" where
  "crc_accepts stored computed \<longleftrightarrow> computed = stored \<or> stored = 0 \<and> computed \<noteq> 0"

text \<open>One round of \<^verbatim>\<open>while (true)\<close>; \<open>None\<close> is a \<^verbatim>\<open>break\<close>.\<close>

definition recover_round :: "('r \<Rightarrow> nat \<Rightarrow> bytes option \<times> 'r) \<Rightarrow> 'r \<Rightarrow> (wal_call list \<times> 'r) option" where
  "recover_round rd r =
     (case read_exact rd r 11 of
        (None, _) \<Rightarrow> None
      | (Some hb, r1) \<Rightarrow>
          (let h = header_of hb in
           case read_field rd r1 (unat (h_key_len h)) of
             (None, _) \<Rightarrow> None
           | (Some key, r2) \<Rightarrow>
               (case read_field rd r2 (unat (h_payload_len h)) of
                  (None, _) \<Rightarrow> None
                | (Some payload, r3) \<Rightarrow>
                    (if crc_accepts (h_crc h) (compute_crc (h_op h) key payload)
                     then Some (record_calls (h_op h) key payload, r3)
                     else None))))"

text \<open>The loop with fuel: \<open>None\<close> means the fuel ran out.\<close>

fun recover_loop :: "nat \<Rightarrow> ('r \<Rightarrow> nat \<Rightarrow> bytes option \<times> 'r) \<Rightarrow> 'r \<Rightarrow> wal_call list option" where
  "recover_loop 0 rd r = None"
| "recover_loop (Suc fuel) rd r =
     (case recover_round rd r of
        None \<Rightarrow> Some []
      | Some (cs, r') \<Rightarrow> map_option (append cs) (recover_loop fuel rd r'))"

text \<open>An empty file is a cold start: nothing is read.\<close>

definition wal_recover :: "('r \<Rightarrow> nat \<Rightarrow> bytes option \<times> 'r) \<Rightarrow> nat \<Rightarrow> 'r \<Rightarrow> wal_call list option" where
  "wal_recover rd fileSize r = (if fileSize > 0 then recover_loop (Suc fileSize) rd r else Some [])"

section \<open>Reference: recovery as a scan of the file contents\<close>

definition next_record :: "bytes \<Rightarrow> (wal_call list \<times> bytes) option" where
  "next_record bs =
     (let h = header_of bs; klen = unat (h_key_len h); plen = unat (h_payload_len h);
          key = take klen (drop 11 bs); payload = take plen (drop (11 + klen) bs)
      in if length bs < 11 + klen + plen \<or> length bs < 11 then None
         else if crc_accepts (h_crc h) (compute_crc (h_op h) key payload)
         then Some (record_calls (h_op h) key payload, drop (11 + klen + plen) bs)
         else None)"

lemma next_record_shorter: "next_record bs = Some (cs, bs') \<Longrightarrow> length bs' < length bs"
  by (auto simp: next_record_def Let_def split: if_splits)

function scan :: "bytes \<Rightarrow> wal_call list" where
  "scan bs = (case next_record bs of None \<Rightarrow> [] | Some (cs, bs') \<Rightarrow> cs @ scan bs')"
  by pat_completeness auto
termination
  by (relation "measure length") (auto dest: next_record_shorter)

declare scan.simps [simp del]

lemma header_of_bytes [simp]: "header_of (header_bytes h @ bs) = h"
  by (simp add: header_of_def header_bytes_def nth_append)

lemma header_of_prefix: "11 \<le> length bs \<Longrightarrow> header_of (take 11 bs) = header_of bs"
  by (simp add: header_of_def get32_def get16_def drop_take min_def)

lemma length_header [simp, layout]: "length (header_bytes h) = 11"
  by (simp add: header_bytes_def)

text \<open>Reads of the log never ask for 4 GiB or more.\<close>

lemma field_len16: "unat (w :: u16) < 4294967296"
  using unsigned_less [of w, where ?'a = nat] by simp

context sequential_reader
begin

lemma read_exact_eq:
  assumes "ok r" "n < 4294967296"
  shows "read_exact rd r n =
    (if n \<le> length (rest r) then Some (take n (rest r)) else None, snd (rd r n))"
  using rd_bytes [OF assms] by (cases "rd r n") (auto simp: read_exact_def min_def)

lemma read_field_eq:
  assumes "ok r" "n < 4294967296"
  shows "\<exists>r'. read_field rd r n = (if n \<le> length (rest r) then Some (take n (rest r)) else None, r') \<and>
    ok r' \<and> rest r' = drop n (rest r)"
  using assms rd_rest rd_ok by (auto simp: read_field_def read_exact_eq)

lemma recover_round_scan:
  assumes "ok r"
  shows "case recover_round rd r of
      None \<Rightarrow> next_record (rest r) = None
    | Some (cs, r') \<Rightarrow> next_record (rest r) = Some (cs, rest r') \<and> ok r'"
proof (cases "11 \<le> length (rest r)")
  case False
  then show ?thesis
    using read_exact_eq [OF assms, of 11] by (simp add: recover_round_def next_record_def Let_def)
next
  case True
  define r1 where "r1 = snd (rd r 11)"
  define h where "h = header_of (rest r)"
  have h: "read_exact rd r 11 = (Some (take 11 (rest r)), r1)" "header_of (take 11 (rest r)) = h"
    "ok r1" "rest r1 = drop 11 (rest r)"
    using True assms by (simp_all add: read_exact_eq r1_def h_def header_of_prefix rd_ok rd_rest)
  obtain r2 where r2: "read_field rd r1 (unat (h_key_len h)) =
      (if unat (h_key_len h) \<le> length (rest r1) then Some (take (unat (h_key_len h)) (rest r1)) else None, r2)"
    "ok r2" "rest r2 = drop (unat (h_key_len h)) (rest r1)"
    using read_field_eq [OF h(3) field_len16] by blast
  obtain r3 where r3: "read_field rd r2 (unat (h_payload_len h)) =
      (if unat (h_payload_len h) \<le> length (rest r2) then Some (take (unat (h_payload_len h)) (rest r2)) else None, r3)"
    "ok r3" "rest r3 = drop (unat (h_payload_len h)) (rest r2)"
    using read_field_eq [OF r2(2) unat32_less] by blast
  have nr: "next_record (rest r) =
    (if length (rest r) < 11 + unat (h_key_len h) + unat (h_payload_len h) then None
     else if crc_accepts (h_crc h) (compute_crc (h_op h) (take (unat (h_key_len h)) (rest r1))
            (take (unat (h_payload_len h)) (rest r2)))
     then Some (record_calls (h_op h) (take (unat (h_key_len h)) (rest r1))
            (take (unat (h_payload_len h)) (rest r2)), rest r3)
     else None)"
    using True h(4) r2(3) r3(3) by (simp add: next_record_def Let_def h_def add.commute add.left_commute)
  have fits: "length (rest r) < 11 + unat (h_key_len h) + unat (h_payload_len h) \<longleftrightarrow>
      \<not> (unat (h_key_len h) \<le> length (rest r1) \<and> unat (h_payload_len h) \<le> length (rest r2))"
    using True h(4) r2(3) by auto
  show ?thesis
    unfolding nr fits recover_round_def h(1) using h(2) r2(1) r3(1,2) by (simp add: Let_def)
qed

lemma recover_loop_scan:
  "ok r \<Longrightarrow> length (rest r) < fuel \<Longrightarrow> recover_loop fuel rd r = Some (scan (rest r))"
proof (induction fuel arbitrary: r)
  case (Suc fuel)
  show ?case
  proof (cases "recover_round rd r")
    case None
    then show ?thesis
      using recover_round_scan [OF Suc.prems(1)] by (simp add: scan.simps)
  next
    case (Some p)
    obtain cs r' where p: "p = (cs, r')" by force
    then have nr: "next_record (rest r) = Some (cs, rest r')" "ok r'"
      using recover_round_scan [OF Suc.prems(1)] Some by simp_all
    then have "length (rest r') < fuel"
      using next_record_shorter [OF nr(1)] Suc.prems(2) by simp
    from Suc.IH [OF nr(2) this] show ?thesis
      using Some p nr(1) by (subst scan.simps) simp
  qed
qed simp

lemma wal_recover_scan:
  assumes "ok r"
  shows "wal_recover rd (length (rest r)) r = Some (scan (rest r))"
proof (cases "rest r")
  case Nil
  then show ?thesis by (simp add: wal_recover_def scan.simps next_record_def Let_def)
next
  case (Cons b bs)
  then show ?thesis using recover_loop_scan [OF assms, of "Suc (length (rest r))"]
    by (simp add: wal_recover_def del: recover_loop.simps)
qed

end

section \<open>Scanning what was appended\<close>

definition fits_batch :: "BatchOp list \<Rightarrow> bool" where
  "fits_batch ops \<longleftrightarrow>
     (\<forall>x \<in> set ops. length (bkey x) < 65536 \<and> length (bvalue x) < 4294967296) \<and>
     length (batch_bytes ops) < 4294967296"

definition op_call :: "BatchOp \<Rightarrow> wal_call" where
  "op_call x = (wal_code (bop x), bkey x, bvalue x)"

definition batch_record :: "BatchOp list \<Rightarrow> bytes" where
  "batch_record ops = record_bytes BATCH [] (batch_bytes ops)"

lemma length_record [simp, layout]:
  "length (record_bytes op key payload) = 11 + length key + length payload"
  by (simp add: record_bytes_def)

lemma batch_calls_encode:
  assumes "length (bkey x) < 65536" "length (bvalue x) < 4294967296"
  shows "batch_calls (Suc n) (batch_op_bytes x @ p) = op_call x # batch_calls n p"
  using assms by (simp add: batch_op_bytes_def op_call_def Let_def)

lemma batch_calls_all:
  "\<forall>x \<in> set ops. length (bkey x) < 65536 \<and> length (bvalue x) < 4294967296 \<Longrightarrow>
   batch_calls (length ops) (concat (map batch_op_bytes ops)) = map op_call ops"
  by (induction ops) (auto simp: batch_calls_encode simp del: batch_calls.simps(2))

lemma length_batch_ops: "length ops \<le> length (concat (map batch_op_bytes ops))"
  by (induction ops) (auto simp: batch_op_bytes_def)

lemma record_calls_batch:
  assumes "fits_batch ops"
  shows "record_calls (wal_code BATCH) key (batch_bytes ops) = map op_call ops"
proof -
  have "length ops < 4294967296"
    using assms length_batch_ops [of ops] by (auto simp: fits_batch_def batch_bytes_def)
  then show ?thesis
    using assms batch_calls_all [of ops]
    by (simp add: record_calls_def batch_bytes_def fits_batch_def)
qed

lemma next_record_append:
  assumes "length key < 65536" "length payload < 4294967296"
  shows "next_record (record_bytes op key payload @ bs) =
    Some (record_calls (wal_code op) key payload, bs)"
  using assms by (simp add: next_record_def record_bytes_def Let_def crc_accepts_def)

text \<open>A record cut anywhere stops the scan: the header says how long the record should be.\<close>

lemma next_record_torn:
  assumes "length key < 65536" "length payload < 4294967296"
    and "n < 11 + length key + length payload"
  shows "next_record (take n (record_bytes op key payload)) = None"
proof (cases "n < 11")
  case True
  then show ?thesis by (simp add: next_record_def Let_def)
next
  case False
  let ?r = "record_bytes op key payload"
  have h: "header_of (take n ?r) = header_of ?r"
    using header_of_prefix [of "take n ?r"] header_of_prefix [of ?r] False assms(3)
    by (simp add: min_def)
  have "unat (h_key_len (header_of ?r)) = length key"
    "unat (h_payload_len (header_of ?r)) = length payload"
    using assms(1,2) by (simp_all add: record_bytes_def)
  moreover have "length (take n ?r) = n" using assms(3) by simp
  ultimately show ?thesis
    unfolding next_record_def Let_def h using assms(3) by simp
qed

section \<open>What a scan of a log file returns\<close>

definition log_bytes :: "BatchOp list list \<Rightarrow> bytes" where
  "log_bytes bs = concat (map batch_record bs)"

definition log_calls :: "BatchOp list list \<Rightarrow> wal_call list" where
  "log_calls bs = concat (map (map op_call) bs)"

text \<open>The batches that lie completely within the first \<open>n\<close> bytes.\<close>

fun complete_prefix :: "nat \<Rightarrow> BatchOp list list \<Rightarrow> BatchOp list list" where
  "complete_prefix n [] = []"
| "complete_prefix n (b # bs) =
     (if length (batch_record b) \<le> n
      then b # complete_prefix (n - length (batch_record b)) bs else [])"

lemma next_batch_record:
  "fits_batch b \<Longrightarrow> next_record (batch_record b @ bs) = Some (map op_call b, bs)"
  using record_calls_batch [of b "[]"] next_record_append [of "[]" "batch_bytes b" BATCH bs]
  by (simp add: batch_record_def fits_batch_def)

lemma next_torn_batch:
  "fits_batch b \<Longrightarrow> n < length (batch_record b) \<Longrightarrow> next_record (take n (batch_record b)) = None"
  by (simp add: batch_record_def fits_batch_def next_record_torn)

lemma scan_batch: "fits_batch b \<Longrightarrow> scan (batch_record b @ bs) = map op_call b @ scan bs"
  by (subst scan.simps) (simp add: next_batch_record)

lemma scan_log:
  "\<forall>b \<in> set bs. fits_batch b \<Longrightarrow> scan (log_bytes bs @ tail) = log_calls bs @ scan tail"
  by (induction bs) (simp_all add: log_bytes_def log_calls_def scan_batch)

lemma scan_stop: "next_record bs = None \<Longrightarrow> scan bs = []"
  by (subst scan.simps) simp

lemma scan_cut_log:
  "\<forall>b \<in> set bs. fits_batch b \<Longrightarrow>
   scan (take n (log_bytes bs)) = log_calls (complete_prefix n bs)"
proof (induction bs arbitrary: n)
  case Nil
  then show ?case by (simp add: log_bytes_def log_calls_def scan_stop next_record_def Let_def)
next
  case (Cons b bs)
  have eq: "log_bytes (b # bs) = batch_record b @ log_bytes bs" by (simp add: log_bytes_def)
  show ?case
  proof (cases "length (batch_record b) \<le> n")
    case True
    with Cons show ?thesis by (simp add: eq scan_batch log_calls_def)
  next
    case False
    with Cons.prems show ?thesis
      by (simp add: eq log_calls_def scan_stop next_torn_batch)
  qed
qed

section \<open>The checksum sees every change of one byte\<close>

lemma crc_bit_alt: "crc_bit a = drop_bit 1 a XOR (if odd a then 0xEDB88320 else 0)"
  unfolding crc_bit_def and_one_eq
  by (cases "even a") (simp_all add: even_iff_mod_2_eq_zero odd_iff_mod_2_eq_one)

lemma crc_odd: "odd a \<Longrightarrow> crc_bit a = drop_bit 1 a XOR 0xEDB88320"
  by (simp add: crc_bit_alt)

lemma crc_even: "even a \<Longrightarrow> crc_bit a = drop_bit 1 a"
  by (simp add: crc_bit_alt)

lemma crc_byte_unroll:
  "crc_byte b c = crc_bit (crc_bit (crc_bit (crc_bit (crc_bit (crc_bit (crc_bit (crc_bit (c XOR ucast b))))))))"
  by (simp add: crc_byte_def eval_nat_numeral)

lemmas crc_eval = crc_byte_unroll crc_odd crc_even

lemma half_eq: "drop_bit 1 a = drop_bit 1 b \<Longrightarrow> odd a = odd b \<Longrightarrow> a = (b :: u32)"
  by (metis drop_bit_Suc One_nat_def drop_bit_0 id_apply bit_eq_rec)

lemma top_bit_shifted: "\<not> bit (drop_bit 1 (a :: u32)) 31"
  using bit_imp_le_length [of a 32] by (auto simp: bit_drop_bit_eq)

text \<open>The polynomial has its top bit set, so the bit shifted out can be read off the result.\<close>

lemma crc_bit_top: "bit (crc_bit a) 31 \<longleftrightarrow> odd a"
  using top_bit_shifted [of a] by (simp add: crc_bit_alt bit_xor_iff)

lemma xor_right_inj: "(a :: u32) XOR x = b XOR x \<longleftrightarrow> a = b"
  by (metis xor.assoc xor.right_neutral xor_self_eq)

lemma xor_left_inj: "(x :: u32) XOR a = x XOR b \<longleftrightarrow> a = b"
  by (simp add: xor.commute [of x] xor_right_inj)

lemma inj_crc_bit: "inj crc_bit"
proof (rule injI)
  fix a b assume eq: "crc_bit a = crc_bit b"
  then have odd: "odd a \<longleftrightarrow> odd b" using crc_bit_top [of a] crc_bit_top [of b] by (simp only:)
  have "crc_bit b = drop_bit 1 b XOR (if odd a then 0xEDB88320 else 0)"
    unfolding odd by (rule crc_bit_alt)
  from eq [unfolded crc_bit_alt [of a] this] have "drop_bit 1 a = drop_bit 1 b"
    by (rule xor_right_inj [THEN iffD1])
  then show "a = b" using odd by (rule half_eq)
qed

lemma ucast_byte_inj: "(ucast (a :: byte) :: u32) = ucast b \<longleftrightarrow> a = b"
proof
  assume "(ucast a :: u32) = ucast b"
  then have "unat (ucast a :: u32) = unat (ucast b :: u32)" by simp
  then show "a = b"
    using unsigned_less [of a, where ?'a = nat] unsigned_less [of b, where ?'a = nat]
    by (simp add: unsigned_ucast_eq word_unat_eq_iff take_bit_eq_mod)
qed simp

lemma crc_byte_inj: "crc_byte b s = crc_byte b s' \<longleftrightarrow> s = s'"
  using inj_fn [OF inj_crc_bit, of 8] by (auto simp: crc_byte_def inj_eq xor_right_inj)

lemma crc_byte_inj_byte: "crc_byte b s = crc_byte b' s \<longleftrightarrow> b = b'"
  using inj_fn [OF inj_crc_bit, of 8]
  by (auto simp: crc_byte_def inj_eq xor_left_inj ucast_byte_inj)

lemma fold_crc_inj: "fold crc_byte bs s = fold crc_byte bs s' \<longleftrightarrow> s = s'"
  by (induction bs arbitrary: s s') (auto simp: crc_byte_inj)

lemma fold_crc_update:
  assumes "i < length bs" "b \<noteq> bs ! i"
  shows "fold crc_byte (bs[i := b]) s \<noteq> fold crc_byte bs s"
proof -
  have "bs = take i bs @ bs ! i # drop (Suc i) bs" using assms(1) by (rule id_take_nth_drop)
  moreover have "bs[i := b] = take i bs @ b # drop (Suc i) bs"
    using assms(1) by (rule upd_conv_take_nth_drop)
  ultimately obtain xs ys where "bs = xs @ bs ! i # ys" "bs[i := b] = xs @ b # ys" by blast
  then have "fold crc_byte bs s = fold crc_byte ys (crc_byte (bs ! i) (fold crc_byte xs s))"
    "fold crc_byte (bs[i := b]) s = fold crc_byte ys (crc_byte b (fold crc_byte xs s))"
    by (metis fold_append fold_simps(2) o_apply)+
  then show ?thesis using assms(2) by (simp add: fold_crc_inj crc_byte_inj_byte)
qed

lemma compute_crc_body:
  "compute_crc op key payload = NOT (fold crc_byte (key @ payload) (crc_byte op 0xFFFFFFFF))"
  by (simp add: compute_crc_def)

text \<open>A record with one byte of its key or payload changed is refused.\<close>

lemma next_record_damaged:
  assumes fits: "length key < 65536" "length payload < 4294967296"
    and crc: "compute_crc (wal_code op) key payload \<noteq> 0"
    and i: "i < length (key @ payload)" "b \<noteq> (key @ payload) ! i"
  shows "next_record ((record_bytes op key payload)[11 + i := b] @ bs) = None"
proof -
  let ?h = "\<lparr>h_crc = compute_crc (wal_code op) key payload, h_op = wal_code op,
       h_key_len = word_of_nat (length key), h_payload_len = word_of_nat (length payload)\<rparr>"
  let ?body = "(key @ payload)[i := b]"
  have rec: "(record_bytes op key payload)[11 + i := b] = header_bytes ?h @ ?body"
    unfolding record_bytes_def by (simp add: list_update_append)
  have split: "take (length key) ?body @ drop (length key) ?body = ?body" by simp
  have "compute_crc (wal_code op) (take (length key) ?body) (drop (length key) ?body) \<noteq>
      compute_crc (wal_code op) key payload"
    unfolding compute_crc_body split using fold_crc_update [OF i] by (metis bit.double_compl)
  then have "\<not> crc_accepts (compute_crc (wal_code op) key payload)
      (compute_crc (wal_code op) (take (length key) ?body) (drop (length key) ?body))"
    using crc by (simp add: crc_accepts_def)
  moreover have "take (length payload) (drop (length key) ?body) = drop (length key) ?body" by simp
  ultimately show ?thesis
    unfolding rec using fits by (simp add: next_record_def Let_def)
qed

section \<open>More facts about scans\<close>

lemma complete_prefix_all:
  "length (log_bytes bs) \<le> n \<Longrightarrow> complete_prefix n bs = bs"
  by (induction bs arbitrary: n) (auto simp: log_bytes_def)

lemma complete_prefix_take: "\<exists>k. complete_prefix n bs = take k bs"
proof (induction bs arbitrary: n)
  case (Cons b bs)
  obtain k where "complete_prefix (n - length (batch_record b)) bs = take k bs"
    using Cons by blast
  then show ?case
    by (cases "length (batch_record b) \<le> n") (auto intro: exI [of _ "Suc k"] exI [of _ 0])
qed simp

text \<open>A complete header followed by too few bytes, whatever they are.\<close>

lemma next_record_short:
  assumes "length key < 65536" "length payload < 4294967296" "11 \<le> n"
    and "n + length new < 11 + length key + length payload"
  shows "next_record (take n (record_bytes op key payload) @ new) = None"
proof -
  let ?r = "record_bytes op key payload"
  have h: "header_of (take n ?r @ new) = header_of ?r"
    using header_of_prefix [of "take n ?r @ new"] header_of_prefix [of ?r] assms(3,4)
    by (simp add: min_def)
  have "unat (h_key_len (header_of ?r)) = length key"
    "unat (h_payload_len (header_of ?r)) = length payload"
    using assms(1,2) by (simp_all add: record_bytes_def)
  then show ?thesis
    unfolding next_record_def Let_def h using assms(4) by simp
qed

lemma batch_calls_keys: "c \<in> set (batch_calls n p) \<Longrightarrow> length (fst (snd c)) < 65536"
proof (induction n p rule: batch_calls.induct)
  case (2 n p)
  have "unat (w :: u16) < 65536" for w using unsigned_less [of w, where ?'a = nat] by simp
  with 2 show ?case by (auto simp: Let_def split: if_splits intro: le_less_trans)
qed simp

lemma next_record_keys:
  assumes "next_record bs = Some (cs, bs')" "c \<in> set cs"
  shows "length (fst (snd c)) < 65536"
proof -
  have "unat (w :: u16) < 65536" for w using unsigned_less [of w, where ?'a = nat] by simp
  then show ?thesis
    using assms
    by (auto simp: next_record_def Let_def record_calls_def split: if_splits
        intro: le_less_trans dest: batch_calls_keys)
qed

lemma scan_keys: "c \<in> set (scan bs) \<Longrightarrow> length (fst (snd c)) < 65536"
proof (induction bs rule: scan.induct)
  case (1 bs)
  show ?case
  proof (cases "next_record bs")
    case None
    with "1.prems" show ?thesis by (simp add: scan_stop)
  next
    case (Some p)
    then obtain cs bs' where p: "next_record bs = Some (cs, bs')" by (cases p) auto
    then have "c \<in> set cs \<or> c \<in> set (scan bs')"
      using "1.prems" by (simp add: scan.simps [of bs])
    then show ?thesis using "1.IH" [OF p refl] next_record_keys [OF p] by blast
  qed
qed

section \<open>Properties\<close>

text \<open>C11: crash recovery. If the file holds any prefix of the bytes the log has appended (a clean
  shutdown, or a crash in the middle of a write), recovery terminates and replays exactly the
  operations of the batches that are completely in the file, in the order they were appended:
  never half a batch, never anything after the cut. The reader is any reader that returns the
  file's bytes in order, and lengths in the batches fit their fields.\<close>

theorem recover_after_crash:
  assumes "sequential_reader rd rest ok" and "ok r" and "rest r = take n (log_bytes bs)"
    and "\<forall>b \<in> set bs. fits_batch b"
  shows "wal_recover rd (length (rest r)) r = Some (log_calls (complete_prefix n bs)) \<and>
    (\<exists>k. complete_prefix n bs = take k bs) \<and>
    (length (log_bytes bs) \<le> n \<longrightarrow> complete_prefix n bs = bs)"
  using sequential_reader.wal_recover_scan [OF assms(1,2)] scan_cut_log [OF assms(4)] assms(3)
    complete_prefix_all complete_prefix_take by auto

theorem recover_after_crash_witness:
  "wal_recover storage_read 30 (take 30 (log_bytes [[\<lparr>bop = PUT, bkey = [97], bvalue = [49]\<rparr>],
       [\<lparr>bop = PUT, bkey = [98], bvalue = [50]\<rparr>]]), 0) = Some [(1, [97], [49])]"
proof -
  let ?bs = "[[\<lparr>bop = PUT, bkey = [97], bvalue = [49]\<rparr>], [\<lparr>bop = PUT, bkey = [98], bvalue = [50]\<rparr>]]"
  let ?r = "(take 30 (log_bytes ?bs), 0)"
  have len: "length (log_bytes ?bs) = 48"
    by (simp add: log_bytes_def batch_record_def batch_bytes_def batch_op_bytes_def)
  have "storage_ok ?r" "storage_rest ?r = take 30 (log_bytes ?bs)" "\<forall>b \<in> set ?bs. fits_batch b"
    using len by (simp_all add: storage_ok_def storage_rest_def fits_batch_def batch_bytes_def
        batch_op_bytes_def)
  from recover_after_crash [OF storage.sequential_reader_axioms this]
  have "wal_recover storage_read 30 ?r = Some (log_calls (complete_prefix 30 ?bs))"
    using len by (simp add: storage_rest_def)
  then show ?thesis
    by (simp add: batch_record_def batch_bytes_def batch_op_bytes_def log_calls_def op_call_def)
qed

text \<open>C30: corruption. If one byte of the body of a logged batch is changed in the file, the recovery loop
  ends, replays everything before that batch and stops there, whatever follows in the file. This
  holds for a batch whose stored checksum is not zero; zero is let through, as shown below.\<close>

theorem recover_stops_at_damage:
  assumes "sequential_reader rd rest ok" and "ok r"
    and "rest r = log_bytes bs @ (batch_record b)[11 + i := x] @ tail"
    and "\<forall>b \<in> set bs. fits_batch b" and "fits_batch b"
    and "compute_crc (wal_code BATCH) [] (batch_bytes b) \<noteq> 0"
    and "i < length (batch_bytes b)" and "x \<noteq> batch_bytes b ! i"
  shows "wal_recover rd (length (rest r)) r = Some (log_calls bs)"
proof -
  have "next_record ((batch_record b)[11 + i := x] @ tail) = None"
    unfolding batch_record_def
    using assms(5-) by (intro next_record_damaged) (auto simp: fits_batch_def)
  then have "scan (rest r) = log_calls bs" by (simp add: assms(3) scan_log [OF assms(4)] scan_stop)
  then show ?thesis using sequential_reader.wal_recover_scan [OF assms(1,2)] by simp
qed

theorem recover_stops_at_damage_witness:
  "wal_recover storage_read 33 (log_bytes [[]] @ (batch_record [])[11 + 0 := 9] @ [1, 2, 3], 0) = Some []"
proof -
  let ?f = "log_bytes [[]] @ (batch_record [])[11 + 0 := 9] @ [1, 2, 3]"
  have len: "length ?f = 33" by (simp add: log_bytes_def batch_record_def batch_bytes_def)
  have r: "storage_ok (?f, 0)" "storage_rest (?f, 0) = ?f"
    using len by (simp_all add: storage_ok_def storage_rest_def)
  have b: "\<forall>b \<in> set [[]]. fits_batch b" "fits_batch []" by (simp_all add: fits_batch_def batch_bytes_def)
  have z: "batch_bytes [] = [0, 0, 0, 0]" by code_simp
  then have c: "compute_crc (wal_code BATCH) [] (batch_bytes []) \<noteq> 0" by (simp add: compute_crc_def crc_eval)
  have "wal_recover storage_read (length (storage_rest (?f, 0))) (?f, 0) = Some (log_calls [[]])"
    by (rule recover_stops_at_damage [OF storage.sequential_reader_axioms r b c]) (simp_all add: z)
  then show ?thesis using len r(2) by (simp add: log_calls_def)
qed

text \<open>Recovery does not cut a torn record off the file, and the writer is positioned at the
  end of the file. If a crash left a torn record with its header complete, everything written
  after the restart is swallowed by that header until the missing bytes are made up: the next
  recovery replays none of it.\<close>

theorem writes_after_torn_tail_lost:
  assumes "sequential_reader rd rest ok" and "ok r"
    and "rest r = log_bytes bs @ take n (batch_record torn) @ log_bytes later"
    and "\<forall>b \<in> set bs. fits_batch b" and "fits_batch torn"
    and "11 \<le> n" and "n + length (log_bytes later) < length (batch_record torn)"
  shows "wal_recover rd (length (rest r)) r = Some (log_calls bs)"
proof -
  have "next_record (take n (batch_record torn) @ log_bytes later) = None"
    unfolding batch_record_def
    using assms(5-) by (intro next_record_short) (auto simp: fits_batch_def batch_record_def)
  then have "scan (rest r) = log_calls bs" by (simp add: assms(3) scan_log [OF assms(4)] scan_stop)
  then show ?thesis using sequential_reader.wal_recover_scan [OF assms(1,2)] by simp
qed

text \<open>A header with the stored checksum zero is accepted whatever the record contains, so
  such damage is replayed instead of being discarded.\<close>

theorem zero_crc_accepted:
  assumes "sequential_reader rd rest ok" and "ok r"
    and "rest r = header_bytes \<lparr>h_crc = 0, h_op = op, h_key_len = word_of_nat (length key),
       h_payload_len = word_of_nat (length payload)\<rparr> @ key @ payload @ bs"
    and "length key < 65536" and "length payload < 4294967296"
  shows "\<exists>r'. recover_round rd r = Some (record_calls op key payload, r') \<and> rest r' = bs"
proof -
  have "next_record (rest r) = Some (record_calls op key payload, bs)"
    using assms(3-) by (simp add: next_record_def Let_def crc_accepts_def)
  with sequential_reader.recover_round_scan [OF assms(1,2)] show ?thesis by (auto split: option.splits)
qed

text \<open>Key lengths are stored in 16 bits. No file content makes recovery replay a key of
  65536 bytes or more, so a write with such a key is never recovered although the append path
  accepts it.\<close>

theorem long_keys_not_recovered:
  assumes "sequential_reader rd rest ok" and "ok r" and "65536 \<le> length (bkey x)"
    and "wal_recover rd (length (rest r)) r = Some calls"
  shows "op_call x \<notin> set calls"
  using sequential_reader.wal_recover_scan [OF assms(1,2)] scan_keys [of "op_call x" "rest r"] assms(3,4)
  by (auto simp: op_call_def)

end
