(* ===== verification/Decimal.thy ===== *)
theory Decimal
  imports L3_Prelude
begin

text \<open>
  The text conversions of the C++ library that the store uses for its log payloads and sidecar
  records: \<^verbatim>\<open>std::to_string\<close> of an integer, \<^verbatim>\<open>std::stoll\<close>, and splitting a payload at its first colon
  (\<^verbatim>\<open>find(':')\<close> with two \<^verbatim>\<open>substr\<close> calls).
\<close>

section \<open>std::to_string\<close>

fun dec_digits :: "nat \<Rightarrow> bytes" where
  "dec_digits n =
     (if n < 10 then [word_of_nat (48 + n)]
      else dec_digits (n div 10) @ [word_of_nat (48 + n mod 10)])"

declare dec_digits.simps [simp del]

definition to_string :: "int \<Rightarrow> bytes" where
  "to_string v = (if v < 0 then 45 # dec_digits (nat (- v)) else dec_digits (nat v))"

section \<open>std::stoll\<close>

datatype stoll_error = Invalid_argument | Out_of_range

definition is_space :: "byte \<Rightarrow> bool" where
  "is_space b \<longleftrightarrow> b = 32 \<or> 9 \<le> b \<and> b \<le> 13"

definition is_digit :: "byte \<Rightarrow> bool" where
  "is_digit b \<longleftrightarrow> 48 \<le> b \<and> b \<le> 57"

definition digits_value :: "bytes \<Rightarrow> nat" where
  "digits_value ds = foldl (\<lambda>a d. 10 * a + (unat d - 48)) 0 ds"

definition split_sign :: "bytes \<Rightarrow> bool \<times> bytes" where
  "split_sign bs =
     (case bs of
        [] \<Rightarrow> (False, [])
      | c # cs \<Rightarrow> if c = 45 then (True, cs) else if c = 43 then (False, cs) else (False, bs))"

text \<open>Leading space, an optional sign, then as many digits as there are; the rest is ignored.\<close>

definition stoll :: "bytes \<Rightarrow> stoll_error + int" where
  "stoll bs =
     (let (neg, cs) = split_sign (dropWhile is_space bs);
          ds = takeWhile is_digit cs;
          v = (if neg then - int (digits_value ds) else int (digits_value ds))
      in if ds = [] then Inl Invalid_argument
         else if v < - (2 ^ 63) \<or> v > 2 ^ 63 - 1 then Inl Out_of_range
         else Inr v)"

section \<open>Splitting at the first colon\<close>

definition split_colon :: "bytes \<Rightarrow> (bytes \<times> bytes) option" where
  "split_colon p =
     (if 58 \<in> set p
      then Some (takeWhile (\<lambda>b. b \<noteq> 58) p, tl (dropWhile (\<lambda>b. b \<noteq> 58) p))
      else None)"

section \<open>Round trips\<close>

lemma digit_word: "d < 10 \<Longrightarrow> unat (word_of_nat (48 + d) :: byte) = 48 + d"
  by (simp add: unat_of_nat del: of_nat_add)

lemma digit_is_digit: "d < 10 \<Longrightarrow> is_digit (word_of_nat (48 + d))"
  using digit_word [of d] by (simp only: is_digit_def word_le_nat_alt) simp

lemma dec_digits_all: "b \<in> set (dec_digits n) \<Longrightarrow> is_digit b"
proof (induction n rule: dec_digits.induct)
  case (1 n)
  then show ?case
    by (subst (asm) dec_digits.simps) (auto simp: digit_is_digit simp del: of_nat_add split: if_splits)
qed

lemma dec_digits_nonempty: "dec_digits n \<noteq> []"
  by (subst dec_digits.simps) simp

lemma digits_value_snoc: "digits_value (ds @ [d]) = 10 * digits_value ds + (unat d - 48)"
  by (simp add: digits_value_def)

lemma digits_value_dec: "digits_value (dec_digits n) = n"
proof (induction n rule: dec_digits.induct)
  case (1 n)
  have "unat (word_of_nat (48 + n mod 10) :: byte) = 48 + n mod 10" by (rule digit_word) simp
  with 1 show ?case
    by (subst dec_digits.simps)
       (auto simp: digits_value_snoc digits_value_def digit_word simp del: of_nat_add)
qed

lemma digit_not_special: "is_digit b \<Longrightarrow> b \<noteq> 45 \<and> b \<noteq> 43 \<and> b \<noteq> 58 \<and> \<not> is_space b"
  by (auto simp: is_digit_def is_space_def word_le_nat_alt)

lemma takeWhile_digits: "takeWhile is_digit (dec_digits n) = dec_digits n"
  by (simp add: takeWhile_eq_all_conv dec_digits_all)

lemma dec_digits_Cons: "\<exists>d ds. dec_digits n = d # ds \<and> is_digit d"
  using dec_digits_all [of _ n] dec_digits_nonempty [of n] by (cases "dec_digits n") auto

lemma split_sign_to_string:
  "split_sign (dropWhile is_space (to_string v)) = (v < 0, dec_digits (nat \<bar>v\<bar>))"
proof (cases "v < 0")
  case True
  then show ?thesis by (simp add: to_string_def split_sign_def is_space_def)
next
  case False
  obtain d ds where "dec_digits (nat v) = d # ds" "is_digit d" using dec_digits_Cons by blast
  with False show ?thesis
    using digit_not_special [of d] by (simp add: to_string_def split_sign_def)
qed

lemma stoll_to_string: "- (2 ^ 63) \<le> v \<Longrightarrow> v < 2 ^ 63 \<Longrightarrow> stoll (to_string v) = Inr v"
  by (auto simp: stoll_def split_sign_to_string takeWhile_digits digits_value_dec
        dec_digits_nonempty Let_def)

lemma to_string_no_colon: "58 \<notin> set (to_string v)"
  using dec_digits_all digit_not_special [of 58] by (auto simp: to_string_def)

lemma split_colon_join: "58 \<notin> set f \<Longrightarrow> split_colon (f @ [58] @ v) = Some (f, v)"
  by (simp add: split_colon_def takeWhile_append dropWhile_append)

lemma split_colon_bad: "58 \<in> set f \<Longrightarrow> \<exists>g w. split_colon (f @ [58] @ v) = Some (g, w) \<and> g \<noteq> f"
proof -
  assume f: "58 \<in> set f"
  have "58 \<notin> set (takeWhile (\<lambda>b. b \<noteq> 58) (f @ [58] @ v))"
    using set_takeWhileD by fastforce
  with f show ?thesis by (auto simp: split_colon_def)
qed

end
