(* ===== verification/Store.thy ===== *)
theory Store
  imports Wal Decimal Merkle "HOL-Library.AList"
begin

text \<open>
  \<^verbatim>\<open>engine/store.hpp\<close>, the state below the engine's entry points: blobs, the 64 shards, the
  \<open>apply_\<close> operations that change a blob together with the Merkle tree, and the recovery callback
  that replays one log entry.

  The document buffers of \<^verbatim>\<open>lite3cpp\<close>, the hash of \<^verbatim>\<open>std::hash\<close> and the asynchronous writer of
  the log are outside the repository: they are the fields of a record \<open>env\<close> that every operation
  takes. A field setter returns a flag (\<open>False\<close>: it threw) with the buffer it leaves behind; a
  getter returns \<open>None\<close> when it throws. \<open>buf_get_f64\<close> is \<^verbatim>\<open>get_f64\<close> cut to an integer, the
  only way its result is used.
\<close>

section \<open>What the store is given\<close>

text \<open>The value types the store asks about; every other \<^verbatim>\<open>lite3cpp::Type\<close> is \<open>OtherType\<close>.\<close>

datatype buf_type = Int64 | Float64 | Bool | OtherType

record ('b, 'w) env =
  buf_default :: 'b
  buf_object :: 'b
  buf_vec :: "bytes \<Rightarrow> 'b"
  from_json_string :: "bytes \<Rightarrow> 'b option"
  buf_set_i64 :: "'b \<Rightarrow> bytes \<Rightarrow> int \<Rightarrow> bool \<times> 'b"
  buf_set_str :: "'b \<Rightarrow> bytes \<Rightarrow> bytes \<Rightarrow> bool \<times> 'b"
  buf_data :: "'b \<Rightarrow> bytes"
  buf_get_type :: "'b \<Rightarrow> bytes \<Rightarrow> buf_type option"
  buf_get_i64 :: "'b \<Rightarrow> bytes \<Rightarrow> int option"
  buf_get_f64 :: "'b \<Rightarrow> bytes \<Rightarrow> int option"
  buf_get_bool :: "'b \<Rightarrow> bytes \<Rightarrow> bool option"
  wal_write :: "'w \<Rightarrow> bytes \<Rightarrow> bool \<times> 'w"
  std_hash :: "bytes \<Rightarrow> u64"

section \<open>Blobs\<close>

text \<open>The buffer that \<^verbatim>\<open>Blob::overwrite\<close> leaves: parsed JSON when the data looks like JSON and
  parses, the raw bytes otherwise.\<close>

definition overwrite :: "('b, 'w) env \<Rightarrow> bytes \<Rightarrow> 'b" where
  "overwrite E data =
     (let is_json = (data \<noteq> [] \<and> (hd data = 123 \<or> hd data = 91)) in
      if is_json then
        (case from_json_string E data of
           Some new_buf \<Rightarrow> new_buf
         | None \<Rightarrow> buf_vec E data)
      else buf_vec E data)"

definition set_int :: "('b, 'w) env \<Rightarrow> bytes \<Rightarrow> int \<Rightarrow> 'b \<Rightarrow> bool \<times> 'b" where
  "set_int E key val b = buf_set_i64 E b key val"

definition set_str :: "('b, 'w) env \<Rightarrow> bytes \<Rightarrow> bytes \<Rightarrow> 'b \<Rightarrow> bool \<times> 'b" where
  "set_str E key val b = buf_set_str E b key val"

definition hash_blob :: "('b, 'w) env \<Rightarrow> 'b option \<Rightarrow> u64" where
  "hash_blob E blob = (case blob of None \<Rightarrow> 0 | Some b \<Rightarrow> fnv1a_64 (buf_data E b))"

section \<open>Shards\<close>

text \<open>
  A shard's \<^verbatim>\<open>unordered_map\<close> is an association list with distinct keys; the order of its entries
  is the iteration order, about which nothing is claimed.
\<close>

record 'b store =
  shards :: "(bytes \<times> 'b) list list"
  tree :: merkle

abbreviation SHARDS :: nat where "SHARDS \<equiv> 64"

definition store_init :: "'b store" where
  "store_init = \<lparr>shards = replicate SHARDS [], tree = merkle_init\<rparr>"

definition get_shard :: "('b, 'w) env \<Rightarrow> bytes \<Rightarrow> nat" where
  "get_shard E key = unat (std_hash E key mod 64)"

definition find_blob :: "('b, 'w) env \<Rightarrow> bytes \<Rightarrow> 'b store \<Rightarrow> 'b option" where
  "find_blob E key st = map_of (shards st ! get_shard E key) key"

definition set_blob :: "('b, 'w) env \<Rightarrow> bytes \<Rightarrow> 'b \<Rightarrow> 'b store \<Rightarrow> 'b store" where
  "set_blob E key b st =
     (let i = get_shard E key in st\<lparr>shards := (shards st)[i := AList.update key b (shards st ! i)]\<rparr>)"

definition delta :: "bytes \<Rightarrow> u64 \<Rightarrow> 'b store \<Rightarrow> 'b store" where
  "delta key d st = st\<lparr>tree := apply_delta key d (tree st)\<rparr>"

section \<open>Applying one operation\<close>

definition apply_put :: "('b, 'w) env \<Rightarrow> bytes \<Rightarrow> bytes \<Rightarrow> 'b store \<Rightarrow> 'b store" where
  "apply_put E key json_body st =
     (let old_h = (case find_blob E key st of Some b \<Rightarrow> hash_blob E (Some b) | None \<Rightarrow> 0);
          b = overwrite E json_body;
          new_h = hash_blob E (Some b)
      in delta key (old_h XOR new_h) (set_blob E key b st))"

text \<open>
  The common shape of the two patches and of the deletion: an absent key first gets a fresh empty
  object, whose hash is then the "old" hash. When the edit throws, the changed blob stays and the
  tree is not told.
\<close>

definition apply_edit :: "('b, 'w) env \<Rightarrow> bytes \<Rightarrow> ('b \<Rightarrow> bool \<times> 'b) \<Rightarrow> 'b store \<Rightarrow> bool \<times> 'b store" where
  "apply_edit E key edit st =
     (let b = (case find_blob E key st of Some b \<Rightarrow> b | None \<Rightarrow> buf_object E);
          old_h = hash_blob E (Some b);
          (ok, b') = edit b;
          st' = set_blob E key b' st
      in if ok then (True, delta key (old_h XOR hash_blob E (Some b')) st') else (False, st'))"

definition apply_patch_int :: "('b, 'w) env \<Rightarrow> bytes \<Rightarrow> bytes \<Rightarrow> int \<Rightarrow> 'b store \<Rightarrow> bool \<times> 'b store" where
  "apply_patch_int E key field val = apply_edit E key (set_int E field val)"

definition apply_patch_str :: "('b, 'w) env \<Rightarrow> bytes \<Rightarrow> bytes \<Rightarrow> bytes \<Rightarrow> 'b store \<Rightarrow> bool \<times> 'b store" where
  "apply_patch_str E key field val = apply_edit E key (set_str E field val)"

definition apply_del :: "('b, 'w) env \<Rightarrow> bytes \<Rightarrow> 'b store \<Rightarrow> 'b store" where
  "apply_del E key st = snd (apply_edit E key (\<lambda>_. (True, overwrite E [])) st)"

section \<open>The recovery callback\<close>

text \<open>Exceptions (of \<^verbatim>\<open>stoll\<close> or of a setter) are caught: the entry is skipped.\<close>

definition replay :: "('b, 'w) env \<Rightarrow> wal_call \<Rightarrow> 'b store \<Rightarrow> 'b store" where
  "replay E c st =
     (case c of (op, key, payload) \<Rightarrow>
        if op = wal_code PUT then apply_put E key payload st
        else if op = wal_code PATCH_I64 then
          (case split_colon payload of
             None \<Rightarrow> st
           | Some (field, v) \<Rightarrow>
               (case stoll v of
                  Inl _ \<Rightarrow> st
                | Inr val \<Rightarrow> snd (apply_patch_int E key field val st)))
        else if op = wal_code PATCH_STR then
          (case split_colon payload of
             None \<Rightarrow> st
           | Some (field, val) \<Rightarrow> snd (apply_patch_str E key field val st))
        else if op = wal_code DELETE_OP then apply_del E key st
        else st)"

section \<open>Reading\<close>

definition get :: "('b, 'w) env \<Rightarrow> bytes \<Rightarrow> 'b store \<Rightarrow> 'b" where
  "get E key st = (case find_blob E key st of Some b \<Rightarrow> b | None \<Rightarrow> buf_default E)"

definition get_bucket_keys :: "('b, 'w) env \<Rightarrow> int \<Rightarrow> 'b store \<Rightarrow> (bytes \<times> u64) list" where
  "get_bucket_keys E idx st =
     concat (map (\<lambda>shard. concat (map (\<lambda>(k, v).
       if word_of_nat (bucket_idx k) = (word_of_int idx :: u32)
       then [(k, hash_blob E (Some v))] else []) shard)) (shards st))"

section \<open>The shards are one map\<close>

definition shard_ok :: "('b, 'w) env \<Rightarrow> nat \<Rightarrow> (bytes \<times> 'b) list \<Rightarrow> bool" where
  "shard_ok E i s \<longleftrightarrow> distinct (map fst s) \<and> (\<forall>k \<in> fst ` set s. get_shard E k = i)"

definition store_inv :: "('b, 'w) env \<Rightarrow> 'b store \<Rightarrow> bool" where
  "store_inv E st \<longleftrightarrow> length (shards st) = SHARDS \<and>
     (\<forall>i < SHARDS. shard_ok E i (shards st ! i)) \<and> merkle_inv (tree st)"

text \<open>
  The contract of a keyed container: an update is seen by its own key and by no other. The
  lemmas about sequences of updates follow from it alone.
\<close>

locale keyed_map =
  fixes find :: "'k \<Rightarrow> 's \<Rightarrow> 'v option"
    and upd :: "'k \<Rightarrow> 'v \<Rightarrow> 's \<Rightarrow> 's"
    and inv :: "'s \<Rightarrow> bool"
  assumes inv_upd: "inv s \<Longrightarrow> inv (upd k v s)"
    and find_upd: "inv s \<Longrightarrow> find k' (upd k v s) = (if k' = k then Some v else find k' s)"
begin

definition updates :: "('k \<times> 'v) list \<Rightarrow> 's \<Rightarrow> 's" where
  "updates kvs = fold (\<lambda>(k, v). upd k v) kvs"

lemma inv_updates: "inv s \<Longrightarrow> inv (updates kvs s)"
  unfolding updates_def by (induction kvs arbitrary: s) (auto simp: inv_upd)

lemma find_updates:
  "inv s \<Longrightarrow> find k (updates kvs s) = (case map_of (rev kvs) k of Some v \<Rightarrow> Some v | None \<Rightarrow> find k s)"
  unfolding updates_def
  by (induction kvs arbitrary: s) (auto simp: inv_upd find_upd map_add_def split: option.splits)

lemma find_upd_twice: "inv s \<Longrightarrow> find k (upd k' v (upd k'' w s)) =
    (if k = k' then Some v else if k = k'' then Some w else find k s)"
  by (simp add: inv_upd find_upd)

end

lemma get_shard_less [simp]: "get_shard E key < SHARDS"
proof -
  have "std_hash E key mod 64 < 64" by (rule word_mod_less_divisor) simp
  then show ?thesis by (simp add: get_shard_def word_less_nat_alt)
qed

lemma fst_update: "fst ` set (AList.update k v al) = insert k (fst ` set al)"
  by (induction al) auto

lemma shard_ok_update: "shard_ok E i s \<Longrightarrow> get_shard E k = i \<Longrightarrow> shard_ok E i (AList.update k b s)"
  by (simp add: shard_ok_def distinct_update fst_update)

interpretation blobs: keyed_map "find_blob E" "set_blob E" "store_inv E" for E :: "('b, 'w) env"
proof
  fix st :: "'b store" and k k' :: bytes and b :: 'b
  assume inv: "store_inv E st"
  then have i: "get_shard E k < length (shards st)" by (simp add: store_inv_def)
  show "store_inv E (set_blob E k b st)"
    using inv by (auto simp: store_inv_def set_blob_def Let_def nth_list_update shard_ok_update)
  show "find_blob E k' (set_blob E k b st) = (if k' = k then Some b else find_blob E k' st)"
    using i by (cases "get_shard E k' = get_shard E k")
      (auto simp: find_blob_def set_blob_def Let_def update_conv')
qed

lemma store_inv_delta: "store_inv E st \<Longrightarrow> store_inv E (delta k d st)"
  by (simp add: store_inv_def delta_def apply_delta_inv)

lemma find_delta [simp]: "find_blob E k' (delta k d st) = find_blob E k' st"
  by (simp add: find_blob_def delta_def)

lemma shards_delta [simp]: "shards (delta k d st) = shards st"
  by (simp add: delta_def)

lemma tree_set_blob [simp]: "tree (set_blob E k b st) = tree st"
  by (simp add: set_blob_def Let_def)

lemma store_inv_init: "store_inv E store_init"
  by (auto simp: store_inv_def store_init_def shard_ok_def merkle_init_inv)

lemma find_init [simp]: "find_blob E k store_init = None"
  by (simp add: find_blob_def store_init_def)

subsection \<open>The operations on blobs\<close>

lemma store_inv_put: "store_inv E st \<Longrightarrow> store_inv E (apply_put E k body st)"
  by (simp add: apply_put_def Let_def store_inv_delta blobs.inv_upd)

lemma find_put:
  "store_inv E st \<Longrightarrow>
   find_blob E k' (apply_put E k body st) = (if k' = k then Some (overwrite E body) else find_blob E k' st)"
  by (simp add: apply_put_def Let_def blobs.find_upd)

lemma store_inv_edit: "store_inv E st \<Longrightarrow> store_inv E (snd (apply_edit E k edit st))"
  by (auto simp: apply_edit_def Let_def store_inv_delta blobs.inv_upd split: prod.splits)

text \<open>The blob an edit starts from.\<close>

definition edit_base :: "('b, 'w) env \<Rightarrow> bytes \<Rightarrow> 'b store \<Rightarrow> 'b" where
  "edit_base E k st = (case find_blob E k st of Some b \<Rightarrow> b | None \<Rightarrow> buf_object E)"

lemma find_edit:
  "store_inv E st \<Longrightarrow>
   find_blob E k' (snd (apply_edit E k edit st)) =
     (if k' = k then Some (snd (edit (edit_base E k st))) else find_blob E k' st)"
  by (auto simp: apply_edit_def Let_def edit_base_def blobs.find_upd split: prod.splits)

lemma fst_edit: "fst (apply_edit E k edit st) = fst (edit (edit_base E k st))"
  by (auto simp: apply_edit_def Let_def edit_base_def split: prod.splits)

lemma store_inv_del: "store_inv E st \<Longrightarrow> store_inv E (apply_del E k st)"
  by (simp add: apply_del_def store_inv_edit)

lemma find_del:
  "store_inv E st \<Longrightarrow>
   find_blob E k' (apply_del E k st) = (if k' = k then Some (overwrite E []) else find_blob E k' st)"
  by (simp add: apply_del_def find_edit)

lemma store_inv_replay: "store_inv E st \<Longrightarrow> store_inv E (replay E c st)"
  by (cases c) (simp add: replay_def apply_patch_int_def apply_patch_str_def store_inv_put
      store_inv_edit store_inv_del split: option.split sum.split)

lemma store_inv_replays: "store_inv E st \<Longrightarrow> store_inv E (fold (replay E) cs st)"
  by (induction cs arbitrary: st) (simp_all add: store_inv_replay)

text \<open>The replay of one operation, by kind.\<close>

lemma replay_put: "replay E (op_call \<lparr>bop = PUT, bkey = k, bvalue = v\<rparr>) st = apply_put E k v st"
  by (simp add: replay_def op_call_def)

lemma replay_del: "replay E (op_call \<lparr>bop = DELETE_OP, bkey = k, bvalue = v\<rparr>) st = apply_del E k st"
  by (simp add: replay_def op_call_def)

lemma replay_patch_int:
  assumes "58 \<notin> set f" "- (2 ^ 63) \<le> v" "v < 2 ^ 63"
  shows "replay E (op_call \<lparr>bop = PATCH_I64, bkey = k, bvalue = f @ [58] @ to_string v\<rparr>) st =
    snd (apply_patch_int E k f v st)"
  using stoll_to_string [OF assms(2,3)] split_colon_join [OF assms(1), of "to_string v"]
  by (simp add: replay_def op_call_def)

lemma replay_patch_str:
  assumes "58 \<notin> set f"
  shows "replay E (op_call \<lparr>bop = PATCH_STR, bkey = k, bvalue = f @ [58] @ v\<rparr>) st =
    snd (apply_patch_str E k f v st)"
  using split_colon_join [OF assms, of v] by (simp add: replay_def op_call_def)

section \<open>The Merkle leaves and the shards\<close>

definition bucket_digest :: "('b, 'w) env \<Rightarrow> nat \<Rightarrow> 'b store \<Rightarrow> u64" where
  "bucket_digest E b st = xor_sum (map snd (get_bucket_keys E (int b) st))"

text \<open>How far a leaf is off the digest of its bucket: zero is what the tree should be.\<close>

definition drift :: "('b, 'w) env \<Rightarrow> nat \<Rightarrow> 'b store \<Rightarrow> u64" where
  "drift E b st = (leaves (tree st) ! b) XOR bucket_digest E b st"

definition shard_digest :: "('b, 'w) env \<Rightarrow> nat \<Rightarrow> (bytes \<times> 'b) list \<Rightarrow> u64" where
  "shard_digest E b s =
     xor_sum (map (\<lambda>(k, v). if bucket_idx k = b then hash_blob E (Some v) else 0) s)"

lemma bucket_u32:
  assumes "b < 65536"
  shows "word_of_nat (bucket_idx k) = (word_of_int (int b) :: u32) \<longleftrightarrow> bucket_idx k = b"
proof -
  have "unat (word_of_nat (bucket_idx k) :: u32) = bucket_idx k" "unat (word_of_nat b :: u32) = b"
    using less_trans [OF bucket_idx_less [of k], of 4294967296] assms by simp_all
  then show ?thesis by (metis word_unat_eq_iff of_int_of_nat_eq)
qed

lemma xor_sum_concat: "xor_sum (concat xss) = xor_sum (map xor_sum xss)"
  by (induction xss) auto

lemma bucket_digest_shards:
  assumes "b < 65536"
  shows "bucket_digest E b st = xor_sum (map (shard_digest E b) (shards st))"
proof -
  have "xor_sum (map snd (concat (map (\<lambda>(k, v).
       if word_of_nat (bucket_idx k) = (word_of_int (int b) :: u32)
       then [(k, hash_blob E (Some v))] else []) s))) = shard_digest E b s" for s
    unfolding shard_digest_def bucket_u32 [OF assms] by (induction s) auto
  then show ?thesis
    by (simp add: bucket_digest_def get_bucket_keys_def map_concat xor_sum_concat comp_def)
qed

lemma shard_digest_update:
  "shard_digest E b (AList.update k v s) =
     shard_digest E b s XOR
       (if bucket_idx k = b then hash_blob E (map_of s k) XOR hash_blob E (Some v) else 0)"
  by (induction s) (auto simp: shard_digest_def hash_blob_def xor_ac)

lemma xor_sum_list_update:
  "i < length xs \<Longrightarrow> xor_sum (xs[i := y]) = xor_sum xs XOR (xs ! i XOR y)"
proof (induction xs arbitrary: i)
  case (Cons x xs)
  then show ?case by (cases i) (simp_all add: xor_ac)
qed simp

lemma bucket_digest_set_blob:
  assumes "store_inv E st" "b < 65536"
  shows "bucket_digest E b (set_blob E k v st) =
    bucket_digest E b st XOR
      (if bucket_idx k = b then hash_blob E (find_blob E k st) XOR hash_blob E (Some v) else 0)"
proof -
  have i: "get_shard E k < length (shards st)" using assms(1) by (simp add: store_inv_def)
  then show ?thesis
    by (simp add: bucket_digest_shards [OF assms(2)] set_blob_def Let_def map_update
        xor_sum_list_update shard_digest_update find_blob_def xor_ac)
qed

lemma bucket_digest_delta [simp]: "bucket_digest E b (delta k d st) = bucket_digest E b st"
  by (simp add: bucket_digest_def get_bucket_keys_def)

lemma leaf_drift: "leaves (tree st) ! b = bucket_digest E b st XOR drift E b st"
  unfolding drift_def by (metis xor_cancel xor.commute)

lemma drift_delta:
  assumes "store_inv E st"
  shows "drift E b (delta k d st) = drift E b st XOR (if b = bucket_idx k then d else 0)"
proof -
  have "leaves (tree (delta k d st)) ! b =
      (if b = bucket_idx k then (leaves (tree st) ! b) XOR d else leaves (tree st) ! b)"
    using assms mt.leaf_delta by (simp add: store_inv_def delta_def)
  then show ?thesis by (simp add: drift_def xor_ac)
qed

lemma drift_set_blob:
  "store_inv E st \<Longrightarrow> b < 65536 \<Longrightarrow> drift E b (set_blob E k v st) =
     drift E b st XOR
       (if bucket_idx k = b then hash_blob E (find_blob E k st) XOR hash_blob E (Some v) else 0)"
  by (simp add: drift_def bucket_digest_set_blob xor_ac)

lemma drift_put: "store_inv E st \<Longrightarrow> b < 65536 \<Longrightarrow> drift E b (apply_put E k body st) = drift E b st"
  by (auto simp: apply_put_def Let_def drift_delta drift_set_blob blobs.inv_upd hash_blob_def xor_ac
      split: option.splits)

text \<open>A completed edit moves the leaf of an absent key's bucket by the hash of the empty object.\<close>

lemma drift_edit:
  assumes "store_inv E st" "b < 65536" "fst (apply_edit E k edit st)"
  shows "drift E b (snd (apply_edit E k edit st)) =
    drift E b st XOR
      (if bucket_idx k = b \<and> find_blob E k st = None then hash_blob E (Some (buf_object E)) else 0)"
  using assms
  by (auto simp: apply_edit_def Let_def drift_delta drift_set_blob blobs.inv_upd hash_blob_def xor_ac
      split: option.splits prod.splits)

lemma drift_del:
  "store_inv E st \<Longrightarrow> b < 65536 \<Longrightarrow>
   drift E b (apply_del E k st) =
     drift E b st XOR
      (if bucket_idx k = b \<and> find_blob E k st = None then hash_blob E (Some (buf_object E)) else 0)"
  by (simp add: apply_del_def drift_edit fst_edit)

section \<open>What a peer is told about a bucket\<close>

lemma find_blob_mem:
  assumes "store_inv E st"
  shows "find_blob E k st = Some v \<longleftrightarrow> (\<exists>s \<in> set (shards st). (k, v) \<in> set s)"
proof
  assume "find_blob E k st = Some v"
  then have "(k, v) \<in> set (shards st ! get_shard E k)" by (auto simp: find_blob_def dest: map_of_SomeD)
  moreover have "shards st ! get_shard E k \<in> set (shards st)"
    using assms by (simp add: store_inv_def)
  ultimately show "\<exists>s \<in> set (shards st). (k, v) \<in> set s" by blast
next
  assume "\<exists>s \<in> set (shards st). (k, v) \<in> set s"
  then obtain i where i: "i < length (shards st)" "(k, v) \<in> set (shards st ! i)"
    by (metis in_set_conv_nth)
  then have ok: "shard_ok E i (shards st ! i)" using assms by (simp add: store_inv_def)
  then have "get_shard E k = i" using i(2) by (force simp: shard_ok_def)
  then show "find_blob E k st = Some v"
    using ok i(2) by (simp add: find_blob_def shard_ok_def)
qed

lemma distinct_concat_labelled:
  assumes "\<And>i. i < length xss \<Longrightarrow> distinct (xss ! i)"
    and "\<And>i x. i < length xss \<Longrightarrow> x \<in> set (xss ! i) \<Longrightarrow> label x = n + i"
  shows "distinct (concat xss)"
  using assms
proof (induction xss arbitrary: n)
  case (Cons xs xss)
  have here: "label x = n" if "x \<in> set xs" for x using Cons.prems(2) [of 0 x] that by simp
  have there: "label x = Suc n + i" if "i < length xss" "x \<in> set (xss ! i)" for i x
    using Cons.prems(2) [of "Suc i" x] that by simp
  have "distinct (concat xss)"
    by (rule Cons.IH [OF _ there]) (use Cons.prems(1) in force)
  moreover have "distinct xs" using Cons.prems(1) [of 0] by simp
  moreover have "set xs \<inter> set (concat xss) = {}"
  proof (rule equals0I)
    fix x assume x: "x \<in> set xs \<inter> set (concat xss)"
    then obtain ys where "ys \<in> set xss" "x \<in> set ys" by auto
    then obtain i where "i < length xss" "x \<in> set (xss ! i)" by (auto simp: in_set_conv_nth [of ys])
    from there [OF this] here [of x] x show False by simp
  qed
  ultimately show ?case by simp
qed simp

lemma distinct_shard_keys: "store_inv E st \<Longrightarrow> distinct (concat (map (map fst) (shards st)))"
  by (rule distinct_concat_labelled [where label = "get_shard E" and n = 0])
     (auto simp: store_inv_def shard_ok_def)

lemma bucket_keys_fst:
  assumes "b < 65536"
  shows "map fst (get_bucket_keys E (int b) st) =
    filter (\<lambda>k. bucket_idx k = b) (concat (map (map fst) (shards st)))"
proof -
  have "map fst (concat (map (\<lambda>(k, v).
       if word_of_nat (bucket_idx k) = (word_of_int (int b) :: u32)
       then [(k, hash_blob E (Some v))] else []) s)) = filter (\<lambda>k. bucket_idx k = b) (map fst s)" for s
    unfolding bucket_u32 [OF assms] by (induction s) auto
  then show ?thesis
    by (simp add: get_bucket_keys_def map_concat filter_concat comp_def)
qed

section \<open>A concrete environment\<close>

text \<open>
  An instance to evaluate the model on: a document is raw bytes or a list of fields with their
  text, flat JSON objects are parsed by splitting at commas and colons, the log is a byte string.
\<close>

datatype demo_buf = Raw bytes | Doc "(bytes \<times> bytes) list"

fun split_commas :: "bytes \<Rightarrow> bytes \<Rightarrow> bytes list" where
  "split_commas acc [] = [rev acc]"
| "split_commas acc (c # cs) = (if c = 44 then rev acc # split_commas [] cs else split_commas (c # acc) cs)"

definition demo_parse :: "bytes \<Rightarrow> demo_buf option" where
  "demo_parse s = Some (Doc (map (\<lambda>p. case split_colon p of None \<Rightarrow> (p, [])
     | Some (k, v) \<Rightarrow> (butlast (tl k), v)) (split_commas [] (butlast (tl s)))))"

definition demo_vec :: "bytes \<Rightarrow> demo_buf" where
  "demo_vec d = (if d \<noteq> [] \<and> hd d = 123 then (case demo_parse d of Some b \<Rightarrow> b | None \<Rightarrow> Raw d) else Raw d)"

fun demo_data :: "demo_buf \<Rightarrow> bytes" where
  "demo_data (Raw b) = b"
| "demo_data (Doc fs) = [123] @ concat (map (\<lambda>(k, v). [34] @ k @ [34, 58] @ v @ [44]) fs) @ [125]"

fun demo_set :: "demo_buf \<Rightarrow> bytes \<Rightarrow> bytes \<Rightarrow> bool \<times> demo_buf" where
  "demo_set (Raw b) f v = (False, Raw b)"
| "demo_set (Doc fs) f v = (True, Doc (AList.update f v fs))"

fun demo_int :: "demo_buf \<Rightarrow> bytes \<Rightarrow> int option" where
  "demo_int (Raw b) f = None"
| "demo_int (Doc fs) f = (case map_of fs f of None \<Rightarrow> None
     | Some v \<Rightarrow> (case stoll v of Inl _ \<Rightarrow> None | Inr i \<Rightarrow> Some i))"

definition demo_env :: "(demo_buf, bytes) env" where
  "demo_env =
     \<lparr>buf_default = Raw [], buf_object = Doc [], buf_vec = demo_vec, from_json_string = demo_parse,
      buf_set_i64 = (\<lambda>b f v. demo_set b f (to_string v)), buf_set_str = demo_set, buf_data = demo_data,
      buf_get_type = (\<lambda>b f. Some (if demo_int b f = None then OtherType else Int64)),
      buf_get_i64 = demo_int, buf_get_f64 = demo_int, buf_get_bool = (\<lambda>b f. Some False),
      wal_write = (\<lambda>w bs. (True, w @ bs)), std_hash = fnv1a_64\<rparr>"

section \<open>Properties\<close>

text \<open>C29: a read returns the last write. After \<^verbatim>\<open>apply_put\<close> the key reads as the stored document, after
  \<^verbatim>\<open>apply_del\<close> as the empty tombstone, after a patch as the patched document (an absent key is
  patched from the empty object); every other key, in the same shard or not, reads as before, and
  the shard structure (64 shards, distinct keys, each in its own shard) is kept.\<close>

theorem get_reads_last_write:
  assumes "store_inv E st"
  shows "get E k' (apply_put E k body st) = (if k' = k then overwrite E body else get E k' st) \<and>
    get E k' (apply_del E k st) = (if k' = k then overwrite E [] else get E k' st) \<and>
    get E k' (snd (apply_patch_int E k f v st)) =
      (if k' = k then snd (set_int E f v (edit_base E k st)) else get E k' st) \<and>
    get E k' (snd (apply_patch_str E k f s st)) =
      (if k' = k then snd (set_str E f s (edit_base E k st)) else get E k' st) \<and>
    store_inv E (apply_put E k body st) \<and> store_inv E (apply_del E k st) \<and>
    store_inv E (snd (apply_patch_int E k f v st)) \<and> store_inv E (snd (apply_patch_str E k f s st))"
  using assms
  by (simp add: get_def find_put find_del find_edit apply_patch_int_def apply_patch_str_def
      store_inv_put store_inv_del store_inv_edit)

theorem get_reads_last_write_witness:
  "get demo_env [97] (apply_put demo_env [97] [49] store_init) = Raw [49]"
  using get_reads_last_write [OF store_inv_init, of demo_env "[97]" "[97]" "[49]"]
  by (simp add: overwrite_def demo_env_def demo_vec_def)

text \<open>C14: the Merkle tree follows the store. If every leaf is the exclusive or of the blob hashes
  of its bucket, it still is after a put of any key, and after a completed patch or a deletion of
  a key that is present.\<close>

theorem merkle_tracks_store:
  assumes "store_inv E st" and "\<And>b. b < 65536 \<Longrightarrow> leaves (tree st) ! b = bucket_digest E b st"
    and "b < 65536"
  shows "leaves (tree (apply_put E k body st)) ! b = bucket_digest E b (apply_put E k body st) \<and>
    (find_blob E k st \<noteq> None \<longrightarrow>
       leaves (tree (apply_del E k st)) ! b = bucket_digest E b (apply_del E k st)) \<and>
    (find_blob E k st \<noteq> None \<longrightarrow> apply_patch_int E k f v st = (True, st1) \<longrightarrow>
       leaves (tree st1) ! b = bucket_digest E b st1) \<and>
    (find_blob E k st \<noteq> None \<longrightarrow> apply_patch_str E k f s st = (True, st2) \<longrightarrow>
       leaves (tree st2) ! b = bucket_digest E b st2)"
proof -
  have "drift E b st = 0" using assms(2,3) by (simp add: drift_def)
  then have put: "drift E b (apply_put E k body st) = 0"
    and del: "find_blob E k st \<noteq> None \<Longrightarrow> drift E b (apply_del E k st) = 0"
    and edit: "find_blob E k st \<noteq> None \<Longrightarrow> apply_edit E k e st = (True, st') \<Longrightarrow> drift E b st' = 0" for e st'
    using drift_put [OF assms(1,3)] drift_del [OF assms(1,3)] drift_edit [OF assms(1,3), of k e]
    by auto
  from put del edit [of "set_int E f v" st1] edit [of "set_str E f s" st2] show ?thesis
    by (simp add: drift_def apply_patch_int_def apply_patch_str_def)
qed

theorem merkle_tracks_store_witness:
  "leaves (tree (apply_put demo_env [97] [49] store_init)) ! 7 =
   bucket_digest demo_env 7 (apply_put demo_env [97] [49] store_init)"
proof -
  have "leaves (tree (store_init :: demo_buf store)) ! b = bucket_digest demo_env b store_init"
    if "b < 65536" for b
    using that
    by (simp add: store_init_def merkle_init_def Let_def bucket_digest_shards shard_digest_def)
  from merkle_tracks_store [OF store_inv_init this, of 7 "[97]" "[49]"] show ?thesis by simp
qed

text \<open>A deletion of an absent key takes the tree off the store. \<^verbatim>\<open>apply_del\<close> first inserts a
  fresh empty object and uses its hash as the old hash, although that object was never in the
  tree. The blobs end up exactly as after a put of the empty string, but the leaf of the bucket
  differs by the hash of the empty object, so two nodes with equal contents keep reporting a
  difference.\<close>

theorem delete_absent_desyncs:
  assumes "store_inv E st" and "find_blob E k st = None"
    and "fnv1a_64 (buf_data E (buf_object E)) \<noteq> 0"
  shows "shards (apply_del E k st) = shards (apply_put E k [] st) \<and>
    leaves (tree (apply_del E k st)) ! bucket_idx k =
      (leaves (tree (apply_put E k [] st)) ! bucket_idx k) XOR fnv1a_64 (buf_data E (buf_object E)) \<and>
    leaves (tree (apply_del E k st)) ! bucket_idx k \<noteq> leaves (tree (apply_put E k [] st)) ! bucket_idx k"
proof -
  have sh: "shards (apply_del E k st) = shards (apply_put E k [] st)"
    using assms(2) by (simp add: apply_del_def apply_put_def apply_edit_def Let_def)
  then have "bucket_digest E b (apply_del E k st) = bucket_digest E b (apply_put E k [] st)" for b
    by (simp add: bucket_digest_def get_bucket_keys_def)
  moreover have "drift E (bucket_idx k) (apply_del E k st) =
      drift E (bucket_idx k) (apply_put E k [] st) XOR fnv1a_64 (buf_data E (buf_object E))"
    using assms(1,2) by (simp add: drift_del drift_put hash_blob_def)
  ultimately have eq: "leaves (tree (apply_del E k st)) ! bucket_idx k =
      (leaves (tree (apply_put E k [] st)) ! bucket_idx k) XOR fnv1a_64 (buf_data E (buf_object E))"
    by (simp only: leaf_drift [of _ _ E] xor_ac)
  with sh assms(3) show ?thesis by simp
qed

theorem delete_absent_desyncs_witness:
  "leaves (tree (apply_del demo_env [97] store_init)) ! bucket_idx [97] \<noteq>
   leaves (tree (apply_put demo_env [97] [] store_init)) ! bucket_idx [97]"
proof -
  have "fnv1a_64 (buf_data demo_env (buf_object demo_env)) \<noteq> 0" by code_simp
  from delete_absent_desyncs [OF store_inv_init find_init this] show ?thesis by blast
qed

text \<open>\<^verbatim>\<open>get_bucket_keys\<close> lists exactly the keys of the bucket, each once, with the hash of the
  stored blob; tombstones are included.\<close>

theorem bucket_keys_exact:
  assumes "store_inv E st" and "b < 65536"
  shows "set (get_bucket_keys E (int b) st) =
      {(k, hash_blob E (Some v)) | k v. find_blob E k st = Some v \<and> bucket_idx k = b} \<and>
    distinct (map fst (get_bucket_keys E (int b) st))"
proof
  show "set (get_bucket_keys E (int b) st) =
      {(k, hash_blob E (Some v)) | k v. find_blob E k st = Some v \<and> bucket_idx k = b}"
    unfolding get_bucket_keys_def bucket_u32 [OF assms(2)] find_blob_mem [OF assms(1)]
    by (auto split: if_splits)
  show "distinct (map fst (get_bucket_keys E (int b) st))"
    using distinct_shard_keys [OF assms(1)] by (simp add: bucket_keys_fst [OF assms(2)])
qed

theorem bucket_keys_exact_witness:
  "(\<exists>k v. find_blob demo_env k (apply_put demo_env [97] [49] store_init) = Some v \<and> bucket_idx k = bucket_idx [97]) \<and>
   set (get_bucket_keys demo_env (int (bucket_idx [97])) (apply_put demo_env [97] [49] store_init)) =
     {(k, hash_blob demo_env (Some v)) | k v.
        find_blob demo_env k (apply_put demo_env [97] [49] store_init) = Some v \<and> bucket_idx k = bucket_idx [97]}"
  using bucket_keys_exact [OF store_inv_put [OF store_inv_init] bucket_idx_less,
      of demo_env "[97]" "[97]" "[49]"] find_put [OF store_inv_init, of demo_env "[97]" "[97]" "[49]"]
  by auto

text \<open>A patch of a field whose name contains a colon is logged so that recovery patches another
  field: the name is cut at its first colon and the rest becomes part of the value.\<close>

theorem colon_field_misreplayed:
  assumes "58 \<in> set f"
  shows "\<exists>g w. 58 \<notin> set g \<and> g \<noteq> f \<and> f @ [58] @ v = g @ [58] @ w \<and>
     replay E (op_call \<lparr>bop = PATCH_STR, bkey = k, bvalue = f @ [58] @ v\<rparr>) st =
       snd (apply_patch_str E k g w st)"
proof -
  obtain g r where f: "f = g @ 58 # r" "58 \<notin> set g" using split_list_first [OF assms] by blast
  then have "f @ [58] @ v = g @ [58] @ (r @ [58] @ v)" "g \<noteq> f" by simp_all
  with f(2) show ?thesis using replay_patch_str [OF f(2)] by metis
qed

theorem colon_field_misreplayed_witness:
  "\<exists>g w. 58 \<notin> set g \<and> g \<noteq> [97, 58, 98] \<and> [97, 58, 98] @ [58] @ [49] = g @ [58] @ w \<and>
     replay demo_env (op_call \<lparr>bop = PATCH_STR, bkey = [107], bvalue = [97, 58, 98] @ [58] @ [49]\<rparr>) store_init =
       snd (apply_patch_str demo_env [107] g w store_init)"
  by (rule colon_field_misreplayed) simp

end
