(* ===== verification/Engine.thy ===== *)
theory Engine
  imports Store Replication_Log
begin

text \<open>
  The entry points of the \<^verbatim>\<open>Engine\<close> class in \<^verbatim>\<open>engine/store.hpp\<close>: construction from a log, the
  client operations \<^verbatim>\<open>put\<close>, \<^verbatim>\<open>patch_int\<close>, \<^verbatim>\<open>patch_str\<close> and \<^verbatim>\<open>del\<close>, and \<^verbatim>\<open>apply_mutation\<close> for
  writes that arrive from other nodes. Each takes a time stamp, logs a batch of two operations
  (the document and its \<^verbatim>\<open>:meta\<close> sidecar) and then applies both.

  A client operation takes the clock readings it will see; its result is \<open>None\<close> while it is
  waiting for the clock, and otherwise a flag (\<open>False\<close>: an exception escaped), the new engine and
  the readings left.
\<close>

record ('b, 'w) engine =
  db :: "'b store"
  wal :: 'w
  eclock :: hlc

section \<open>Sidecar records\<close>

definition meta_key :: "bytes \<Rightarrow> bytes" where
  "meta_key key = key @ lit '':meta''"

definition meta_json :: "Timestamp \<Rightarrow> bool \<Rightarrow> bytes" where
  \<open>meta_json ts tombstone =
     lit ''{"ts":'' @ to_string (wall_time ts) @
     lit '',"l":'' @ to_string (uint (logical ts)) @
     lit '',"n":'' @ to_string (uint (node_id ts)) @
     (if tombstone then lit '',"tombstone":true'' else []) @ lit ''}''\<close>

definition ts_str :: "Timestamp \<Rightarrow> bytes" where
  "ts_str ts = to_string (wall_time ts) @ lit '':'' @ to_string (uint (logical ts)) @ lit '':'' @
     to_string (uint (node_id ts))"

section \<open>Construction\<close>

definition engine_new :: "('b, 'w) env \<Rightarrow> ('r \<Rightarrow> nat \<Rightarrow> bytes option \<times> 'r) \<Rightarrow> nat \<Rightarrow> 'r \<Rightarrow> 'w \<Rightarrow> u32 \<Rightarrow>
    ('b, 'w) engine option" where
  "engine_new E rd fileSize r w node =
     (case wal_recover rd fileSize r of
        None \<Rightarrow> None
      | Some calls \<Rightarrow> Some \<lparr>db = fold (replay E) calls store_init, wal = w, eclock = hlc_init node\<rparr>)"

section \<open>Client operations\<close>

definition put :: "('b, 'w) env \<Rightarrow> bytes \<Rightarrow> bytes \<Rightarrow> ('b, 'w) engine \<Rightarrow> int list \<Rightarrow>
    (bool \<times> ('b, 'w) engine \<times> int list) option" where
  "put E key json_body en readings =
     (case hlc_now (eclock en) readings of
        None \<Rightarrow> None
      | Some (now, c, rs) \<Rightarrow>
          (let meta_val = meta_json now False;
               batch = [\<lparr>bop = PUT, bkey = key, bvalue = json_body\<rparr>,
                        \<lparr>bop = PUT, bkey = meta_key key, bvalue = meta_val\<rparr>];
               w = wal_append_batch (wal_write E) batch (wal en);
               st1 = apply_put E key json_body (db en);
               st2 = apply_put E (meta_key key) meta_val st1
           in Some (True, en\<lparr>db := st2, wal := w, eclock := c\<rparr>, rs)))"

definition patch_int :: "('b, 'w) env \<Rightarrow> bytes \<Rightarrow> bytes \<Rightarrow> int \<Rightarrow> ('b, 'w) engine \<Rightarrow> int list \<Rightarrow>
    (bool \<times> ('b, 'w) engine \<times> int list) option" where
  "patch_int E key field val en readings =
     (case hlc_now (eclock en) readings of
        None \<Rightarrow> None
      | Some (now, c, rs) \<Rightarrow>
          (let log_payload_int = field @ [58] @ to_string val;
               log_payload_str = field @ [58] @ ts_str now;
               batch = [\<lparr>bop = PATCH_I64, bkey = key, bvalue = log_payload_int\<rparr>,
                        \<lparr>bop = PATCH_STR, bkey = meta_key key, bvalue = log_payload_str\<rparr>];
               w = wal_append_batch (wal_write E) batch (wal en);
               (ok1, st1) = apply_patch_int E key field val (db en);
               (ok2, st2) = (if ok1 then apply_patch_str E (meta_key key) field (ts_str now) st1
                             else (False, st1))
           in Some (ok2, en\<lparr>db := st2, wal := w, eclock := c\<rparr>, rs)))"

definition patch_str :: "('b, 'w) env \<Rightarrow> bytes \<Rightarrow> bytes \<Rightarrow> bytes \<Rightarrow> ('b, 'w) engine \<Rightarrow> int list \<Rightarrow>
    (bool \<times> ('b, 'w) engine \<times> int list) option" where
  "patch_str E key field val en readings =
     (case hlc_now (eclock en) readings of
        None \<Rightarrow> None
      | Some (now, c, rs) \<Rightarrow>
          (let log_payload_str = field @ [58] @ val;
               log_payload_meta = field @ [58] @ ts_str now;
               batch = [\<lparr>bop = PATCH_STR, bkey = key, bvalue = log_payload_str\<rparr>,
                        \<lparr>bop = PATCH_STR, bkey = meta_key key, bvalue = log_payload_meta\<rparr>];
               w = wal_append_batch (wal_write E) batch (wal en);
               (ok1, st1) = apply_patch_str E key field val (db en);
               (ok2, st2) = (if ok1 then apply_patch_str E (meta_key key) field (ts_str now) st1
                             else (False, st1))
           in Some (ok2, en\<lparr>db := st2, wal := w, eclock := c\<rparr>, rs)))"

definition del :: "('b, 'w) env \<Rightarrow> bytes \<Rightarrow> ('b, 'w) engine \<Rightarrow> int list \<Rightarrow>
    (bool \<times> ('b, 'w) engine \<times> int list) option" where
  "del E key en readings =
     (case hlc_now (eclock en) readings of
        None \<Rightarrow> None
      | Some (now, c, rs) \<Rightarrow>
          (let meta_val = meta_json now True;
               batch = [\<lparr>bop = DELETE_OP, bkey = key, bvalue = []\<rparr>,
                        \<lparr>bop = PUT, bkey = meta_key key, bvalue = meta_val\<rparr>];
               w = wal_append_batch (wal_write E) batch (wal en);
               st1 = apply_del E key (db en);
               st2 = apply_put E (meta_key key) meta_val st1
           in Some (True, en\<lparr>db := st2, wal := w, eclock := c\<rparr>, rs)))"

section \<open>Mutations from other nodes\<close>

text \<open>The time stamp in the sidecar; \<open>None\<close> when a getter throws.\<close>

definition local_ts :: "('b, 'w) env \<Rightarrow> bytes \<Rightarrow> 'b store \<Rightarrow> Timestamp option" where
  "local_ts E key st =
     (let buf = get E (meta_key key) st in
      if length (buf_data E buf) > 0 then
        (case buf_get_type E buf (lit ''ts'') of
           None \<Rightarrow> None
         | Some type \<Rightarrow>
             (if type = Int64 \<or> type = Float64 then
                (case (buf_get_i64 E buf (lit ''ts''), buf_get_i64 E buf (lit ''l''),
                       buf_get_i64 E buf (lit ''n'')) of
                   (Some w, Some l, Some n) \<Rightarrow> Some (Timestamp w (word_of_int l) (word_of_int n))
                 | _ \<Rightarrow> None)
              else Some (Timestamp 0 0 0)))
      else Some (Timestamp 0 0 0))"

definition apply_mutation :: "('b, 'w) env \<Rightarrow> Mutation \<Rightarrow> ('b, 'w) engine \<Rightarrow> bool \<times> ('b, 'w) engine" where
  "apply_mutation E m en =
     (case local_ts E (mut_key m) (db en) of
        None \<Rightarrow> (False, en)
      | Some ts \<Rightarrow>
          (if mut_timestamp m \<le> ts then (True, en)
           else
             (let meta_val = meta_json (mut_timestamp m) (is_delete m);
                  batch = [if is_delete m then \<lparr>bop = DELETE_OP, bkey = mut_key m, bvalue = []\<rparr>
                           else \<lparr>bop = PUT, bkey = mut_key m, bvalue = mut_value m\<rparr>,
                           \<lparr>bop = PUT, bkey = meta_key (mut_key m), bvalue = meta_val\<rparr>];
                  w = wal_append_batch (wal_write E) batch (wal en);
                  st1 = (if is_delete m then apply_del E (mut_key m) (db en)
                         else apply_put E (mut_key m) (mut_value m) (db en));
                  st2 = apply_put E (meta_key (mut_key m)) meta_val st1
              in (True, en\<lparr>db := st2, wal := w\<rparr>))))"

section \<open>Sequences of operations\<close>

datatype engine_op =
    Put bytes bytes
  | Patch_int bytes bytes int
  | Patch_str bytes bytes bytes
  | Del bytes
  | Mutate Mutation

fun run_op :: "('b, 'w) env \<Rightarrow> engine_op \<Rightarrow> ('b, 'w) engine \<Rightarrow> int list \<Rightarrow>
    (bool \<times> ('b, 'w) engine \<times> int list) option" where
  "run_op E (Put key body) en rs = put E key body en rs"
| "run_op E (Patch_int key field val) en rs = patch_int E key field val en rs"
| "run_op E (Patch_str key field val) en rs = patch_str E key field val en rs"
| "run_op E (Del key) en rs = del E key en rs"
| "run_op E (Mutate m) en rs = (let (ok, en') = apply_mutation E m en in Some (ok, en', rs))"

text \<open>A run in which every operation completes without an exception.\<close>

fun run :: "('b, 'w) env \<Rightarrow> engine_op list \<Rightarrow> ('b, 'w) engine \<Rightarrow> int list \<Rightarrow>
    (('b, 'w) engine \<times> int list) option" where
  "run E [] en rs = Some (en, rs)"
| "run E (op # ops) en rs =
     (case run_op E op en rs of
        Some (True, en', rs') \<Rightarrow> run E ops en' rs'
      | _ \<Rightarrow> None)"

section \<open>Durability: the store is the replay of its log\<close>

text \<open>The writer of the log appends what it is given (\<^verbatim>\<open>libconveyor\<close> on a handle at the end of the
  file); \<open>content\<close> reads the bytes it has taken.\<close>

definition wal_appends :: "('b, 'w) env \<Rightarrow> ('w \<Rightarrow> bytes) \<Rightarrow> bool" where
  "wal_appends E content \<longleftrightarrow> (\<forall>w bs. content (snd (wal_write E w bs)) = content w @ bs)"

abbreviation int64_range :: "int \<Rightarrow> bool" where
  "int64_range v \<equiv> - (2 ^ 63) \<le> v \<and> v < 2 ^ 63"

text \<open>Operations the log format can represent: see the findings on long keys and on colons.\<close>

definition short :: "bytes \<Rightarrow> bool" where
  "short v \<longleftrightarrow> length v < 2000000000"

fun loggable :: "engine_op \<Rightarrow> bool" where
  "loggable (Put key body) \<longleftrightarrow> length key + 5 < 65536 \<and> short body"
| "loggable (Patch_int key field val) \<longleftrightarrow>
     length key + 5 < 65536 \<and> short field \<and> 58 \<notin> set field \<and> int64_range val"
| "loggable (Patch_str key field val) \<longleftrightarrow>
     length key + 5 < 65536 \<and> short (field @ val) \<and> 58 \<notin> set field"
| "loggable (Del key) \<longleftrightarrow> length key + 5 < 65536"
| "loggable (Mutate m) \<longleftrightarrow>
     length (mut_key m) + 5 < 65536 \<and> short (mut_value m) \<and> int64_range (wall_time (mut_timestamp m))"

lemma length_dec_digits: "n < 10 ^ Suc k \<Longrightarrow> length (dec_digits n) \<le> Suc k"
proof (induction k arbitrary: n)
  case 0
  then show ?case by (subst dec_digits.simps) simp
next
  case (Suc k)
  then have "n div 10 < 10 ^ Suc k" by (simp add: less_mult_imp_div_less)
  with Suc.IH [of "n div 10"] show ?case by (subst dec_digits.simps) simp
qed

lemma length_to_string: "int64_range v \<Longrightarrow> length (to_string v) \<le> 20"
proof -
  assume "int64_range v"
  then have "nat v < 10 ^ Suc 18" "nat (- v) < 10 ^ Suc 18" by (simp_all add: nat_less_iff zless_nat_eq_int_zless) linarith+
  from this [THEN length_dec_digits] show ?thesis by (simp add: to_string_def)
qed

lemma uint32_range: "int64_range (uint (w :: u32))"
proof -
  have "uint w < 4294967296" "0 \<le> uint w" using unsigned_less [of w, where ?'a = int] by simp_all
  then have "- 9223372036854775808 \<le> uint w \<and> uint w < 9223372036854775808" by linarith
  then show ?thesis by simp
qed

lemma length_meta_json: "int64_range (wall_time ts) \<Longrightarrow> length (meta_json ts d) \<le> 100"
  using length_to_string [of "wall_time ts"] length_to_string [OF uint32_range, of "logical ts"]
    length_to_string [OF uint32_range, of "node_id ts"]
  by (simp add: meta_json_def)

lemma length_ts_str: "int64_range (wall_time ts) \<Longrightarrow> length (ts_str ts) \<le> 100"
  using length_to_string [of "wall_time ts"] length_to_string [OF uint32_range, of "logical ts"]
    length_to_string [OF uint32_range, of "node_id ts"]
  by (simp add: ts_str_def)

lemma length_meta_key [simp]: "length (meta_key k) = length k + 5"
  by (simp add: meta_key_def)

lemma fits_two:
  assumes "length k + 5 < 65536" "length v + length u < 4100000000"
  shows "fits_batch [\<lparr>bop = o1, bkey = k, bvalue = v\<rparr>, \<lparr>bop = o2, bkey = meta_key k, bvalue = u\<rparr>]"
  using assms by (simp add: fits_batch_def batch_bytes_def batch_op_bytes_def)

text \<open>The clock stays inside the range of \<^verbatim>\<open>int64_t\<close> when the readings do.\<close>

definition clock_range :: "hlc \<Rightarrow> int list \<Rightarrow> bool" where
  "clock_range c rs \<longleftrightarrow> int64_range (max_wall_time c) \<and> (\<forall>r \<in> set rs. int64_range r)"

lemma wait_past_subset: "wait_past m ps = Some qs \<Longrightarrow> set qs \<subseteq> set ps"
  by (induction ps) (auto split: if_splits)

lemma clock_range_now:
  assumes "hlc_now c ps = Some (now, c', rs)" "clock_range c ps"
  shows "clock_range c' rs \<and> int64_range (wall_time now)"
  using assms(1)
proof (cases rule: hlc_now_cases)
  case (overflow p ss q)
  then have "set (q # rs) \<subseteq> set ps" using wait_past_subset by fastforce
  then show ?thesis using overflow assms(2) by (auto simp: clock_range_def hlc_stamp_def)
qed (use assms(2) in \<open>auto simp: clock_range_def hlc_stamp_def\<close>)

text \<open>
  One completed operation appends either nothing (a stale mutation) or one batch that fits the
  format, and the store changes by the replay of that batch.
\<close>

definition logs_batch :: "('b, 'w) env \<Rightarrow> ('b, 'w) engine \<Rightarrow> ('b, 'w) engine \<Rightarrow> BatchOp list \<Rightarrow> bool" where
  "logs_batch E en en' b \<longleftrightarrow> fits_batch b \<and> wal en' = wal_append_batch (wal_write E) b (wal en) \<and>
     db en' = fold (replay E) (map op_call b) (db en)"

lemma put_logs:
  assumes "put E key body en rs = Some (ok, en', rs')" "loggable (Put key body)"
    "clock_range (eclock en) rs"
  shows "clock_range (eclock en') rs' \<and> (\<exists>b. logs_batch E en en' b)"
proof -
  obtain now c where now: "hlc_now (eclock en) rs = Some (now, c, rs')"
    using assms(1) by (auto simp: put_def Let_def split: option.splits)
  note r = clock_range_now [OF now assms(3)]
  have "logs_batch E en en' [\<lparr>bop = PUT, bkey = key, bvalue = body\<rparr>,
      \<lparr>bop = PUT, bkey = meta_key key, bvalue = meta_json now False\<rparr>]" "eclock en' = c"
    using assms(1,2) now r length_meta_json [of now False] fits_two [of key body "meta_json now False"]
    by (auto simp: logs_batch_def put_def Let_def replay_put short_def)
  with r show ?thesis by blast
qed

lemma del_logs:
  assumes "del E key en rs = Some (ok, en', rs')" "loggable (Del key)" "clock_range (eclock en) rs"
  shows "clock_range (eclock en') rs' \<and> (\<exists>b. logs_batch E en en' b)"
proof -
  obtain now c where now: "hlc_now (eclock en) rs = Some (now, c, rs')"
    using assms(1) by (auto simp: del_def Let_def split: option.splits)
  note r = clock_range_now [OF now assms(3)]
  have "logs_batch E en en' [\<lparr>bop = DELETE_OP, bkey = key, bvalue = []\<rparr>,
      \<lparr>bop = PUT, bkey = meta_key key, bvalue = meta_json now True\<rparr>]" "eclock en' = c"
    using assms(1,2) now r length_meta_json [of now True] fits_two [of key "[]" "meta_json now True"]
    by (auto simp: logs_batch_def del_def Let_def replay_put replay_del)
  with r show ?thesis by blast
qed

lemma patch_int_logs:
  assumes "patch_int E key f v en rs = Some (True, en', rs')" "loggable (Patch_int key f v)"
    "clock_range (eclock en) rs"
  shows "clock_range (eclock en') rs' \<and> (\<exists>b. logs_batch E en en' b)"
proof -
  obtain now c where now: "hlc_now (eclock en) rs = Some (now, c, rs')"
    using assms(1) by (auto simp: patch_int_def Let_def split: option.splits prod.splits)
  note r = clock_range_now [OF now assms(3)]
  have f: "58 \<notin> set f" and v: "- (2 ^ 63) \<le> v" "v < 2 ^ 63" using assms(2) by simp_all
  let ?b = "[\<lparr>bop = PATCH_I64, bkey = key, bvalue = f @ [58] @ to_string v\<rparr>,
      \<lparr>bop = PATCH_STR, bkey = meta_key key, bvalue = f @ [58] @ ts_str now\<rparr>]"
  have "fits_batch ?b"
    using assms(2) length_to_string [of v] length_ts_str [of now] r
    by (intro fits_two) (auto simp: short_def)
  moreover have "wal en' = wal_append_batch (wal_write E) ?b (wal en)" "eclock en' = c"
    "db en' = fold (replay E) (map op_call ?b) (db en)"
    using assms(1) now replay_patch_int [OF f v, of E] replay_patch_str [OF f, of E]
    by (auto simp: patch_int_def Let_def split: prod.splits if_splits)
  ultimately show ?thesis using r unfolding logs_batch_def by blast
qed

lemma patch_str_logs:
  assumes "patch_str E key f v en rs = Some (True, en', rs')" "loggable (Patch_str key f v)"
    "clock_range (eclock en) rs"
  shows "clock_range (eclock en') rs' \<and> (\<exists>b. logs_batch E en en' b)"
proof -
  obtain now c where now: "hlc_now (eclock en) rs = Some (now, c, rs')"
    using assms(1) by (auto simp: patch_str_def Let_def split: option.splits prod.splits)
  note r = clock_range_now [OF now assms(3)]
  have f: "58 \<notin> set f" using assms(2) by simp
  let ?b = "[\<lparr>bop = PATCH_STR, bkey = key, bvalue = f @ [58] @ v\<rparr>,
      \<lparr>bop = PATCH_STR, bkey = meta_key key, bvalue = f @ [58] @ ts_str now\<rparr>]"
  have "fits_batch ?b"
    using assms(2) length_ts_str [of now] r by (intro fits_two) (auto simp: short_def)
  moreover have "wal en' = wal_append_batch (wal_write E) ?b (wal en)" "eclock en' = c"
    "db en' = fold (replay E) (map op_call ?b) (db en)"
    using assms(1) now replay_patch_str [OF f, of E]
    by (auto simp: patch_str_def Let_def split: prod.splits if_splits)
  ultimately show ?thesis using r unfolding logs_batch_def by blast
qed

lemma mutation_logs:
  assumes "apply_mutation E m en = (True, en')" "loggable (Mutate m)"
  shows "eclock en' = eclock en \<and> (en' = en \<or> (\<exists>b. logs_batch E en en' b))"
proof -
  let ?j = "meta_json (mut_timestamp m) (is_delete m)"
  let ?v = "if is_delete m then [] else mut_value m"
  let ?b = "[\<lparr>bop = if is_delete m then DELETE_OP else PUT, bkey = mut_key m, bvalue = ?v\<rparr>,
      \<lparr>bop = PUT, bkey = meta_key (mut_key m), bvalue = ?j\<rparr>]"
  have "fits_batch ?b"
    using assms(2) length_meta_json [of "mut_timestamp m" "is_delete m"]
    by (intro fits_two) (auto simp: short_def)
  then have "en' \<noteq> en \<Longrightarrow> logs_batch E en en' ?b"
    using assms(1) by (auto simp: logs_batch_def apply_mutation_def Let_def replay_put replay_del
        split: option.splits if_splits)
  moreover have "eclock en' = eclock en"
    using assms(1) by (auto simp: apply_mutation_def Let_def split: option.splits if_splits)
  ultimately show ?thesis by blast
qed

lemma run_op_logs:
  assumes "run_op E op en rs = Some (True, en', rs')" "loggable op" "clock_range (eclock en) rs"
  shows "clock_range (eclock en') rs' \<and> (en' = en \<or> (\<exists>b. logs_batch E en en' b))"
proof (cases op)
  case (Mutate m)
  then have "apply_mutation E m en = (True, en')" "rs' = rs"
    using assms(1) by (auto simp: Let_def split: prod.splits)
  with mutation_logs [of E m en en'] Mutate assms(2,3) show ?thesis by auto
qed (use assms put_logs del_logs patch_int_logs patch_str_logs in \<open>fastforce\<close>)+

text \<open>The log holds the batches \<open>bs\<close> and the store is their replay.\<close>

definition replayed :: "('b, 'w) env \<Rightarrow> ('w \<Rightarrow> bytes) \<Rightarrow> ('b, 'w) engine \<Rightarrow> BatchOp list list \<Rightarrow> bool" where
  "replayed E content en bs \<longleftrightarrow> (\<forall>b \<in> set bs. fits_batch b) \<and> content (wal en) = log_bytes bs \<and>
     db en = fold (replay E) (log_calls bs) store_init"

lemma replayed_step:
  assumes "wal_appends E content" "replayed E content en bs" "logs_batch E en en' b"
  shows "replayed E content en' (bs @ [b])"
  using assms
  by (auto simp: replayed_def logs_batch_def wal_appends_def wal_append_batch_def wal_append_def
      log_bytes_def log_calls_def batch_record_def)

lemma run_extends:
  assumes "wal_appends E content"
  shows "run E ops en rs = Some (en', rs') \<Longrightarrow> replayed E content en bs \<Longrightarrow>
    \<forall>op \<in> set ops. loggable op \<Longrightarrow> clock_range (eclock en) rs \<Longrightarrow>
    clock_range (eclock en') rs' \<and>
    (\<exists>cs. replayed E content en' (bs @ cs) \<and>
      (\<forall>j. \<exists>i en1 rs1. run E (take i ops) en rs = Some (en1, rs1) \<and> replayed E content en1 (bs @ take j cs)))"
proof (induction ops arbitrary: en rs bs)
  case Nil
  then have "run E (take 0 []) en rs = Some (en, rs)" by simp
  with Nil show ?case by (auto intro!: exI [of _ "[]"])
next
  case (Cons op ops)
  then obtain e1 r1 where op: "run_op E op en rs = Some (True, e1, r1)" "run E ops e1 r1 = Some (en', rs')"
    by (auto split: option.splits prod.splits bool.splits)
  have step: "clock_range (eclock e1) r1" "e1 = en \<or> (\<exists>b. logs_batch E en e1 b)"
    using run_op_logs [OF op(1)] Cons.prems by auto
  have run_i: "run E (take (Suc i) (op # ops)) en rs = run E (take i ops) e1 r1" for i
    using op(1) by simp
  have zero: "run E (take 0 (op # ops)) en rs = Some (en, rs)" by simp
  from step(2) show ?case
  proof
    assume "e1 = en"
    then have "replayed E content e1 bs" using Cons.prems(2) by simp
    from Cons.IH [OF op(2) this _ step(1)] Cons.prems(3) show ?thesis
      using run_i by (metis list.set_intros(2))
  next
    assume "\<exists>b. logs_batch E en e1 b"
    then obtain b where b: "replayed E content e1 (bs @ [b])"
      using replayed_step [OF assms Cons.prems(2)] by blast
    from Cons.IH [OF op(2) this _ step(1)] Cons.prems(3) obtain cs where
      cs: "clock_range (eclock en') rs'" "replayed E content en' (bs @ b # cs)"
        "\<And>j. \<exists>i en1 rs1. run E (take i ops) e1 r1 = Some (en1, rs1) \<and>
           replayed E content en1 (bs @ b # take j cs)"
      by auto
    have "\<exists>i en1 rs1. run E (take i (op # ops)) en rs = Some (en1, rs1) \<and>
        replayed E content en1 (bs @ take j (b # cs))" for j
    proof (cases j)
      case 0
      then show ?thesis using zero Cons.prems(2) by fastforce
    next
      case (Suc k)
      then show ?thesis using cs(3) [of k] run_i by (metis take_Suc_Cons)
    qed
    with cs(1,2) show ?thesis by blast
  qed
qed

lemma complete_prefix_append:
  "length (log_bytes bs) \<le> n \<Longrightarrow>
   complete_prefix n (bs @ cs) = bs @ complete_prefix (n - length (log_bytes bs)) cs"
proof (induction bs arbitrary: n)
  case (Cons b bs)
  have eq: "length (log_bytes (b # bs)) = length (batch_record b) + length (log_bytes bs)"
    by (simp add: log_bytes_def)
  have "length (log_bytes bs) \<le> n - length (batch_record b)" using Cons.prems eq by simp
  from Cons.IH [OF this] Cons.prems eq show ?case by simp
qed (simp add: log_bytes_def)

text \<open>What the constructor rebuilds from a log file that was cut after \<open>n\<close> bytes.\<close>

lemma engine_new_cut:
  assumes "\<forall>b \<in> set bs. fits_batch b" "length (log_bytes bs) < 2 ^ 64"
  shows "engine_new E storage_read (length (take n (log_bytes bs))) (take n (log_bytes bs), 0) w node =
    Some \<lparr>db = fold (replay E) (log_calls (complete_prefix n bs)) store_init, wal = w, eclock = hlc_init node\<rparr>"
proof -
  let ?f = "take n (log_bytes bs)"
  have "storage_ok (?f, 0)" "storage_rest (?f, 0) = ?f"
    using assms(2) by (auto simp: storage_ok_def storage_rest_def min_def)
  from storage.wal_recover_scan [OF this(1)] this(2) scan_cut_log [OF assms(1), of n] show ?thesis
    by (simp add: engine_new_def)
qed

section \<open>Last writer wins\<close>

text \<open>
  The contract of a last-writer-wins register, as the mutations of one key see the engine: a
  mutation that is not newer than the register leaves it alone, a newer one replaces it, and
  mutations of other keys do not touch it. Convergence follows from these laws alone.
\<close>

locale lww_register =
  fixes app :: "'m \<Rightarrow> 's \<Rightarrow> 's"
    and stamp :: "'s \<Rightarrow> 't :: linorder"
    and val :: "'s \<Rightarrow> 'v"
    and inv :: "'s \<Rightarrow> bool"
    and good :: "'m \<Rightarrow> bool"
    and mine :: "'m \<Rightarrow> bool"
    and mstamp :: "'m \<Rightarrow> 't"
    and mval :: "'m \<Rightarrow> 'v"
  assumes inv_app: "inv s \<Longrightarrow> good m \<Longrightarrow> inv (app m s)"
    and app_stale: "inv s \<Longrightarrow> good m \<Longrightarrow> mine m \<Longrightarrow> mstamp m \<le> stamp s \<Longrightarrow>
      stamp (app m s) = stamp s \<and> val (app m s) = val s"
    and app_newer: "inv s \<Longrightarrow> good m \<Longrightarrow> mine m \<Longrightarrow> stamp s < mstamp m \<Longrightarrow>
      stamp (app m s) = mstamp m \<and> val (app m s) = mval m"
    and app_other: "inv s \<Longrightarrow> good m \<Longrightarrow> \<not> mine m \<Longrightarrow>
      stamp (app m s) = stamp s \<and> val (app m s) = val s"
begin

abbreviation apps :: "'m list \<Rightarrow> 's \<Rightarrow> 's" where
  "apps ms \<equiv> fold app ms"

definition newer :: "'m list \<Rightarrow> 's \<Rightarrow> 'm set" where
  "newer ms s = {m \<in> set ms. mine m \<and> stamp s < mstamp m}"

text \<open>The register ends at the greatest stamp among its own and those of the newer mutations.\<close>

lemma apps_result:
  "inv s \<Longrightarrow> \<forall>m \<in> set ms. good m \<Longrightarrow>
   inv (apps ms s) \<and> stamp s \<le> stamp (apps ms s) \<and>
   (\<forall>m \<in> set ms. mine m \<longrightarrow> mstamp m \<le> stamp (apps ms s)) \<and>
   (stamp (apps ms s) = stamp s \<and> val (apps ms s) = val s \<or>
    (\<exists>m \<in> newer ms s. stamp (apps ms s) = mstamp m \<and> val (apps ms s) = mval m))"
proof (induction ms arbitrary: s)
  case (Cons m ms)
  have inv': "inv (app m s)" using Cons.prems by (simp add: inv_app)
  note IH = Cons.IH [OF inv'] and gm = Cons.prems
  consider "\<not> mine m \<or> mstamp m \<le> stamp s" | "mine m" "stamp s < mstamp m" by fastforce
  then show ?case
  proof cases
    case 1
    then have same: "stamp (app m s) = stamp s" "val (app m s) = val s"
      using app_stale [of s m] app_other [of s m] gm by auto
    then have "newer ms (app m s) \<subseteq> newer (m # ms) s" by (auto simp: newer_def)
    with IH same 1 gm show ?thesis by (auto dest: order_trans)
  next
    case 2
    then have new: "stamp (app m s) = mstamp m" "val (app m s) = mval m" "m \<in> newer (m # ms) s"
      using app_newer [of s m] gm by (auto simp: newer_def)
    moreover have "newer ms (app m s) \<subseteq> newer (m # ms) s"
      using 2 new by (auto simp: newer_def)
    ultimately show ?thesis using IH 2 gm by fastforce
  qed
qed simp

text \<open>Any order and any repetition of the same mutations ends in the same register.\<close>

lemma apps_converge:
  assumes "inv s" "inv s'" "stamp s = stamp s'" "val s = val s'"
    and "\<forall>m \<in> set ms. good m" "set ms = set ms'"
    and inj: "\<And>m m'. m \<in> set ms \<Longrightarrow> m' \<in> set ms \<Longrightarrow> mine m \<Longrightarrow> mine m' \<Longrightarrow>
      mstamp m = mstamp m' \<Longrightarrow> mval m = mval m'"
  shows "stamp (apps ms s) = stamp (apps ms' s') \<and> val (apps ms s) = val (apps ms' s')"
proof -
  have new: "newer ms s = newer ms' s'" using assms(3,6) by (simp add: newer_def)
  note a = apps_result [OF assms(1,5)]
  note b = apps_result [OF assms(2), of ms'] assms(5,6)
  have eq: "stamp (apps ms s) = stamp (apps ms' s')"
    using a b new assms(3) by (intro antisym) (fastforce simp: newer_def)+
  have mem: "m \<in> newer ms s \<Longrightarrow> m \<in> set ms \<and> mine m \<and> stamp s < mstamp m" for m
    by (simp add: newer_def)
  have "val (apps ms s) = val (apps ms' s')"
  proof (cases "stamp (apps ms s) = stamp s")
    case True
    then have "val (apps ms s) = val s" "val (apps ms' s') = val s'"
      using a b eq new assms(3) mem by (metis less_irrefl)+
    then show ?thesis using assms(4) by simp
  next
    case False
    then obtain m m' where "m \<in> newer ms s" "stamp (apps ms s) = mstamp m" "val (apps ms s) = mval m"
      "m' \<in> newer ms s" "stamp (apps ms' s') = mstamp m'" "val (apps ms' s') = mval m'"
      using a b eq new assms(3) by metis
    then show ?thesis using inj mem eq by metis
  qed
  with eq show ?thesis ..
qed

lemma app_idem: "inv s \<Longrightarrow> good m \<Longrightarrow> mine m \<Longrightarrow>
    stamp (app m (app m s)) = stamp (app m s) \<and> val (app m (app m s)) = val (app m s)"
  using app_stale [of "app m s" m] app_newer [of s m] app_stale [of s m] inv_app
  by (cases "mstamp m \<le> stamp s") auto

end

text \<open>
  What the store relies on in the JSON library: the text of a sidecar record parses, and its
  three numbers read back.
\<close>

definition json_meta_ok :: "('b, 'w) env \<Rightarrow> Timestamp \<Rightarrow> bool \<Rightarrow> bool" where
  "json_meta_ok E ts d =
     (case from_json_string E (meta_json ts d) of
        None \<Rightarrow> False
      | Some b \<Rightarrow> buf_data E b \<noteq> [] \<and> buf_get_type E b (lit ''ts'') = Some Int64 \<and>
          buf_get_i64 E b (lit ''ts'') = Some (wall_time ts) \<and>
          buf_get_i64 E b (lit ''l'') = Some (uint (logical ts)) \<and>
          buf_get_i64 E b (lit ''n'') = Some (uint (node_id ts)))"

definition mut_buf :: "('b, 'w) env \<Rightarrow> Mutation \<Rightarrow> 'b" where
  "mut_buf E m = overwrite E (if is_delete m then [] else mut_value m)"

definition reg_stamp :: "('b, 'w) env \<Rightarrow> bytes \<Rightarrow> ('b, 'w) engine \<Rightarrow> Timestamp" where
  "reg_stamp E K en = (case local_ts E K (db en) of None \<Rightarrow> Timestamp 0 0 0 | Some t \<Rightarrow> t)"

definition reg_inv :: "('b, 'w) env \<Rightarrow> bytes \<Rightarrow> ('b, 'w) engine \<Rightarrow> bool" where
  "reg_inv E K en \<longleftrightarrow> store_inv E (db en) \<and> local_ts E K (db en) \<noteq> None"

text \<open>A mutation that reads back from its sidecar and does not collide with the key \<open>K\<close> or its
  sidecar (a user key that ends in \<^verbatim>\<open>:meta\<close> can).\<close>

definition mut_good :: "('b, 'w) env \<Rightarrow> bytes \<Rightarrow> Mutation \<Rightarrow> bool" where
  "mut_good E K m \<longleftrightarrow> json_meta_ok E (mut_timestamp m) (is_delete m) \<and>
     mut_key m \<noteq> meta_key K \<and> meta_key (mut_key m) \<noteq> K"

lemma meta_key_neq [simp]: "meta_key k \<noteq> k" "k \<noteq> meta_key k"
  by (simp_all add: meta_key_def lit_def)

lemma meta_key_inj [simp]: "meta_key k = meta_key k' \<longleftrightarrow> k = k'"
  by (simp add: meta_key_def)

lemma meta_json_brace: "meta_json ts d \<noteq> [] \<and> hd (meta_json ts d) = 123"
  by (simp add: meta_json_def lit_def)

lemma local_ts_meta:
  assumes "json_meta_ok E ts d"
    and "find_blob E (meta_key k) st = Some (overwrite E (meta_json ts d))"
  shows "local_ts E k st = Some ts"
proof -
  obtain b where b: "from_json_string E (meta_json ts d) = Some b"
    using assms(1) by (auto simp: json_meta_ok_def split: option.splits)
  then have "get E (meta_key k) st = b"
    using assms(2) meta_json_brace [of ts d] by (simp add: get_def overwrite_def)
  then show ?thesis using assms(1) b by (simp add: local_ts_def json_meta_ok_def)
qed

lemma local_ts_cong:
  "find_blob E (meta_key k) st = find_blob E (meta_key k) st' \<Longrightarrow> local_ts E k st = local_ts E k st'"
  by (simp add: local_ts_def get_def)

text \<open>The blobs after a mutation was accepted.\<close>

lemma apply_mutation_newer:
  assumes "store_inv E (db en)" "local_ts E (mut_key m) (db en) = Some t" "t < mut_timestamp m"
    and "apply_mutation E m en = (ok, en')"
  shows "ok" "store_inv E (db en')"
    "find_blob E k (db en') =
      (if k = meta_key (mut_key m) then Some (overwrite E (meta_json (mut_timestamp m) (is_delete m)))
       else if k = mut_key m then Some (mut_buf E m) else find_blob E k (db en))"
  using assms
  by (auto simp: apply_mutation_def Let_def mut_buf_def store_inv_put store_inv_del find_put find_del
      leD split: if_splits)

text \<open>The blobs after a local put, and its time stamp.\<close>

lemma put_effect:
  assumes "store_inv E (db en)" "hlc_now (eclock en) rs = Some (now, c, rs')"
    "put E key body en rs = Some (ok, en', rs'')"
  shows "store_inv E (db en')" "eclock en' = c"
    "find_blob E k (db en') =
      (if k = meta_key key then Some (overwrite E (meta_json now False))
       else if k = key then Some (overwrite E body) else find_blob E k (db en))"
  using assms by (auto simp: put_def Let_def store_inv_put find_put)

lemma apply_mutation_not_newer:
  "\<forall>t. local_ts E (mut_key m) (db en) = Some t \<longrightarrow> mut_timestamp m \<le> t \<Longrightarrow> snd (apply_mutation E m en) = en"
  by (auto simp: apply_mutation_def split: option.splits)

lemma apply_mutation_cases:
  assumes "store_inv E (db en)"
  obtains "snd (apply_mutation E m en) = en" "\<forall>t. local_ts E (mut_key m) (db en) = Some t \<longrightarrow> mut_timestamp m \<le> t"
  | t where "local_ts E (mut_key m) (db en) = Some t" "t < mut_timestamp m"
      "store_inv E (db (snd (apply_mutation E m en)))"
      "\<And>k. find_blob E k (db (snd (apply_mutation E m en))) =
        (if k = meta_key (mut_key m) then Some (overwrite E (meta_json (mut_timestamp m) (is_delete m)))
         else if k = mut_key m then Some (mut_buf E m) else find_blob E k (db en))"
proof (cases "\<forall>t. local_ts E (mut_key m) (db en) = Some t \<longrightarrow> mut_timestamp m \<le> t")
  case True
  with that(1) apply_mutation_not_newer show ?thesis by blast
next
  case False
  then obtain t where t: "local_ts E (mut_key m) (db en) = Some t" "t < mut_timestamp m"
    by (auto simp: not_le)
  obtain ok en' where e: "apply_mutation E m en = (ok, en')" by force
  from that(2) [OF t] apply_mutation_newer [OF assms t e] e show ?thesis by simp
qed

interpretation reg: lww_register "\<lambda>m en. snd (apply_mutation E m en)" "reg_stamp E K"
  "\<lambda>en. find_blob E K (db en)" "reg_inv E K" "mut_good E K" "\<lambda>m. mut_key m = K"
  mut_timestamp "\<lambda>m. Some (mut_buf E m)" for E :: "('b, 'w) env" and K :: bytes
proof
  fix en :: "('b, 'w) engine" and m
  assume inv: "reg_inv E K en" and good: "mut_good E K m"
  let ?en = "snd (apply_mutation E m en)"
  have st: "store_inv E (db en)" using inv by (simp add: reg_inv_def)
  have json: "json_meta_ok E (mut_timestamp m) (is_delete m)"
    and sep: "mut_key m \<noteq> meta_key K" "meta_key (mut_key m) \<noteq> K"
    using good by (simp_all add: mut_good_def)
  have other: "local_ts E K (db ?en) = local_ts E K (db en) \<and>
      find_blob E K (db ?en) = find_blob E K (db en)" if "mut_key m \<noteq> K"
  proof (rule apply_mutation_cases [OF st, of m])
    fix t assume f: "\<And>k. find_blob E k (db ?en) =
        (if k = meta_key (mut_key m) then Some (overwrite E (meta_json (mut_timestamp m) (is_delete m)))
         else if k = mut_key m then Some (mut_buf E m) else find_blob E k (db en))"
    have "find_blob E (meta_key K) (db ?en) = find_blob E (meta_key K) (db en)"
      "find_blob E K (db ?en) = find_blob E K (db en)"
      using f that sep by auto
    then show ?thesis using local_ts_cong by blast
  qed simp
  have newer: "local_ts E K (db ?en) = Some (mut_timestamp m) \<and> find_blob E K (db ?en) = Some (mut_buf E m)"
    if "mut_key m = K" "reg_stamp E K en < mut_timestamp m"
  proof -
    from inv that(2) obtain t where "local_ts E K (db en) = Some t" "t < mut_timestamp m"
      by (auto simp: reg_inv_def reg_stamp_def)
    with that(1) have t: "local_ts E (mut_key m) (db en) = Some t" "t < mut_timestamp m" by simp_all
    obtain ok en' where e: "apply_mutation E m en = (ok, en')" by force
    note n = apply_mutation_newer [OF st t e]
    show ?thesis using n(3) local_ts_meta [OF json, of K "db en'"] that(1) e by simp
  qed
  have stale: "?en = en" if "mut_key m = K" "mut_timestamp m \<le> reg_stamp E K en"
    using that inv by (intro apply_mutation_not_newer) (auto simp: reg_inv_def reg_stamp_def)
  have st': "store_inv E (db ?en)"
    by (rule apply_mutation_cases [OF st, of m]) (use st in simp_all)
  show "reg_inv E K ?en"
    using other newer stale st' inv
    by (cases "mut_key m = K"; cases "mut_timestamp m \<le> reg_stamp E K en") (auto simp: reg_inv_def)
  show "mut_key m = K \<Longrightarrow> mut_timestamp m \<le> reg_stamp E K en \<Longrightarrow>
      reg_stamp E K ?en = reg_stamp E K en \<and> find_blob E K (db ?en) = find_blob E K (db en)"
    using stale by simp
  show "mut_key m = K \<Longrightarrow> reg_stamp E K en < mut_timestamp m \<Longrightarrow>
      reg_stamp E K ?en = mut_timestamp m \<and> find_blob E K (db ?en) = Some (mut_buf E m)"
    using newer by (simp add: reg_stamp_def)
  show "mut_key m \<noteq> K \<Longrightarrow>
      reg_stamp E K ?en = reg_stamp E K en \<and> find_blob E K (db ?en) = find_blob E K (db en)"
    using other by (simp add: reg_stamp_def)
qed

section \<open>Properties\<close>

definition engine_empty :: "'w \<Rightarrow> u32 \<Rightarrow> ('b, 'w) engine" where
  "engine_empty w node = \<lparr>db = store_init, wal = w, eclock = hlc_init node\<rparr>"

lemma replayed_empty: "content w = [] \<Longrightarrow> replayed E content (engine_empty w node) []"
  by (simp add: replayed_def engine_empty_def log_bytes_def log_calls_def)

text \<open>C1: crash consistency, end to end. A node starts empty, completes the operations \<open>ops1\<close> and
  then \<open>ops2\<close> (client operations and mutations from peers, in any mix). It crashes when only the first
  \<open>n\<close> bytes of its log are in the file, at least those of \<open>ops1\<close>. A new engine built from that file
  comes up, and its store (documents, sidecars and Merkle tree) is exactly the store the old one
  had after \<open>ops1\<close> and some first part of \<open>ops2\<close>; with the whole log it is the final store. In
  particular a document never comes back without its sidecar. The operations fit the log format,
  and clock readings 64 bits.\<close>

theorem crash_recovers_prefix:
  assumes "wal_appends E content" and "content w0 = []"
    and "run E ops1 (engine_empty w0 node) rs = Some (en1, rs1)"
    and "run E ops2 en1 rs1 = Some (en2, rs2)"
    and "\<forall>op \<in> set (ops1 @ ops2). loggable op" and "\<forall>r \<in> set rs. int64_range r"
    and "length (content (wal en2)) < 2 ^ 64" and "length (content (wal en1)) \<le> n"
    and "file = take n (content (wal en2))"
  shows "\<exists>en i e rs'. engine_new E storage_read (length file) (file, 0) w node = Some en \<and>
    run E (take i ops2) en1 rs1 = Some (e, rs') \<and> db en = db e \<and>
    (length (content (wal en2)) \<le> n \<longrightarrow> db en = db en2)"
proof -
  have "clock_range (eclock (engine_empty w0 node :: ('a, 'b) engine)) rs"
    using assms(6) by (simp add: clock_range_def engine_empty_def hlc_init_def)
  from run_extends [OF assms(1,3) replayed_empty [of content, OF assms(2)] _ this] assms(5)
  obtain bs where bs: "clock_range (eclock en1) rs1" "replayed E content en1 bs" by auto
  from run_extends [OF assms(1,4) bs(2) _ bs(1)] assms(5)
  obtain cs where cs: "replayed E content en2 (bs @ cs)"
    "\<And>j. \<exists>i e rs'. run E (take i ops2) en1 rs1 = Some (e, rs') \<and> replayed E content e (bs @ take j cs)"
    by auto
  have log: "content (wal en2) = log_bytes (bs @ cs)" "\<forall>b \<in> set (bs @ cs). fits_batch b"
    "length (log_bytes bs) \<le> n" using cs(1) bs(2) assms(8) by (simp_all add: replayed_def)
  obtain j where j: "complete_prefix n (bs @ cs) = bs @ take j cs"
    using complete_prefix_append [OF log(3), of cs] complete_prefix_take by metis
  obtain i e rs' where e: "run E (take i ops2) en1 rs1 = Some (e, rs')" "replayed E content e (bs @ take j cs)"
    using cs(2) by blast
  let ?en = "\<lparr>db = fold (replay E) (log_calls (bs @ take j cs)) store_init, wal = w, eclock = hlc_init node\<rparr>"
  have new: "engine_new E storage_read (length file) (file, 0) w node = Some ?en"
    using engine_new_cut [OF log(2), of E n w node] assms(7,9) log(1) j by simp
  moreover have "db ?en = db e" using e(2) by (simp add: replayed_def)
  moreover have "db ?en = db en2" if "length (content (wal en2)) \<le> n"
    using complete_prefix_all [of "bs @ cs" n] that log(1) j cs(1) by (simp add: replayed_def)
  ultimately show ?thesis using e(1) by blast
qed

lemma demo_appends: "wal_appends demo_env (\<lambda>w. w)"
  by (simp add: wal_appends_def demo_env_def)

theorem crash_recovers_prefix_witness:
  "\<exists>en1 en2 en i e rs'.
     run demo_env [Put [97] [49]] (engine_empty [] 1) [5, 6] = Some (en1, [6]) \<and>
     run demo_env [Del [97]] en1 [6] = Some (en2, []) \<and>
     engine_new demo_env storage_read (length (take 100 (wal en2))) (take 100 (wal en2), 0) [] 1 = Some en \<and>
     run demo_env (take i [Del [97]]) en1 [6] = Some (e, rs') \<and> db en = db e"
proof -
  let ?m1 = "meta_json (Timestamp 5 0 1) False" and ?m2 = "meta_json (Timestamp 6 0 1) True"
  let ?b1 = "[\<lparr>bop = PUT, bkey = [97], bvalue = [49]\<rparr>, \<lparr>bop = PUT, bkey = meta_key [97], bvalue = ?m1\<rparr>]"
  let ?b2 = "[\<lparr>bop = DELETE_OP, bkey = [97], bvalue = []\<rparr>, \<lparr>bop = PUT, bkey = meta_key [97], bvalue = ?m2\<rparr>]"
  have t1: "hlc_now (hlc_init 1) [5, 6] = Some (Timestamp 5 0 1, \<lparr>max_wall_time = 5, max_logical = 0, hlc_node_id = 1\<rparr>, [6])"
    and t2: "hlc_now \<lparr>max_wall_time = 5, max_logical = 0, hlc_node_id = 1\<rparr> [6] =
      Some (Timestamp 6 0 1, \<lparr>max_wall_time = 6, max_logical = 0, hlc_node_id = 1\<rparr>, [])"
    by (simp_all add: hlc_now_def hlc_init_def hlc_stamp_def Let_def)
  obtain en1 where en1: "run demo_env [Put [97] [49]] (engine_empty [] 1) [5, 6] = Some (en1, [6])"
    "wal en1 = batch_record ?b1" "eclock en1 = \<lparr>max_wall_time = 5, max_logical = 0, hlc_node_id = 1\<rparr>"
    using t1 by (auto simp: put_def engine_empty_def Let_def wal_append_batch_def wal_append_def
        batch_record_def demo_env_def)
  obtain en2 where en2: "run demo_env [Del [97]] en1 [6] = Some (en2, [])"
    "wal en2 = batch_record ?b1 @ batch_record ?b2"
    using t2 en1 by (auto simp: del_def Let_def wal_append_batch_def wal_append_def
        batch_record_def demo_env_def)
  have m: "length ?m1 = 20" "length ?m2 = 37" by code_simp+
  have len: "length (wal en1) \<le> 100" "length (wal en2) < 2 ^ 64"
    using en1(2) en2(2) m by (simp_all add: batch_record_def batch_bytes_def batch_op_bytes_def)
  have "\<forall>op \<in> set ([Put [97] [49]] @ [Del [97]]). loggable op" by (simp add: short_def)
  from crash_recovers_prefix [OF demo_appends refl en1(1) en2(1) this _ len(2,1) refl, of "[]"]
  show ?thesis using en1(1) en2(1) by fastforce
qed

text \<open>C5: convergence. Two nodes that hold the same document and time stamp for a key end with the
  same document and time stamp after they have received the same mutations, in whatever order
  and however often each was delivered, mixed with mutations of other keys, provided distinct
  writes of the key carry distinct time stamps.\<close>

theorem mutations_converge:
  assumes "reg_inv E K en" and "reg_inv E K en'"
    and "reg_stamp E K en = reg_stamp E K en'" and "find_blob E K (db en) = find_blob E K (db en')"
    and "\<forall>m \<in> set ms. mut_good E K m" and "set ms = set ms'"
    and "\<And>m m'. m \<in> set ms \<Longrightarrow> m' \<in> set ms \<Longrightarrow> mut_key m = K \<Longrightarrow> mut_key m' = K \<Longrightarrow>
      mut_timestamp m = mut_timestamp m' \<Longrightarrow> m = m'"
  shows "get E K (db (fold (\<lambda>m e. snd (apply_mutation E m e)) ms en)) =
         get E K (db (fold (\<lambda>m e. snd (apply_mutation E m e)) ms' en')) \<and>
    reg_stamp E K (fold (\<lambda>m e. snd (apply_mutation E m e)) ms en) =
    reg_stamp E K (fold (\<lambda>m e. snd (apply_mutation E m e)) ms' en')"
  using reg.apps_converge [OF assms(1-6)] assms(7) by (metis get_def)

definition mut_demo :: "int \<Rightarrow> bytes \<Rightarrow> Mutation" where
  "mut_demo w v = \<lparr>mut_timestamp = Timestamp w 0 2, mut_key = [97], mut_value = v, is_delete = False\<rparr>"

lemma demo_local_ts_empty: "local_ts demo_env k (db (engine_empty w n)) = Some (Timestamp 0 0 0)"
  by (simp add: local_ts_def get_def engine_empty_def demo_env_def)

lemma demo_reg_inv: "reg_inv demo_env k (engine_empty w n)"
  using demo_local_ts_empty [of k w n] store_inv_init by (simp add: reg_inv_def engine_empty_def)

theorem mutations_converge_witness:
  "get demo_env [97] (db (fold (\<lambda>m e. snd (apply_mutation demo_env m e)) [mut_demo 7 [49], mut_demo 9 [50]]
     (engine_empty [] 1))) =
   get demo_env [97] (db (fold (\<lambda>m e. snd (apply_mutation demo_env m e))
     [mut_demo 9 [50], mut_demo 7 [49], mut_demo 9 [50]] (engine_empty [] 1)))"
proof -
  have "mut_good demo_env [97] (mut_demo 7 [49])" "mut_good demo_env [97] (mut_demo 9 [50])"
    by code_simp+
  then have "\<forall>m \<in> set [mut_demo 7 [49], mut_demo 9 [50]]. mut_good demo_env [97] m" by simp
  moreover have "set [mut_demo 7 [49], mut_demo 9 [50]] = set [mut_demo 9 [50], mut_demo 7 [49], mut_demo 9 [50]]"
    by auto
  ultimately show ?thesis
    by (rule conjunct1 [OF mutations_converge [OF demo_reg_inv demo_reg_inv refl refl]])
       (auto simp: mut_demo_def)
qed

text \<open>C12: \<^verbatim>\<open>apply_mutation\<close> on every branch. A mutation that is not newer than the stored time stamp
  changes nothing, neither the store nor the log; a newer one is stored with its time stamp, so
  that a second delivery is rejected, and every other key except the sidecar is left alone; when
  the sidecar cannot be read the call fails without a change.\<close>

theorem apply_mutation_lww:
  assumes "store_inv E (db en)" and "json_meta_ok E (mut_timestamp m) (is_delete m)"
    and "apply_mutation E m en = (ok, en')"
  shows "case local_ts E (mut_key m) (db en) of
      None \<Rightarrow> \<not> ok \<and> en' = en
    | Some t \<Rightarrow> ok \<and>
        (if mut_timestamp m \<le> t then en' = en
         else get E (mut_key m) (db en') = overwrite E (if is_delete m then [] else mut_value m) \<and>
           local_ts E (mut_key m) (db en') = Some (mut_timestamp m) \<and>
           apply_mutation E m en' = (True, en') \<and> store_inv E (db en') \<and>
           (\<forall>k. k \<noteq> mut_key m \<and> k \<noteq> meta_key (mut_key m) \<longrightarrow> get E k (db en') = get E k (db en)))"
proof (cases "local_ts E (mut_key m) (db en)")
  case None
  then show ?thesis using assms(3) by (simp add: apply_mutation_def)
next
  case (Some t)
  show ?thesis
  proof (cases "mut_timestamp m \<le> t")
    case True
    then show ?thesis using assms(3) Some by (simp add: apply_mutation_def)
  next
    case False
    note n = apply_mutation_newer [OF assms(1) Some _ assms(3)]
    have ts: "local_ts E (mut_key m) (db en') = Some (mut_timestamp m)"
      using local_ts_meta [OF assms(2)] n(3) False by simp
    then have "apply_mutation E m en' = (True, en')" by (simp add: apply_mutation_def)
    with ts n False Some show ?thesis by (simp add: get_def mut_buf_def)
  qed
qed

theorem apply_mutation_lww_witness:
  "\<exists>ok en'. apply_mutation demo_env (mut_demo 7 [49]) (engine_empty [] 1) = (ok, en') \<and>
     get demo_env [97] (db en') = Raw [49] \<and> local_ts demo_env [97] (db en') = Some (Timestamp 7 0 2)"
proof -
  obtain ok en' where e: "apply_mutation demo_env (mut_demo 7 [49]) (engine_empty [] 1) = (ok, en')"
    by force
  have inv: "store_inv demo_env (db (engine_empty [] 1))"
    by (simp add: engine_empty_def store_inv_init)
  have j: "json_meta_ok demo_env (mut_timestamp (mut_demo 7 [49])) (is_delete (mut_demo 7 [49]))"
    by code_simp
  have o: "overwrite demo_env [49] = Raw [49]" by code_simp
  have lt: "\<not> Timestamp 7 0 2 \<le> Timestamp 0 0 0" by (simp add: timestamp_order)
  from apply_mutation_lww [OF inv j e] e o lt show ?thesis
    by (simp add: demo_local_ts_empty) (auto simp: mut_demo_def)
qed

text \<open>A remote write does not move the local clock. After a mutation stamped ahead of this
  node's clock was accepted, a local put takes the smaller local time, overwrites the document
  and sets the stored time stamp back, so that the older remote write, delivered again, beats the
  later local one.\<close>

theorem put_behind_remote_write:
  assumes "store_inv E (db en)" and "local_ts E (mut_key m) (db en) = Some t" and "t < mut_timestamp m"
    and "max_wall_time (eclock en) < p" and "p < wall_time (mut_timestamp m)"
    and "json_meta_ok E (Timestamp p 0 (hlc_node_id (eclock en))) False"
    and "apply_mutation E m en = (ok, en1)" and "put E (mut_key m) body en1 [p] = Some (ok', en2, rs)"
  shows "get E (mut_key m) (db en2) = overwrite E body \<and>
    local_ts E (mut_key m) (db en2) = Some (Timestamp p 0 (hlc_node_id (eclock en))) \<and>
    get E (mut_key m) (db (snd (apply_mutation E m en2))) = overwrite E (if is_delete m then [] else mut_value m)"
proof -
  let ?now = "Timestamp p 0 (hlc_node_id (eclock en))"
  have c: "eclock en1 = eclock en" and inv1: "store_inv E (db en1)"
    using assms(7) apply_mutation_newer(2) [OF assms(1-3,7)]
    by (auto simp: apply_mutation_def Let_def split: option.splits if_splits)
  then obtain c' where now: "hlc_now (eclock en1) [p] = Some (?now, c', [])"
    using assms(4) by (simp add: hlc_now_def hlc_stamp_def Let_def)
  note inv2 = put_effect(1) [OF inv1 now assms(8)] and find = put_effect(3) [OF inv1 now assms(8)]
  have ts: "local_ts E (mut_key m) (db en2) = Some ?now"
    using local_ts_meta [OF assms(6)] find by simp
  have lt: "?now < mut_timestamp m" using assms(5) by (simp add: timestamp_order)
  obtain ok3 en3 where "apply_mutation E m en2 = (ok3, en3)" by force
  with apply_mutation_newer [OF inv2 ts lt this] ts find show ?thesis
    by (simp add: get_def mut_buf_def)
qed

theorem put_behind_remote_write_witness:
  "\<exists>ok en1 en2 rs. apply_mutation demo_env (mut_demo 100 [49]) (engine_empty [] 1) = (ok, en1) \<and>
     put demo_env [97] [50] en1 [50] = Some (True, en2, rs) \<and>
     get demo_env [97] (db en2) = Raw [50] \<and>
     get demo_env [97] (db (snd (apply_mutation demo_env (mut_demo 100 [49]) en2))) = Raw [49]"
proof -
  let ?e = "engine_empty [] 1 :: (demo_buf, bytes) engine"
  obtain ok en1 where e1: "apply_mutation demo_env (mut_demo 100 [49]) ?e = (ok, en1)" by force
  have c: "eclock en1 = hlc_init 1"
    using e1 by (auto simp: apply_mutation_def Let_def engine_empty_def split: option.splits if_splits)
  then obtain en2 where e2: "put demo_env [97] [50] en1 [50] = Some (True, en2, [])"
    by (simp add: put_def hlc_now_def hlc_init_def Let_def)
  have inv: "store_inv demo_env (db ?e)" by (simp add: engine_empty_def store_inv_init)
  have j: "json_meta_ok demo_env (Timestamp 50 0 (hlc_node_id (eclock ?e))) False"
    by (simp add: engine_empty_def hlc_init_def) code_simp
  have o: "overwrite demo_env [49] = Raw [49]" "overwrite demo_env [50] = Raw [50]" by code_simp+
  have lt: "Timestamp 0 0 0 < mut_timestamp (mut_demo 100 [49])" "max_wall_time (eclock ?e) < 50"
      "50 < wall_time (mut_timestamp (mut_demo 100 [49]))" "mut_key (mut_demo 100 [49]) = [97]"
    by (simp_all add: timestamp_order mut_demo_def engine_empty_def hlc_init_def)
  from put_behind_remote_write [OF inv demo_local_ts_empty lt(1-3) j e1, of "[50]" True en2 "[]"] e1 e2 o lt(4)
  show ?thesis by (auto simp: mut_demo_def)
qed

text \<open>A patch is not stamped. \<^verbatim>\<open>patch_int\<close> and \<^verbatim>\<open>patch_str\<close> record their time under the patched
  field's name in the sidecar, and leave \<^verbatim>\<open>ts\<close>, \<^verbatim>\<open>l\<close> and \<^verbatim>\<open>n\<close> as they are: the time stamp that
  \<^verbatim>\<open>apply_mutation\<close> compares is still that of the last put, and a remote write older than the
  patch replaces the patched document.\<close>

definition object_frame :: "('b, 'w) env \<Rightarrow> bool" where
  "object_frame E \<longleftrightarrow> (\<forall>b f v b' g. buf_set_str E b f v = (True, b') \<longrightarrow> buf_data E b' \<noteq> [] \<and>
     (g \<noteq> f \<longrightarrow> buf_get_type E b' g = buf_get_type E b g \<and> buf_get_i64 E b' g = buf_get_i64 E b g))"

theorem patch_not_stamped:
  assumes "store_inv E (db en)" and "object_frame E"
    and "f \<notin> {lit ''ts'', lit ''l'', lit ''n''}"
    and "find_blob E (meta_key k) (db en) = Some b" and "buf_data E b \<noteq> []"
    and "patch_str E k f v en rs = Some (True, en', rs')"
  shows "local_ts E k (db en') = local_ts E k (db en)"
proof -
  obtain now c st1 where st1: "apply_patch_str E k f v (db en) = (True, st1)"
    "apply_patch_str E (meta_key k) f (ts_str now) st1 = (True, db en')"
    using assms(6) by (auto simp: patch_str_def Let_def split: option.splits prod.splits if_splits)
  have inv1: "store_inv E st1" "find_blob E (meta_key k) st1 = Some b"
    using store_inv_edit [OF assms(1), of k "set_str E f v"] st1(1) assms(4)
      find_edit [OF assms(1), of "meta_key k" k "set_str E f v"]
    by (simp_all add: apply_patch_str_def)
  obtain b' where b': "buf_set_str E b f (ts_str now) = (True, b')"
      "find_blob E (meta_key k) (db en') = Some b'"
    using st1(2) fst_edit [of E "meta_key k" "set_str E f (ts_str now)" st1]
      find_edit [OF inv1(1), of "meta_key k" "meta_key k" "set_str E f (ts_str now)"] inv1(2)
    by (auto simp: apply_patch_str_def edit_base_def set_str_def prod_eq_iff)
  have g: "lit ''ts'' \<noteq> f" "lit ''l'' \<noteq> f" "lit ''n'' \<noteq> f" using assms(3) by auto
  note frame = assms(2) [unfolded object_frame_def, rule_format, OF b'(1)]
  have data: "0 < length (buf_data E b')" "0 < length (buf_data E b)" using frame assms(5) by auto
  have eqs: "buf_get_type E b' (lit ''ts'') = buf_get_type E b (lit ''ts'')"
      "buf_get_i64 E b' (lit ''ts'') = buf_get_i64 E b (lit ''ts'')"
      "buf_get_i64 E b' (lit ''l'') = buf_get_i64 E b (lit ''l'')"
      "buf_get_i64 E b' (lit ''n'') = buf_get_i64 E b (lit ''n'')"
    using frame g by auto
  show ?thesis
    unfolding local_ts_def get_def assms(4) b'(2) option.case Let_def if_P [OF data(1)] if_P [OF data(2)] eqs
    by (rule refl)
qed

lemma demo_frame: "object_frame demo_env"
proof -
  have "demo_data b' \<noteq> [] \<and> (g \<noteq> f \<longrightarrow> demo_int b' g = demo_int b g)" if "demo_set b f v = (True, b')" for b f v b' g
    using that by (cases b) (auto simp: update_conv')
  then show ?thesis by (auto simp: object_frame_def demo_env_def)
qed

theorem patch_not_stamped_witness:
  "\<exists>en en' :: (demo_buf, bytes) engine. patch_str demo_env [107] [102] [49] en [50] = Some (True, en', []) \<and>
     local_ts demo_env [107] (db en) = Some (Timestamp 7 0 2) \<and>
     local_ts demo_env [107] (db en') = Some (Timestamp 7 0 2)"
proof -
  let ?j = "meta_json (Timestamp 7 0 2) False"
  define st where "st = apply_put demo_env (meta_key [107]) ?j store_init"
  define en :: "(demo_buf, bytes) engine" where "en = \<lparr>db = st, wal = [], eclock = hlc_init 1\<rparr>"
  have inv: "store_inv demo_env (db en)"
    by (simp add: en_def st_def store_inv_put store_inv_init)
  have f: "find_blob demo_env (meta_key [107]) (db en) = Some (overwrite demo_env ?j)"
      "find_blob demo_env [107] (db en) = None"
    using find_put [OF store_inv_init, of demo_env _ "meta_key [107]" ?j] by (simp_all add: en_def st_def)
  have o: "\<exists>fs. overwrite demo_env ?j = Doc fs" by (simp add: overwrite_def demo_env_def demo_parse_def meta_json_brace)
  have d: "buf_data demo_env (overwrite demo_env ?j) \<noteq> []" "[102] \<notin> {lit ''ts'', lit ''l'', lit ''n''}"
    by code_simp+
  obtain st1 where s1: "apply_patch_str demo_env [107] [102] [49] (db en) = (True, st1)"
    using fst_edit [of demo_env "[107]" "set_str demo_env [102] [49]" "db en"] f(2)
    by (cases "apply_patch_str demo_env [107] [102] [49] (db en)")
       (simp add: apply_patch_str_def edit_base_def set_str_def demo_env_def)
  have inv1: "store_inv demo_env st1" "find_blob demo_env (meta_key [107]) st1 = Some (overwrite demo_env ?j)"
    using store_inv_edit [OF inv, of "[107]" "set_str demo_env [102] [49]"] s1 f(1)
      find_edit [OF inv, of "meta_key [107]" "[107]" "set_str demo_env [102] [49]"]
    by (simp_all add: apply_patch_str_def)
  have s2: "fst (apply_patch_str demo_env (meta_key [107]) [102] s st1)" for s
    using fst_edit [of demo_env "meta_key [107]" "set_str demo_env [102] s" st1] inv1 o
    by (auto simp: apply_patch_str_def edit_base_def set_str_def) (simp add: demo_env_def)
  obtain en' where e: "patch_str demo_env [107] [102] [49] en [50] = Some (True, en', [])"
  proof -
    obtain st2 where "apply_patch_str demo_env (meta_key [107]) [102] (ts_str (Timestamp 50 0 1)) st1 = (True, st2)"
      using s2 by (metis prod.collapse)
    then show ?thesis
      using that s1 by (simp add: patch_str_def Let_def hlc_now_def hlc_init_def hlc_stamp_def en_def)
  qed
  have "local_ts demo_env [107] (db en) = Some (Timestamp 7 0 2)"
    by (rule local_ts_meta [OF _ f(1)]) code_simp
  with patch_not_stamped [OF inv demo_frame d(2) f(1) d(1) e] e show ?thesis by auto
qed

end
