(* ===== verification/Wal_Startup.thy ===== *)
theory Wal_Startup
  imports Engine
begin

text \<open>
  Opening the log (\<^verbatim>\<open>FileHandle\<close> and the outer part of \<^verbatim>\<open>recover\<close> in \<^verbatim>\<open>engine/wal.hpp\<close>) and with it the
  constructor of the engine: opening the file, asking for its size, creating the reader and the
  writer of \<^verbatim>\<open>libconveyor\<close>, each of which may fail. The properties say what is started on every branch.
\<close>

datatype startup_error = Open_failed | Size_failed | Writer_failed

text \<open>What Windows and \<^verbatim>\<open>libconveyor\<close> answer during start-up. \<open>seek_end\<close> is \<open>None\<close> if the seek fails.\<close>

record ('r, 'w) wal_os =
  opened :: bool
  file_size :: "nat option"
  reader :: "'r option"
  writer :: "'w option"
  seek_end :: "'w \<Rightarrow> 'w option"

text \<open>The constructor of \<^verbatim>\<open>FileHandle\<close> throws unless the file could be opened or created.\<close>

definition file_handle :: "('r, 'w) wal_os \<Rightarrow> startup_error + unit" where [simp]:
  "file_handle os = (if \<not> opened os then Inl Open_failed else Inr ())"

text \<open>The read half: an empty file is a cold start, and without a reader recovery is skipped.\<close>

definition recovered_calls :: "('r \<Rightarrow> nat \<Rightarrow> bytes option \<times> 'r) \<Rightarrow> ('r, 'w) wal_os \<Rightarrow> nat \<Rightarrow> wal_call list option" where
  "recovered_calls rd os fileSize =
     (if fileSize > 0 then
        (case reader os of None \<Rightarrow> Some [] | Some r \<Rightarrow> wal_recover rd fileSize r)
      else Some [])"

text \<open>The write half: a writer is needed, a failed seek to the end is only reported.\<close>

definition open_writer :: "('r, 'w) wal_os \<Rightarrow> startup_error + 'w" where
  "open_writer os =
     (case writer os of
        None \<Rightarrow> Inl Writer_failed
      | Some w \<Rightarrow> Inr (case seek_end os w of Some w' \<Rightarrow> w' | None \<Rightarrow> w))"

text \<open>The constructor of the engine. The outer \<open>None\<close> would be a recovery that does not end.\<close>

definition engine_start :: "('b, 'w) env \<Rightarrow> ('r \<Rightarrow> nat \<Rightarrow> bytes option \<times> 'r) \<Rightarrow> ('r, 'w) wal_os \<Rightarrow> u32 \<Rightarrow>
    (startup_error + ('b, 'w) engine) option" where
  "engine_start E rd os node =
     (case file_handle os of
        Inl e \<Rightarrow> Some (Inl e)
      | Inr _ \<Rightarrow>
          (case file_size os of
             None \<Rightarrow> Some (Inl Size_failed)
           | Some n \<Rightarrow>
               (case recovered_calls rd os n of
                  None \<Rightarrow> None
                | Some calls \<Rightarrow>
                    (case open_writer os of
                       Inl e \<Rightarrow> Some (Inl e)
                     | Inr w \<Rightarrow> Some (Inr \<lparr>db = fold (replay E) calls store_init, wal = w, eclock = hlc_init node\<rparr>)))))"

text \<open>\<^verbatim>\<open>flush\<close> does nothing before recovery has created the writer; a failed flush is only reported.\<close>

definition wal_flush :: "('w \<Rightarrow> bool \<times> 'w) \<Rightarrow> 'w option \<Rightarrow> 'w option" where
  "wal_flush do_flush w = map_option (\<lambda>w. snd (do_flush w)) w"

section \<open>Properties\<close>

lemma recover_prefix:
  assumes "\<forall>b \<in> set bs. fits_batch b" "length (log_bytes bs) < 2 ^ 64" "f = take n (log_bytes bs)"
  shows "wal_recover storage_read (length f) (f, 0) = Some (log_calls (complete_prefix n bs))"
proof -
  have "storage_ok (f, 0)" "storage_rest (f, 0) = f"
    using assms(2,3) by (auto simp: storage_ok_def storage_rest_def min_def)
  from storage.wal_recover_scan [OF this(1)] this(2) scan_cut_log [OF assms(1), of n] assms(3) show ?thesis
    by simp
qed

text \<open>Start-up on every branch. On a file with any prefix of a log, the constructor ends. It fails
  if the file cannot be opened or measured, or if there is no writer; otherwise it gives an engine
  with exactly the complete batches of the file replayed. Only a failed creation of the reader
  leads to an engine that ignores the file and starts empty.\<close>

lemma engine_start_branches:
  assumes "\<forall>b \<in> set bs. fits_batch b" and "length (log_bytes bs) < 2 ^ 64" and "f = take n (log_bytes bs)"
    and "file_size os = None \<or> file_size os = Some (length f)" and "reader os = None \<or> reader os = Some (f, 0)"
  shows "engine_start E storage_read os node = Some
    (if \<not> opened os then Inl Open_failed
     else if file_size os = None then Inl Size_failed
     else if writer os = None then Inl Writer_failed
     else Inr \<lparr>db = (if reader os = None then store_init
                      else fold (replay E) (log_calls (complete_prefix n bs)) store_init),
               wal = (case seek_end os (the (writer os)) of Some w \<Rightarrow> w | None \<Rightarrow> the (writer os)),
               eclock = hlc_init node\<rparr>)"
proof -
  have "wal_recover storage_read (length f) (f, 0) = Some (log_calls (complete_prefix n bs))"
    by (rule recover_prefix [OF assms(1-3)])
  then have "file_size os = Some m \<Longrightarrow>
      recovered_calls storage_read os m = Some (if reader os = None then [] else log_calls (complete_prefix n bs))" for m
    using assms(4,5) by (auto simp: recovered_calls_def wal_recover_def split: if_splits)
  then show ?thesis by (auto simp: engine_start_def open_writer_def split: option.splits)
qed

text \<open>With no reader a log full of data is started as an empty store, and the first write goes on
  from there.\<close>

lemma reader_failure_starts_empty:
  assumes "opened os" "file_size os = Some n" "reader os = None" "writer os = Some w"
  shows "\<exists>en. engine_start E rd os node = Some (Inr en) \<and> db en = store_init"
  using assms by (simp add: engine_start_def recovered_calls_def open_writer_def)

end
