(* ===== verification/Mesh.thy ===== *)
theory Mesh
  imports L3_Prelude
begin

text \<open>
  \<^verbatim>\<open>engine/mesh.hpp\<close> and \<^verbatim>\<open>engine/mesh.cpp\<close>: lanes, framing, the outgoing queue of a connection
  with its single write in flight, the read loop, and the table of peers. The sockets and the
  executor of \<^verbatim>\<open>boost::asio\<close> are outside: the model has one step for each completion they
  report. Messages are handed on with the lane number that stood in the frame; the sender is
  always reported as node 0, as in the code.
\<close>

section \<open>Lanes and frames\<close>

datatype Lane = Control | Express | Standard | Heavy

fun lane_code :: "Lane \<Rightarrow> u32" where
  "lane_code Control = 0"
| "lane_code Express = 1"
| "lane_code Standard = 2"
| "lane_code Heavy = 3"

definition lane_to_string :: "u32 \<Rightarrow> string" where
  "lane_to_string l =
     (if l = lane_code Control then ''control''
      else if l = lane_code Express then ''express''
      else if l = lane_code Standard then ''standard''
      else if l = lane_code Heavy then ''heavy''
      else ''unknown'')"

text \<open>Frame: \<^verbatim>\<open>[Lane:4][Size:4][Body...]\<close>.\<close>

definition frame_bytes :: "Lane \<Rightarrow> bytes \<Rightarrow> bytes" where
  "frame_bytes lane payload =
     put32 (lane_code lane) @ put32 (word_of_nat (length payload)) @ payload"

section \<open>The outgoing half of a connection\<close>

text \<open>
  \<open>outbox\<close> is the deque of frames, whose front is the frame being written; \<open>in_flight\<close> says that an
  \<^verbatim>\<open>async_write\<close> is pending; \<open>socket_out\<close> is what has been written so far.
\<close>

record conn =
  outbox :: "bytes list"
  in_flight :: bool
  socket_out :: bytes

text \<open>An outbound connection first writes its node id (\<^verbatim>\<open>do_send_id\<close>); that write does not go
  through the queue, and the state here is the one after it. The theory \<open>Connection\<close> has the write itself.\<close>

definition conn_start :: "u32 \<Rightarrow> conn" where
  "conn_start my_id = \<lparr>outbox = [], in_flight = False, socket_out = put32 my_id\<rparr>"

definition do_write :: "conn \<Rightarrow> conn" where
  "do_write c = c\<lparr>in_flight := True\<rparr>"

definition conn_send :: "bytes \<Rightarrow> conn \<Rightarrow> conn" where
  "conn_send p c =
     (let write_in_progress = (outbox c \<noteq> []);
          c' = c\<lparr>outbox := outbox c @ [p]\<rparr>
      in if \<not> write_in_progress then do_write c' else c')"

text \<open>Completion of the pending write; on an error nothing more happens.\<close>

definition write_done :: "bool \<Rightarrow> conn \<Rightarrow> conn" where
  "write_done ec c =
     (if \<not> ec then
        (let c' = c\<lparr>socket_out := socket_out c @ hd (outbox c), outbox := tl (outbox c), in_flight := False\<rparr>
         in if outbox c' \<noteq> [] then do_write c' else c')
      else c\<lparr>in_flight := False\<rparr>)"

section \<open>The incoming half\<close>

text \<open>
  \<^verbatim>\<open>do_read_header\<close> and \<^verbatim>\<open>do_read_body\<close> over the bytes that arrive until the stream ends: every
  complete frame is handed to the callback as (lane, body). A header is taken at its word: the
  allocation of the announced size, which may throw \<^verbatim>\<open>std::bad_alloc\<close>, always succeeds here.
\<close>

function read_loop :: "bytes \<Rightarrow> (u32 \<times> bytes) list" where
  "read_loop s =
     (if length s < 8 then []
      else let lane = get32 s; size = unat (get32 (drop 4 s)); body = drop 8 s in
        if length body < size then []
        else (lane, take size body) # read_loop (drop size body))"
  by pat_completeness auto
termination by (relation "measure length") auto

declare read_loop.simps [simp del]

text \<open>An inbound connection reads the peer's id first.\<close>

definition read_stream :: "bytes \<Rightarrow> (u32 \<times> (u32 \<times> bytes) list) option" where
  "read_stream s = (if length s < 4 then None else Some (get32 s, read_loop (drop 4 s)))"

section \<open>The table of peers\<close>

record mesh =
  my_id :: u32
  peers :: "u32 \<Rightarrow> conn option"
  latency_ms :: int
  delayed :: "(u32 \<times> bytes) list"

definition mesh_init :: "u32 \<Rightarrow> mesh" where
  "mesh_init n = \<lparr>my_id = n, peers = (\<lambda>_. None), latency_ms = 0, delayed = []\<rparr>"

text \<open>\<^verbatim>\<open>connect\<close> once the socket is connected; an earlier connection to that peer is replaced, and
  the delayed frames it still has a claim on leave with it.\<close>

definition mesh_connect :: "u32 \<Rightarrow> mesh \<Rightarrow> mesh" where
  "mesh_connect peer_id m = m\<lparr>peers := (peers m)(peer_id \<mapsto> conn_start (my_id m)),
       delayed := filter (\<lambda>(p, f). p \<noteq> peer_id) (delayed m)\<rparr>"

definition mesh_send :: "u32 \<Rightarrow> Lane \<Rightarrow> bytes \<Rightarrow> mesh \<Rightarrow> bool \<times> mesh" where
  "mesh_send peer_id lane payload m =
     (case peers m peer_id of
        None \<Rightarrow> (False, m)
      | Some c \<Rightarrow>
          (let frame = frame_bytes lane payload in
           if latency_ms m > 0 then (True, m\<lparr>delayed := delayed m @ [(peer_id, frame)]\<rparr>)
           else (True, m\<lparr>peers := (peers m)(peer_id \<mapsto> conn_send frame c)\<rparr>)))"

text \<open>The timer of the \<open>i\<close>-th delayed frame fires (the simulated-latency path). The frame goes to the
  connection the peer entry holds.\<close>

definition timer_fires :: "nat \<Rightarrow> mesh \<Rightarrow> mesh" where
  "timer_fires i m =
     (if i < length (delayed m) then
        (case delayed m ! i of (p, f) \<Rightarrow>
           (let m' = m\<lparr>delayed := take i (delayed m) @ drop (Suc i) (delayed m)\<rparr> in
            case peers m' p of
              None \<Rightarrow> m'
            | Some c \<Rightarrow> m'\<lparr>peers := (peers m')(p \<mapsto> conn_send f c)\<rparr>))
      else m)"

text \<open>A completion of a write on the connection of a peer.\<close>

definition mesh_write_done :: "bool \<Rightarrow> u32 \<Rightarrow> mesh \<Rightarrow> mesh" where
  "mesh_write_done ec p m =
     (case peers m p of
        None \<Rightarrow> m
      | Some c \<Rightarrow> if in_flight c then m\<lparr>peers := (peers m)(p \<mapsto> write_done ec c)\<rparr> else m)"

definition active_peer :: "mesh \<Rightarrow> u32 \<Rightarrow> bool" where
  "active_peer m p \<longleftrightarrow> peers m p \<noteq> None"

section \<open>Events of a connection\<close>

datatype conn_event = Sent Lane bytes | Written

fun conn_step :: "conn_event \<Rightarrow> conn \<Rightarrow> conn" where
  "conn_step (Sent lane p) c = conn_send (frame_bytes lane p) c"
| "conn_step Written c = (if in_flight c then write_done False c else c)"

definition conn_run :: "conn_event list \<Rightarrow> conn \<Rightarrow> conn" where
  "conn_run evs c = fold conn_step evs c"

definition sent :: "conn_event list \<Rightarrow> (Lane \<times> bytes) list" where
  "sent evs = concat (map (\<lambda>e. case e of Sent l p \<Rightarrow> [(l, p)] | Written \<Rightarrow> []) evs)"

abbreviation frames :: "(Lane \<times> bytes) list \<Rightarrow> bytes" where
  "frames ms \<equiv> concat (map (\<lambda>(l, p). frame_bytes l p) ms)"

text \<open>The queue invariant: what is written and what waits is the sequence of frames, cut between
  two of them, and a write is pending exactly while the queue is not empty.\<close>

definition conn_inv :: "u32 \<Rightarrow> (Lane \<times> bytes) list \<Rightarrow> conn \<Rightarrow> bool" where
  "conn_inv node ms c \<longleftrightarrow> length (outbox c) \<le> length ms \<and> (in_flight c \<longleftrightarrow> outbox c \<noteq> []) \<and>
     (let k = length ms - length (outbox c) in
      socket_out c = put32 node @ frames (take k ms) \<and>
      outbox c = map (\<lambda>(l, p). frame_bytes l p) (drop k ms))"

lemma conn_inv_start: "conn_inv node [] (conn_start node)"
  by (simp add: conn_inv_def conn_start_def)

lemma conn_inv_send:
  assumes "conn_inv node ms c"
  shows "conn_inv node (ms @ [(l, p)]) (conn_send (frame_bytes l p) c)"
proof -
  have "Suc (length ms) - Suc (length (outbox c)) = length ms - length (outbox c)" by simp
  then show ?thesis
    using assms by (auto simp: conn_inv_def conn_send_def do_write_def Let_def)
qed

lemma conn_inv_written:
  assumes "conn_inv node ms c" "in_flight c"
  shows "conn_inv node ms (write_done False c)"
proof -
  define k where "k = length ms - length (outbox c)"
  have c: "outbox c \<noteq> []" "length (outbox c) \<le> length ms" "socket_out c = put32 node @ frames (take k ms)"
    "outbox c = map (\<lambda>(l, p). frame_bytes l p) (drop k ms)"
    using assms by (auto simp: conn_inv_def Let_def k_def)
  then have k: "k < length ms" by auto
  then have hd: "hd (outbox c) = (\<lambda>(l, p). frame_bytes l p) (ms ! k)"
    "tl (outbox c) = map (\<lambda>(l, p). frame_bytes l p) (drop (Suc k) ms)"
    using c(4) by (simp_all add: hd_map hd_drop_conv_nth map_tl [symmetric] drop_Suc tl_drop)
  have "length ms - length (tl (outbox c)) = Suc k" using c(1,2) k_def k by auto
  moreover have "frames (take (Suc k) ms) = frames (take k ms) @ (\<lambda>(l, p). frame_bytes l p) (ms ! k)"
    using k by (simp add: take_Suc_conv_app_nth)
  ultimately show ?thesis
    using c(1-3) hd by (auto simp: conn_inv_def write_done_def do_write_def Let_def)
qed

lemma conn_inv_step:
  "conn_inv node ms c \<Longrightarrow> conn_inv node (ms @ sent [e]) (conn_step e c)"
  by (cases e) (auto simp: sent_def conn_inv_send conn_inv_written)

lemma conn_inv_run: "conn_inv node ms c \<Longrightarrow> conn_inv node (ms @ sent evs) (conn_run evs c)"
proof (induction evs arbitrary: ms c)
  case (Cons e evs)
  have "sent (e # evs) = sent [e] @ sent evs" by (simp add: sent_def)
  with Cons.IH [OF conn_inv_step [OF Cons.prems, of e]] show ?case by (simp add: conn_run_def)
qed (simp add: conn_run_def sent_def)

text \<open>Each completed write shortens the queue by one.\<close>

lemma conn_run_append: "conn_run (xs @ ys) c = conn_run ys (conn_run xs c)"
  by (simp add: conn_run_def)

lemma sent_written [simp]: "sent (xs @ replicate n Written) = sent xs"
  by (simp add: sent_def)

lemma conn_queue_shrinks:
  assumes "conn_inv node ms c"
  shows "length (outbox (conn_run (replicate n Written) c)) = length (outbox c) - n"
  using assms
proof (induction n arbitrary: c)
  case (Suc n)
  have "in_flight c \<longleftrightarrow> outbox c \<noteq> []" using Suc.prems by (simp add: conn_inv_def)
  then have "length (outbox (conn_step Written c)) = length (outbox c) - 1"
    by (cases "outbox c") (simp_all add: write_done_def do_write_def Let_def)
  moreover have "conn_inv node ms (conn_step Written c)"
    using conn_inv_step [OF Suc.prems, of Written] by (simp add: sent_def)
  ultimately show ?case using Suc.IH [of "conn_step Written c"] by (simp add: conn_run_def)
qed (simp add: conn_run_def)

section \<open>Reading frames back\<close>

lemma read_loop_frame:
  "length p < 4294967296 \<Longrightarrow> read_loop (frame_bytes l p @ s) = (lane_code l, p) # read_loop s"
  by (subst read_loop.simps) (simp add: frame_bytes_def Let_def)

lemma read_loop_torn:
  assumes "length p < 4294967296" "k < length (frame_bytes l p)"
  shows "read_loop (take k (frame_bytes l p)) = []"
proof (cases "k < 8")
  case True
  then have "length (take k (frame_bytes l p)) < 8" by (simp add: min_def)
  then show ?thesis by (subst read_loop.simps) (simp only: if_True)
next
  case False
  then have "take 8 (drop 4 (take k (frame_bytes l p))) = put32 (word_of_nat (length p)) @ take (min 4 (k - 8)) p"
    by (simp add: frame_bytes_def drop_take min_def take_drop)
  then have "get32 (drop 4 (take k (frame_bytes l p))) = word_of_nat (length p)"
    using False by (simp add: get32_def frame_bytes_def drop_take min_def put32_def le_nat_nat_le)
       (use assms(1) in \<open>simp add: unat_of_nat\<close>)
  then show ?thesis
    using False assms by (subst read_loop.simps) (simp add: Let_def frame_bytes_def)
qed

lemma read_loop_frames:
  assumes "\<forall>(l, p) \<in> set ms. length p < 4294967296"
  shows "read_loop (frames ms @ s) = map (\<lambda>(l, p). (lane_code l, p)) ms @ read_loop s"
  using assms by (induction ms) (auto simp: read_loop_frame)

lemma frame_at_end:
  assumes "\<forall>(l, p) \<in> set ms. length p < 4294967296" "length p < 4294967296" "k < length (frame_bytes l p)"
  shows "read_stream (put32 node @ frames ms @ take k (frame_bytes l p)) =
    Some (node, map (\<lambda>(l, p). (lane_code l, p)) ms)"
  using read_loop_frames [OF assms(1), of "take k (frame_bytes l p)"] read_loop_torn [OF assms(2,3)]
  by (simp add: read_stream_def)

section \<open>Properties\<close>

text \<open>Ordered delivery with one write in flight. After any interleaving of sends and completed
  writes on a connection, a write is pending exactly while frames wait, and the peer that reads
  the socket has received exactly the first messages sent, in order and without loss or
  repetition: all but those still in the queue.\<close>

theorem conn_delivers_in_order:
  assumes "\<forall>(l, p) \<in> set (sent evs). length p < 4294967296" and "c = conn_run evs (conn_start node)"
  shows "(in_flight c \<longleftrightarrow> outbox c \<noteq> []) \<and>
    read_stream (socket_out c) =
      Some (node, map (\<lambda>(l, p). (lane_code l, p)) (take (length (sent evs) - length (outbox c)) (sent evs)))"
proof -
  let ?k = "length (sent evs) - length (outbox c)"
  have inv: "conn_inv node (sent evs) c"
    using conn_inv_run [OF conn_inv_start, of node evs] assms(2) by simp
  have "\<forall>(l, p) \<in> set (take ?k (sent evs)). length p < 4294967296"
    using assms(1) by (auto dest: in_set_takeD)
  from frame_at_end [OF this, of "[]" 0 Control] inv show ?thesis
    by (simp add: conn_inv_def Let_def frame_bytes_def)
qed

theorem conn_delivers_in_order_witness:
  "read_stream (socket_out (conn_run [Sent Control [1], Sent Heavy [2], Written] (conn_start 3))) =
   Some (3, [(0, [1])])"
  using conn_delivers_in_order [of "[Sent Control [1], Sent Heavy [2], Written]" _ 3, OF _ refl]
  by (simp add: sent_def conn_run_def conn_send_def conn_start_def do_write_def write_done_def Let_def)

text \<open>C26: queued messages arrive. After any interleaving of sends and completed writes, once as many
  further writes complete as frames are waiting, the queue is empty, no write is pending and the
  peer has received every message sent, in order.\<close>

theorem conn_drains:
  assumes "\<forall>(l, p) \<in> set (sent evs). length p < 4294967296"
    and "length (outbox (conn_run evs (conn_start node))) \<le> n"
    and "c = conn_run (evs @ replicate n Written) (conn_start node)"
  shows "outbox c = [] \<and> \<not> in_flight c \<and>
    read_stream (socket_out c) = Some (node, map (\<lambda>(l, p). (lane_code l, p)) (sent evs))"
proof -
  have inv: "conn_inv node (sent evs) (conn_run evs (conn_start node))"
    using conn_inv_run [OF conn_inv_start, of node evs] by simp
  have empty: "outbox c = []"
    using conn_queue_shrinks [OF inv, of n] assms(2,3) by (simp add: conn_run_append)
  have "conn_inv node (sent evs) c"
    using conn_inv_run [OF conn_inv_start, of node "evs @ replicate n Written"] assms(3) by simp
  with empty frame_at_end [OF assms(1), of "[]" 0 Control node] show ?thesis
    by (simp add: conn_inv_def Let_def frame_bytes_def)
qed

theorem conn_drains_witness:
  "read_stream (socket_out (conn_run ([Sent Control [1], Sent Heavy [2]] @ replicate 2 Written) (conn_start 3))) =
   Some (3, [(0, [1]), (3, [2])])"
  using conn_drains [of "[Sent Control [1], Sent Heavy [2]]" 3 2, OF _ _ refl]
  by (simp add: sent_def conn_run_def conn_send_def conn_start_def do_write_def write_done_def Let_def)

text \<open>A failed write silences the connection for good. The header promises that \<^verbatim>\<open>send\<close> returns
  false for a disconnected peer, but after a write error every send to that peer still returns
  true, no write is ever started again and nothing more reaches the socket.\<close>

fun mesh_sends :: "(Lane \<times> bytes) list \<Rightarrow> u32 \<Rightarrow> mesh \<Rightarrow> bool list \<times> mesh" where
  "mesh_sends [] q m = ([], m)"
| "mesh_sends ((l, p) # ms) q m =
     (let (ok, m1) = mesh_send q l p m; (oks, m2) = mesh_sends ms q (mesh_write_done False q m1)
      in (ok # oks, m2))"

lemma mesh_sends_dead:
  "peers m q = Some c \<Longrightarrow> latency_ms m = 0 \<Longrightarrow> \<not> in_flight c \<Longrightarrow> outbox c \<noteq> [] \<Longrightarrow>
   \<exists>c'. fst (mesh_sends ms q m) = replicate (length ms) True \<and> peers (snd (mesh_sends ms q m)) q = Some c' \<and>
     socket_out c' = socket_out c \<and> \<not> in_flight c'"
proof (induction ms arbitrary: m c)
  case (Cons lp ms)
  obtain l p where lp: "lp = (l, p)" by force
  let ?c = "c\<lparr>outbox := outbox c @ [frame_bytes l p]\<rparr>"
  let ?m = "m\<lparr>peers := (peers m)(q \<mapsto> ?c)\<rparr>"
  have s: "mesh_send q l p m = (True, ?m)" "mesh_write_done False q ?m = ?m"
    using Cons.prems by (simp_all add: mesh_send_def conn_send_def mesh_write_done_def Let_def)
  from Cons.IH [of ?m ?c] Cons.prems show ?case by (simp add: lp s case_prod_beta)
qed simp

theorem send_true_after_write_error:
  assumes "peers m q = Some c" and "latency_ms m = 0" and "in_flight c" and "outbox c \<noteq> []"
    and "mesh_sends ms q (mesh_write_done True q m) = (oks, m')"
  shows "oks = replicate (length ms) True \<and>
    (\<exists>c'. peers m' q = Some c' \<and> socket_out c' = socket_out c \<and> \<not> in_flight c')"
  using mesh_sends_dead [of "mesh_write_done True q m" q "write_done True c" ms] assms
  by (simp add: mesh_write_done_def write_done_def)

theorem send_true_after_write_error_witness:
  "\<exists>m'. mesh_sends [(Control, [1]), (Heavy, [2])] 7
       (mesh_write_done True 7 (snd (mesh_send 7 Control [9] (mesh_connect 7 (mesh_init 1))))) = ([True, True], m')"
proof -
  let ?m = "snd (mesh_send 7 Control [9] (mesh_connect 7 (mesh_init 1)))"
  let ?c = "conn_send (frame_bytes Control [9]) (conn_start 1)"
  obtain oks m' where r: "mesh_sends [(Control, [1]), (Heavy, [2])] 7 (mesh_write_done True 7 ?m) = (oks, m')"
    by force
  have "peers ?m 7 = Some ?c" "latency_ms ?m = 0" "in_flight ?c" "outbox ?c \<noteq> []"
    by (simp_all add: mesh_send_def mesh_connect_def mesh_init_def conn_send_def conn_start_def do_write_def Let_def)
  from send_true_after_write_error [OF this r] r show ?thesis by (simp add: numeral_2_eq_2)
qed

end
