(* ===== verification/Sync.thy ===== *)
theory Sync
  imports Engine Mesh "HOL-Library.Monad_Syntax"
begin

text \<open>
  \<^verbatim>\<open>engine/sync_manager.hpp\<close>: anti-entropy between nodes. A node gossips the root of its Merkle
  tree; a peer whose root differs asks for the sixteen children of a node, level by level, then
  for the keys of the differing buckets, then for the documents. Every handler takes the message
  and the engine and returns the messages it sends, as (target, lane, payload), with the engine
  it leaves; \<open>None\<close> marks undefined behaviour (a read outside a buffer or a vector).
  The callback that \<^verbatim>\<open>main.cpp\<close> installs on the mesh is here too.
\<close>

type_synonym sends = "(u32 \<times> Lane \<times> bytes) list"

section \<open>Message types\<close>

datatype MsgType = SYNC_INIT | SYNC_REQ_NODE | SYNC_REP_NODE | SYNC_REQ_BUCKET | SYNC_REP_BUCKET
  | SYNC_GET_VAL | SYNC_PUT_VAL

fun msg_code :: "MsgType \<Rightarrow> byte" where
  "msg_code SYNC_INIT = 1"
| "msg_code SYNC_REQ_NODE = 2"
| "msg_code SYNC_REP_NODE = 3"
| "msg_code SYNC_REQ_BUCKET = 4"
| "msg_code SYNC_REP_BUCKET = 5"
| "msg_code SYNC_GET_VAL = 6"
| "msg_code SYNC_PUT_VAL = 7"

section \<open>The engine's Merkle tree\<close>

definition get_merkle_root_hash :: "('b, 'w) engine \<Rightarrow> u64 \<times> ('b, 'w) engine" where
  "get_merkle_root_hash en =
     (let (h, t) = get_root_hash (tree (db en)) in (h, en\<lparr>db := (db en)\<lparr>tree := t\<rparr>\<rparr>))"

definition get_merkle_node :: "('b, 'w) engine \<Rightarrow> byte \<Rightarrow> u32 \<Rightarrow> u64 option" where
  "get_merkle_node en level index = get_node_hash (tree (db en)) (uint level) (unat index)"

section \<open>Gossip and drill-down\<close>

definition send_sync_init :: "u32 \<Rightarrow> u32 \<Rightarrow> ('b, 'w) engine \<Rightarrow> sends \<times> ('b, 'w) engine" where
  "send_sync_init me target en =
     (let (root, en') = get_merkle_root_hash en
      in ([(target, Control, [msg_code SYNC_INIT] @ put32 me @ put64 root)], en'))"

text \<open>\<^verbatim>\<open>trigger_gossip\<close>: one random peer, or nobody. The random choice is the argument \<open>pick\<close>.\<close>

definition trigger_gossip :: "u32 \<Rightarrow> u32 list \<Rightarrow> nat \<Rightarrow> ('b, 'w) engine \<Rightarrow> sends \<times> ('b, 'w) engine" where
  "trigger_gossip me ps pick en =
     (if ps \<noteq> [] then send_sync_init me (ps ! (pick mod length ps)) en else ([], en))"

definition send_req_node :: "u32 \<Rightarrow> u32 \<Rightarrow> byte \<Rightarrow> u32 \<Rightarrow> sends" where
  "send_req_node me to level idx_base =
     [(to, Control, [msg_code SYNC_REQ_NODE] @ put32 me @ [level] @ put32 idx_base)]"

definition on_sync_init :: "u32 \<Rightarrow> u32 \<Rightarrow> bytes \<Rightarrow> ('b, 'w) engine \<Rightarrow> sends \<times> ('b, 'w) engine" where
  "on_sync_init me from buf en =
     (if length buf < 13 then ([], en)
      else
        (let their_root = get64 (drop 5 buf);
             (my_root, en') = get_merkle_root_hash en
         in if my_root = their_root then ([], en') else (send_req_node me from 1 0, en')))"

text \<open>\<^verbatim>\<open>parent_idx * 16 + i\<close> is computed in 32 bits.\<close>

definition child_idx :: "u32 \<Rightarrow> nat \<Rightarrow> u32" where
  "child_idx parent_idx i = parent_idx * 16 + word_of_nat i"

definition on_req_node :: "u32 \<Rightarrow> u32 \<Rightarrow> bytes \<Rightarrow> ('b, 'w) engine \<Rightarrow> sends option" where
  "on_req_node me from buf en =
     (if length buf < 10 then Some []
      else
        (let level = buf ! 5; parent_idx = get32 (drop 6 buf) in
         case those (map (\<lambda>i. get_merkle_node en level (child_idx parent_idx i)) [0..<16]) of
           None \<Rightarrow> None
         | Some hs \<Rightarrow>
             Some [(from, Control,
               [msg_code SYNC_REP_NODE] @ put32 me @ [level] @ [0, 0, 0] @ put32 parent_idx @
               concat (map put64 hs))]))"

definition send_req_bucket :: "u32 \<Rightarrow> u32 \<Rightarrow> u32 \<Rightarrow> sends" where
  "send_req_bucket me to bkt =
     [(to, Control, [msg_code SYNC_REQ_BUCKET] @ put32 me @ put32 bkt)]"

text \<open>One round of the loop over the sixteen children; the read of the peer's hash is unchecked.\<close>

definition rep_child :: "u32 \<Rightarrow> u32 \<Rightarrow> bytes \<Rightarrow> ('b, 'w) engine \<Rightarrow> byte \<Rightarrow> u32 \<Rightarrow> nat \<Rightarrow> sends option" where
  "rep_child me from buf en level parent_idx i =
     (if length buf < 13 + i * 8 + 8 then None
      else
        (let their_h = get64 (drop (13 + i * 8) buf); c = child_idx parent_idx i in
         case get_merkle_node en level c of
           None \<Rightarrow> None
         | Some my_h \<Rightarrow>
             Some (if my_h \<noteq> their_h then
                     (if level = 4 then send_req_bucket me from c
                      else send_req_node me from (level + 1) c)
                   else [])))"

definition on_rep_node :: "u32 \<Rightarrow> u32 \<Rightarrow> bytes \<Rightarrow> ('b, 'w) engine \<Rightarrow> sends option" where
  "on_rep_node me from buf en =
     (if length buf < 13 then Some []
      else
        (let level = buf ! 5; parent_idx = get32 (drop 9 buf)
         in map_option concat (those (map (rep_child me from buf en level parent_idx) [0..<16]))))"

section \<open>Buckets\<close>

definition is_meta :: "bytes \<Rightarrow> bool" where
  "is_meta k \<longleftrightarrow> length k \<ge> 5 \<and> drop (length k - 5) k = lit '':meta''"

definition key_entry :: "bytes \<times> u64 \<Rightarrow> bytes" where
  "key_entry kh =
     (if is_meta (fst kh) then []
      else let klen = word_of_nat (length (fst kh)) :: u16
           in put16 klen @ take (unat klen) (fst kh) @ put64 (snd kh))"

definition on_req_bucket :: "('b, 'w) env \<Rightarrow> u32 \<Rightarrow> u32 \<Rightarrow> bytes \<Rightarrow> ('b, 'w) engine \<Rightarrow> sends" where
  "on_req_bucket E me from buf en =
     (if length buf < 9 then []
      else
        (let bkt = get32 (drop 5 buf);
             keys = get_bucket_keys E (uint bkt) (db en)
         in [(from, Heavy,
              [msg_code SYNC_REP_BUCKET] @ put32 me @ put32 bkt @
              put32 (word_of_nat (length keys)) @ concat (map key_entry keys))]))"

definition send_get_val :: "u32 \<Rightarrow> u32 \<Rightarrow> bytes \<Rightarrow> sends" where
  "send_get_val me to key = [(to, Heavy, [msg_code SYNC_GET_VAL] @ put32 me @ key)]"

definition local_hash :: "('b, 'w) env \<Rightarrow> bytes \<Rightarrow> ('b, 'w) engine \<Rightarrow> u64" where
  "local_hash E key en =
     (let local_buf = get E key (db en) in
      if length (buf_data E local_buf) > 0 then fnv1a_64 (buf_data E local_buf) else 0)"

text \<open>The loop over the listed keys, on the bytes from \<^verbatim>\<open>pos\<close> on.\<close>

fun rep_bucket_loop :: "('b, 'w) env \<Rightarrow> u32 \<Rightarrow> u32 \<Rightarrow> ('b, 'w) engine \<Rightarrow> nat \<Rightarrow> bytes \<Rightarrow> sends" where
  "rep_bucket_loop E me from en 0 p = []"
| "rep_bucket_loop E me from en (Suc n) p =
     (if length p < 10 then []
      else let klen = unat (get16 p) in
        if length p < 2 + klen + 8 then []
        else let key = take klen (drop 2 p); their_h = get64 (drop (2 + klen) p) in
          (if local_hash E key en \<noteq> their_h then send_get_val me from key else []) @
          rep_bucket_loop E me from en n (drop (2 + klen + 8) p))"

definition on_rep_bucket :: "('b, 'w) env \<Rightarrow> u32 \<Rightarrow> u32 \<Rightarrow> bytes \<Rightarrow> ('b, 'w) engine \<Rightarrow> sends" where
  "on_rep_bucket E me from buf en =
     (if length buf < 13 then []
      else rep_bucket_loop E me from en (unat (get32 (drop 9 buf))) (drop 13 buf))"

section \<open>Documents\<close>

definition on_get_val :: "('b, 'w) env \<Rightarrow> u32 \<Rightarrow> u32 \<Rightarrow> bytes \<Rightarrow> ('b, 'w) engine \<Rightarrow> sends" where
  "on_get_val E me from buf en =
     (if length buf < 5 then []
      else
        (let key = drop 5 buf; meta_s = buf_data E (get E (meta_key key) (db en)) in
         if length meta_s = 0 then []
         else
           [(from, Heavy,
             [msg_code SYNC_PUT_VAL] @ put32 me @
             put16 (word_of_nat (length key)) @ key @
             put16 (word_of_nat (length meta_s)) @ meta_s @
             buf_data E (get E key (db en)))]))"

text \<open>
  \<^verbatim>\<open>(int64_t)(double)v\<close>: an integer is rounded to 53 significant bits, ties to even.
\<close>

fun bit_count :: "nat \<Rightarrow> nat" where
  "bit_count n = (if n = 0 then 0 else Suc (bit_count (n div 2)))"

declare bit_count.simps [simp del]

definition via_double :: "int \<Rightarrow> int" where
  "via_double v =
     (let a = nat \<bar>v\<bar>; e = bit_count a - 53; q = a div 2 ^ e; r = a mod 2 ^ e;
          q' = (if 2 * r > 2 ^ e \<or> 2 * r = 2 ^ e \<and> odd q then q + 1 else q)
      in sgn v * int (if e = 0 then a else q' * 2 ^ e))"

definition num_field :: "('b, 'w) env \<Rightarrow> 'b \<Rightarrow> bytes \<Rightarrow> u32 option" where
  "num_field E buf f =
     do { ty \<leftarrow> buf_get_type E buf f;
          if ty = Int64 \<or> ty = Float64
          then do { v \<leftarrow> buf_get_i64 E buf f; Some (word_of_int v) }
          else Some 0 }"

text \<open>The wall time is the double cast to \<^verbatim>\<open>int64_t\<close>. Beyond 64 bits that cast is undefined in C++; here it keeps the
  number, so a statement about such a sidecar says nothing of the code.\<close>

definition wall_field :: "('b, 'w) env \<Rightarrow> 'b \<Rightarrow> int option" where
  "wall_field E buf =
     do { ty \<leftarrow> buf_get_type E buf (lit ''ts'');
          if ty = Float64 then buf_get_f64 E buf (lit ''ts'')
          else if ty = Int64 then do { v \<leftarrow> buf_get_i64 E buf (lit ''ts''); Some (via_double v) }
          else Some 0 }"

definition tombstone_field :: "('b, 'w) env \<Rightarrow> 'b \<Rightarrow> bool option" where
  "tombstone_field E buf =
     do { ty \<leftarrow> buf_get_type E buf (lit ''tombstone'');
          if ty = Bool then buf_get_bool E buf (lit ''tombstone'') else Some False }"

text \<open>Any exception gives the zero time stamp.\<close>

definition parse_meta :: "('b, 'w) env \<Rightarrow> bytes \<Rightarrow> Timestamp \<times> bool" where
  "parse_meta E meta_bytes =
     (if meta_bytes = [] then (Timestamp 0 0 0, False)
      else
        (let buf = buf_vec E meta_bytes in
         case do { w \<leftarrow> wall_field E buf; l \<leftarrow> num_field E buf (lit ''l'');
                   n \<leftarrow> num_field E buf (lit ''n''); t \<leftarrow> tombstone_field E buf;
                   Some (Timestamp w l n, t) } of
           Some p \<Rightarrow> p
         | None \<Rightarrow> (Timestamp 0 0 0, False)))"

definition put_val_mutation :: "('b, 'w) env \<Rightarrow> bytes \<Rightarrow> Mutation option" where
  "put_val_mutation E buf =
     (if length buf < 7 then None
      else let klen = unat (get16 (drop 5 buf)); p1 = drop 7 buf in
        if length p1 < klen then None
        else let key = take klen p1; p2 = drop klen p1 in
          if length p2 < 2 then None
          else let mlen = unat (get16 p2); p3 = drop 2 p2 in
            if length p3 < mlen then None
            else let meta = take mlen p3; val = drop mlen p3; (ts, tombstone) = parse_meta E meta
              in Some \<lparr>mut_timestamp = ts, mut_key = key, mut_value = val, is_delete = tombstone\<rparr>)"

definition on_put_val :: "('b, 'w) env \<Rightarrow> bytes \<Rightarrow> ('b, 'w) engine \<Rightarrow> ('b, 'w) engine" where
  "on_put_val E buf en =
     (case put_val_mutation E buf of None \<Rightarrow> en | Some m \<Rightarrow> snd (apply_mutation E m en))"

section \<open>Dispatch\<close>

definition handle_message :: "('b, 'w) env \<Rightarrow> u32 \<Rightarrow> bytes \<Rightarrow> ('b, 'w) engine \<Rightarrow>
    (sends \<times> ('b, 'w) engine) option" where
  "handle_message E me payload en =
     (if length payload < 5 then Some ([], en)
      else
        (let t = payload ! 0; sender_id = get32 (drop 1 payload) in
         if t = msg_code SYNC_INIT then Some (on_sync_init me sender_id payload en)
         else if t = msg_code SYNC_REQ_NODE then
           map_option (\<lambda>s. (s, en)) (on_req_node me sender_id payload en)
         else if t = msg_code SYNC_REP_NODE then
           map_option (\<lambda>s. (s, en)) (on_rep_node me sender_id payload en)
         else if t = msg_code SYNC_REQ_BUCKET then Some (on_req_bucket E me sender_id payload en, en)
         else if t = msg_code SYNC_REP_BUCKET then Some (on_rep_bucket E me sender_id payload en, en)
         else if t = msg_code SYNC_GET_VAL then Some (on_get_val E me sender_id payload en, en)
         else if t = msg_code SYNC_PUT_VAL then Some ([], on_put_val E payload en)
         else Some ([], en)))"

text \<open>The callback of \<^verbatim>\<open>main.cpp\<close>.\<close>

definition on_message :: "('b, 'w) env \<Rightarrow> u32 \<Rightarrow> u32 \<Rightarrow> bytes \<Rightarrow> ('b, 'w) engine \<Rightarrow>
    (sends \<times> ('b, 'w) engine) option" where
  "on_message E me lane payload en =
     (if lane = lane_code Control then handle_message E me payload en else Some ([], en))"

section \<open>Bucket listings read back\<close>

lemma rep_bucket_nil [simp]: "rep_bucket_loop E me from en n [] = []"
  by (cases n) simp_all

definition wanted :: "('b, 'w) env \<Rightarrow> u32 \<Rightarrow> u32 \<Rightarrow> ('b, 'w) engine \<Rightarrow> (bytes \<times> u64) list \<Rightarrow> sends" where
  "wanted E me from en keys =
     concat (map (\<lambda>(k, h). if \<not> is_meta k \<and> local_hash E k en \<noteq> h then send_get_val me from k else []) keys)"

lemma rep_bucket_entries:
  "\<forall>(k, h) \<in> set keys. length k < 65536 \<Longrightarrow> length keys \<le> n \<Longrightarrow>
   rep_bucket_loop E me from en n (concat (map key_entry keys)) = wanted E me from en keys"
proof (induction keys arbitrary: n)
  case (Cons kh keys)
  obtain k h where kh: "kh = (k, h)" by force
  obtain n' where n: "n = Suc n'" using Cons.prems(2) by (cases n) auto
  have rest: "rep_bucket_loop E me from en m (concat (map key_entry keys)) = wanted E me from en keys"
    if "length keys \<le> m" for m using Cons that by auto
  show ?case
  proof (cases "is_meta k")
    case True
    then have "key_entry kh = []" by (simp add: kh key_entry_def)
    then show ?thesis using rest [of n] Cons.prems(2) True by (simp add: kh wanted_def)
  next
    case False
    then have "key_entry kh = put16 (word_of_nat (length k)) @ k @ put64 h"
      "unat (word_of_nat (length k) :: u16) = length k"
      using Cons.prems(1) by (simp_all add: kh key_entry_def Let_def)
    then show ?thesis
      using rest [of n'] Cons.prems(2) False by (simp add: kh n wanted_def Let_def)
  qed
qed (simp add: wanted_def)

section \<open>Repair of one document\<close>

lemma on_put_val_decode:
  assumes "length k < 65536" "length mb < 65536"
  shows "on_put_val E ([msg_code SYNC_PUT_VAL] @ put32 n @ put16 (word_of_nat (length k)) @ k @
      put16 (word_of_nat (length mb)) @ mb @ d) en =
    snd (apply_mutation E \<lparr>mut_timestamp = fst (parse_meta E mb), mut_key = k, mut_value = d,
      is_delete = snd (parse_meta E mb)\<rparr> en)"
  using assms by (simp add: on_put_val_def put_val_mutation_def Let_def case_prod_beta)

lemma overwrite_raw: "d = [] \<or> hd d \<notin> {123, 91} \<Longrightarrow> overwrite E d = buf_vec E d"
  by (auto simp: overwrite_def Let_def)

section \<open>Drill-down\<close>

text \<open>The levels of the reference tree, as the protocol numbers them.\<close>

definition ref_level :: "nat \<Rightarrow> u64 list \<Rightarrow> u64 list" where
  "ref_level l lv = (if l = 1 then ref_l1 lv else if l = 2 then ref_l2 lv else if l = 3 then ref_l3 lv else lv)"

text \<open>A node whose tree is up to date over the leaves \<open>lv\<close>.\<close>

definition exact_tree :: "u64 list \<Rightarrow> ('b, 'w) engine \<Rightarrow> bool" where
  "exact_tree lv en \<longleftrightarrow> length lv = 65536 \<and> tree (db en) = merkle_exact lv"

lemma length_ref_level: "length lv = 65536 \<Longrightarrow> l \<in> {1, 2, 3, 4} \<Longrightarrow> length (ref_level l lv) = 16 ^ l"
  by (auto simp: ref_level_def ref_l1_def ref_l2_def ref_l3_def)

lemma get_merkle_node_exact:
  assumes "exact_tree lv en" "l \<in> {1, 2, 3, 4}"
  shows "get_merkle_node en (word_of_nat l) c =
    (if unat c < 16 ^ l then Some (ref_level l lv ! unat c) else None)"
  using assms
  by (auto simp: get_merkle_node_def exact_tree_def get_node_hash_def vec_at_def merkle_exact_def
      ref_level_def ref_l1_def ref_l2_def ref_l3_def)

lemma child_idx_nat:
  assumes "p < 16 ^ (l - 1)" "l \<in> {1, 2, 3, 4}" "i < 16"
  shows "child_idx (word_of_nat p) i = word_of_nat (16 * p + i) \<and> 16 * p + i < 16 ^ l \<and>
    unat (word_of_nat (16 * p + i) :: u32) = 16 * p + i"
proof -
  have "16 * p + i < 16 ^ l \<and> 16 * p + i < 65536" using assms by auto
  moreover from this have "unat (word_of_nat (16 * p + i) :: u32) = 16 * p + i" by (intro unat_cast32) simp
  ultimately show ?thesis by (simp add: child_idx_def)
qed

lemma those_map_Some: "(\<And>x. x \<in> set xs \<Longrightarrow> f x = Some (g x)) \<Longrightarrow> those (map f xs) = Some (map g xs)"
  by (induction xs) auto

lemma those_None: "x \<in> set xs \<Longrightarrow> f x = None \<Longrightarrow> those (map f xs) = None"
  by (induction xs) (auto split: option.splits)

lemma get64_nth:
  assumes "i < length hs"
  shows "get64 (drop (8 * i) (concat (map put64 hs))) = hs ! i"
  using assms
proof (induction hs arbitrary: i)
  case (Cons h hs)
  then show ?case by (cases i) simp_all
qed simp

definition differ :: "nat \<Rightarrow> u64 list \<Rightarrow> u64 list \<Rightarrow> nat \<Rightarrow> bool" where
  "differ l la lb c \<longleftrightarrow> ref_level l la ! c \<noteq> ref_level l lb ! c"

definition next_request :: "u32 \<Rightarrow> u32 \<Rightarrow> nat \<Rightarrow> nat \<Rightarrow> sends" where
  "next_request me you l c =
     (if l = 4 then send_req_bucket me you (word_of_nat c)
      else send_req_node me you (word_of_nat (Suc l)) (word_of_nat c))"

abbreviation req_node :: "u32 \<Rightarrow> nat \<Rightarrow> nat \<Rightarrow> bytes" where
  "req_node me l p \<equiv> [msg_code SYNC_REQ_NODE] @ put32 me @ [word_of_nat l] @ put32 (word_of_nat p)"

abbreviation rep_node :: "u32 \<Rightarrow> nat \<Rightarrow> nat \<Rightarrow> u64 list \<Rightarrow> bytes" where
  "rep_node you l p hs \<equiv> [msg_code SYNC_REP_NODE] @ put32 you @ [word_of_nat l] @ [0, 0, 0] @
     put32 (word_of_nat p) @ concat (map put64 hs)"

lemma reply_to_request:
  assumes "exact_tree lb B" "l \<in> {1, 2, 3, 4}" "p < 16 ^ (l - 1)"
  shows "handle_message E you (req_node me l p) B =
    Some ([(me, Control, rep_node you l p (map (\<lambda>i. ref_level l lb ! (16 * p + i)) [0..<16]))], B)"
proof -
  have "those (map (\<lambda>i. get_merkle_node B (word_of_nat l) (child_idx (word_of_nat p) i)) [0..<16]) =
      Some (map (\<lambda>i. ref_level l lb ! (16 * p + i)) [0..<16])"
    by (rule those_map_Some)
       (use child_idx_nat [OF assms(3,2)] get_merkle_node_exact [OF assms(1,2)] in auto)
  then show ?thesis
    by (simp add: handle_message_def on_req_node_def Let_def nth_append)
qed

lemma length_concat_put64 [simp]: "length (concat (map put64 hs)) = 8 * length hs"
  by (induction hs) auto

lemma requests_from_reply:
  assumes "exact_tree la A" "l \<in> {1, 2, 3, 4}" "p < 16 ^ (l - 1)" "length hs = 16"
  shows "handle_message E me (rep_node you l p hs) A =
    Some (concat (map (\<lambda>i. if ref_level l la ! (16 * p + i) \<noteq> hs ! i
       then next_request me you l (16 * p + i) else []) [0..<16]), A)"
proof -
  let ?buf = "rep_node you l p hs"
  have buf: "?buf ! 5 = word_of_nat l" "get32 (drop 9 ?buf) = word_of_nat p" "length ?buf = 141"
    "get32 (drop 1 ?buf) = you"
    using assms(4) by (simp_all add: nth_append)
  have "rep_child me you ?buf A (word_of_nat l) (word_of_nat p) i =
      Some (if ref_level l la ! (16 * p + i) \<noteq> hs ! i then next_request me you l (16 * p + i) else [])"
    if i: "i < 16" for i
  proof -
    have "get64 (drop (13 + i * 8) ?buf) = hs ! i"
    proof -
      have "drop (13 + i * 8) ?buf = drop (8 * i) (drop 13 ?buf)"
        by (simp only: drop_drop add.commute mult.commute)
      also have "drop 13 ?buf = concat (map put64 hs)" by simp
      finally show ?thesis using get64_nth [of i hs] i assms(4) by simp
    qed
    moreover have "(word_of_nat l = (4 :: byte)) \<longleftrightarrow> l = 4" "word_of_nat l + 1 = (word_of_nat (Suc l) :: byte)"
      using assms(2) by auto
    ultimately show ?thesis
      using buf(3) i child_idx_nat [OF assms(3,2) i] get_merkle_node_exact [OF assms(1,2)]
      by (simp add: rep_child_def next_request_def Let_def add.commute)
  qed
  then have "those (map (rep_child me you ?buf A (word_of_nat l) (word_of_nat p)) [0..<16]) =
     Some (map (\<lambda>i. if ref_level l la ! (16 * p + i) \<noteq> hs ! i then next_request me you l (16 * p + i) else []) [0..<16])"
    by (intro those_map_Some) auto
  then have "on_rep_node me you ?buf A = Some (concat (map (\<lambda>i. if ref_level l la ! (16 * p + i) \<noteq> hs ! i
       then next_request me you l (16 * p + i) else []) [0..<16]))"
    unfolding on_rep_node_def buf Let_def by simp
  moreover have "?buf ! 0 = msg_code SYNC_REP_NODE" by simp
  ultimately show ?thesis
    unfolding handle_message_def buf Let_def by simp
qed

text \<open>
  The whole exchange between a requester \<open>A\<close> and a peer \<open>B\<close>, both quiet: every request goes to
  the peer, every reply back, until only bucket requests are left; their numbers are the result.
  Fuel counts the levels still to go.
\<close>

fun chase :: "('b, 'w) env \<Rightarrow> u32 \<Rightarrow> u32 \<Rightarrow> ('b, 'w) engine \<Rightarrow> ('b, 'w) engine \<Rightarrow> nat \<Rightarrow> bytes \<Rightarrow> u32 list option" where
  "chase E me you A B 0 req = None"
| "chase E me you A B (Suc n) req =
     (if req ! 0 = msg_code SYNC_REQ_BUCKET then Some [get32 (drop 5 req)]
      else
        (case handle_message E you req B of
           Some ([(_, _, rep)], _) \<Rightarrow>
             (case handle_message E me rep A of
                Some (reqs, _) \<Rightarrow>
                  map_option concat (those (map (\<lambda>r. chase E me you A B n (snd (snd r))) reqs))
              | None \<Rightarrow> None)
         | _ \<Rightarrow> None))"

text \<open>What the request for child \<open>c\<close> of level \<open>l\<close> leads to.\<close>

definition leads_to :: "('b, 'w) env \<Rightarrow> u32 \<Rightarrow> u32 \<Rightarrow> ('b, 'w) engine \<Rightarrow> ('b, 'w) engine \<Rightarrow>
    nat \<Rightarrow> bytes \<Rightarrow> nat set \<Rightarrow> bool" where
  "leads_to E me you A B n req S \<longleftrightarrow> (\<exists>r. chase E me you A B n req = Some r \<and> unat ` set r = S)"

lemma those_map_leads:
  "\<forall>r \<in> set rs. \<exists>x. f r = Some x \<and> g ` set x = S r \<Longrightarrow>
   \<exists>xs. those (map f rs) = Some xs \<and> g ` set (concat xs) = (\<Union>r \<in> set rs. S r)"
proof (induction rs)
  case (Cons r rs)
  then obtain x xs where "f r = Some x" "g ` set x = S r" "those (map f rs) = Some xs"
    "g ` set (concat xs) = (\<Union>r \<in> set rs. S r)" by auto
  then show ?case by (intro exI [of _ "x # xs"]) (auto simp: image_Un)
qed simp

lemma next_request_single: "[hd (next_request me you l c)] = next_request me you l c"
  by (simp add: next_request_def send_req_bucket_def send_req_node_def)

lemma concat_singletons: "concat (map (\<lambda>i. if P i then [g i] else []) xs) = map g (filter P xs)"
  by (induction xs) auto

lemma chase_level:
  assumes "exact_tree la A" "exact_tree lb B" "l \<in> {1, 2, 3, 4}" "p < 16 ^ (l - 1)"
    and sub: "\<And>c. c < 16 ^ l \<Longrightarrow> leads_to E me you A B n (snd (snd (hd (next_request me you l c)))) (S c)"
  shows "leads_to E me you A B (Suc n) (req_node me l p)
    (\<Union>i \<in> {i. i < 16 \<and> differ l la lb (16 * p + i)}. S (16 * p + i))"
proof -
  let ?hs = "map (\<lambda>i. ref_level l lb ! (16 * p + i)) [0..<16]"
  let ?is = "filter (\<lambda>i. differ l la lb (16 * p + i)) [0..<16]"
  let ?reqs = "concat (map (\<lambda>i. if ref_level l la ! (16 * p + i) \<noteq> ?hs ! i
       then next_request me you l (16 * p + i) else []) [0..<16])"
  have "?reqs = map (\<lambda>i. hd (next_request me you l (16 * p + i))) ?is"
  proof -
    have "?reqs = map (\<lambda>i. hd (next_request me you l (16 * p + i)))
        (filter (\<lambda>i. ref_level l la ! (16 * p + i) \<noteq> ?hs ! i) [0..<16])"
      unfolding concat_singletons [symmetric] next_request_single ..
    also have "filter (\<lambda>i. ref_level l la ! (16 * p + i) \<noteq> ?hs ! i) [0..<16] = ?is"
      by (rule filter_cong) (auto simp: differ_def)
    finally show ?thesis .
  qed
  moreover have "\<exists>x. chase E me you A B n (snd (snd (hd (next_request me you l (16 * p + i))))) = Some x \<and>
      unat ` set x = S (16 * p + i)" if "i \<in> set ?is" for i
    using sub [of "16 * p + i"] that child_idx_nat [OF assms(4,3), of i] by (auto simp: leads_to_def)
  ultimately have "\<exists>xs. those (map (\<lambda>r. chase E me you A B n (snd (snd r))) ?reqs) = Some xs \<and>
      unat ` set (concat xs) = (\<Union>i \<in> set ?is. S (16 * p + i))"
    using those_map_leads [of ?is "\<lambda>i. chase E me you A B n (snd (snd (hd (next_request me you l (16 * p + i)))))" unat
        "\<lambda>i. S (16 * p + i)"] by (simp add: comp_def)
  then show ?thesis
    using reply_to_request [OF assms(2-4), of E you me]
      requests_from_reply [OF assms(1,3,4), of ?hs E me you]
    by (auto simp: leads_to_def)
qed

lemma union_children:
  "0 < k \<Longrightarrow> (\<Union>i \<in> {i. i < 16 \<and> D (16 * p + i)}. {b. b div k = 16 * p + i \<and> Q b}) =
     {b. b div (k * 16) = p \<and> D (b div k) \<and> Q b}" for k p :: nat
proof -
  assume "0 < k"
  have "(\<exists>i < 16. D (16 * p + i) \<and> c = 16 * p + i) \<longleftrightarrow> c div 16 = p \<and> D c" for c
    by (auto intro!: exI [of _ "c mod 16"])
  then show ?thesis by (auto simp: div_mult2_eq)
qed

lemma leads_bucket:
  assumes "c < 65536"
  shows "leads_to E me you A B (Suc n) (snd (snd (hd (next_request me you 4 c)))) {b. b div 1 = c \<and> True}"
  using assms by (simp add: leads_to_def next_request_def send_req_bucket_def)

lemma leads_level:
  assumes "exact_tree la A" "exact_tree lb B" "l \<in> {1, 2, 3, 4}" "0 < k"
    and "\<And>c. c < 16 ^ l \<Longrightarrow>
      leads_to E me you A B n (snd (snd (hd (next_request me you l c)))) {b. b div k = c \<and> Q b}"
    and "p < 16 ^ (l - 1)"
  shows "leads_to E me you A B (Suc n) (req_node me l p) {b. b div (k * 16) = p \<and> differ l la lb (b div k) \<and> Q b}"
  using chase_level [OF assms(1-3,6,5)] union_children [OF assms(4), where D = "differ l la lb" and p = p and Q = Q] by simp

lemma next_request_node: "l \<noteq> 4 \<Longrightarrow> snd (snd (hd (next_request me you l c))) = req_node me (Suc l) c"
  by (simp add: next_request_def send_req_node_def)

lemma drill_result:
  assumes "exact_tree la A" "exact_tree lb B"
  shows "leads_to E me you A B 5 (req_node me 1 0)
    {b. b div 65536 = 0 \<and> differ 1 la lb (b div 4096) \<and> differ 2 la lb (b div 256) \<and>
        differ 3 la lb (b div 16) \<and> differ 4 la lb b}"
proof -
  let ?f1 = "Suc 0" let ?f2 = "Suc ?f1" let ?f3 = "Suc ?f2" let ?f4 = "Suc ?f3"
  have b: "leads_to E me you A B ?f1 (snd (snd (hd (next_request me you 4 c)))) {b. b div 1 = c \<and> True}"
    if "c < 16 ^ 4" for c using leads_bucket that by simp
  have 4: "leads_to E me you A B ?f2 (req_node me 4 p) {b. b div 16 = p \<and> differ 4 la lb b}"
    if "p < 4096" for p
    using leads_level [OF assms _ _ b, where p = p] that by simp
  then have c: "leads_to E me you A B ?f2 (snd (snd (hd (next_request me you 3 c))))
      {b. b div 16 = c \<and> differ 4 la lb b}" if "c < 16 ^ 3" for c
    using that by (simp add: next_request_node)
  have 3: "leads_to E me you A B ?f3 (req_node me 3 p)
      {b. b div 256 = p \<and> differ 3 la lb (b div 16) \<and> differ 4 la lb b}" if "p < 256" for p
    using leads_level [OF assms _ _ c, where p = p] that by simp
  then have d: "leads_to E me you A B ?f3 (snd (snd (hd (next_request me you 2 c))))
      {b. b div 256 = c \<and> differ 3 la lb (b div 16) \<and> differ 4 la lb b}" if "c < 16 ^ 2" for c
    using that by (simp add: next_request_node)
  have 2: "leads_to E me you A B ?f4 (req_node me 2 p)
      {b. b div 4096 = p \<and> differ 2 la lb (b div 256) \<and> differ 3 la lb (b div 16) \<and> differ 4 la lb b}"
    if "p < 16" for p
    using leads_level [OF assms _ _ d, where p = p] that by simp
  then have e: "leads_to E me you A B ?f4 (snd (snd (hd (next_request me you 1 c))))
      {b. b div 4096 = c \<and> differ 2 la lb (b div 256) \<and> differ 3 la lb (b div 16) \<and> differ 4 la lb b}"
    if "c < 16 ^ 1" for c
    using that by (simp add: next_request_node numeral_2_eq_2)
  have five: "5 = Suc ?f4" by simp
  show ?thesis
    unfolding five using leads_level [OF assms _ _ e, where p = 0] by simp
qed

section \<open>A network of nodes\<close>

text \<open>
  Every node runs the callback of \<^verbatim>\<open>main.cpp\<close>. Messages once sent may be delivered at any later
  time, in any order, repeatedly or never.
\<close>

record ('b, 'w) net =
  nodes :: "u32 \<Rightarrow> ('b, 'w) engine"
  flight :: "(u32 \<times> Lane \<times> bytes) set"

inductive net_step :: "('b, 'w) env \<Rightarrow> ('b, 'w) net \<Rightarrow> ('b, 'w) net \<Rightarrow> bool" for E where
  gossip: "trigger_gossip n ps pick (nodes s n) = (out, en) \<Longrightarrow>
     net_step E s (s\<lparr>nodes := (nodes s)(n := en), flight := flight s \<union> set out\<rparr>)"
| deliver: "(n, lane, pay) \<in> flight s \<Longrightarrow> on_message E n (lane_code lane) pay (nodes s n) = Some (out, en) \<Longrightarrow>
     net_step E s (s\<lparr>nodes := (nodes s)(n := en), flight := flight s \<union> set out\<rparr>)"

inductive_cases net_stepE: "net_step E s s'"

inductive net_reach :: "('b, 'w) env \<Rightarrow> ('b, 'w) net \<Rightarrow> ('b, 'w) net \<Rightarrow> bool" for E s0 where
  start: "net_reach E s0 s0"
| step: "net_reach E s0 s \<Longrightarrow> net_step E s s' \<Longrightarrow> net_reach E s0 s'"

text \<open>The messages that travel on the control lane carry no document.\<close>

definition control_type :: "byte \<Rightarrow> bool" where
  "control_type t \<longleftrightarrow> t = 1 \<or> t = 2 \<or> t = 3 \<or> t = 4"

definition msg_ok :: "u32 \<times> Lane \<times> bytes \<Rightarrow> bool" where
  "msg_ok m = (case m of (_, lane, pay) \<Rightarrow> lane = Control \<longrightarrow> control_type (pay ! 0))"

lemma msgs_ok_simps [simp]:
  "\<forall>m \<in> set (send_req_node me you l c). msg_ok m"
  "\<forall>m \<in> set (send_req_bucket me you b). msg_ok m"
  by (simp_all add: send_req_node_def send_req_bucket_def msg_ok_def control_type_def)

lemma sync_init_ok:
  assumes "send_sync_init me you en = (out, en')"
  shows "(\<forall>m \<in> set out. msg_ok m) \<and> shards (db en') = shards (db en) \<and> wal en' = wal en"
  using assms
  by (auto simp: send_sync_init_def get_merkle_root_hash_def msg_ok_def control_type_def case_prod_beta Let_def)

lemma on_sync_init_ok:
  assumes "on_sync_init me you buf en = (out, en')"
  shows "(\<forall>m \<in> set out. msg_ok m) \<and> shards (db en') = shards (db en) \<and> wal en' = wal en"
  using assms
  by (auto simp: on_sync_init_def get_merkle_root_hash_def case_prod_beta Let_def split: if_splits)

lemma those_SomeD: "those xs = Some ys \<Longrightarrow> y \<in> set ys \<Longrightarrow> Some y \<in> set xs"
  by (induction xs arbitrary: ys) (auto split: option.splits)

lemma rep_child_ok: "rep_child me you buf en level p i = Some out \<Longrightarrow> \<forall>m \<in> set out. msg_ok m"
  by (auto simp: rep_child_def Let_def split: if_splits option.splits)

lemma on_rep_node_ok:
  assumes "on_rep_node me you buf en = Some out"
  shows "\<forall>m \<in> set out. msg_ok m"
proof (cases "length buf < 13")
  case True
  then show ?thesis using assms by (simp add: on_rep_node_def)
next
  case False
  then obtain z where z: "out = concat z"
      "those (map (rep_child me you buf en (buf ! 5) (get32 (drop 9 buf))) [0..<16]) = Some z"
    using assms by (auto simp: on_rep_node_def Let_def)
  have "\<forall>m \<in> set x. msg_ok m" if x: "x \<in> set z" for x
  proof -
    obtain i where "rep_child me you buf en (buf ! 5) (get32 (drop 9 buf)) i = Some x"
      using those_SomeD [OF z(2) x] by (metis (no_types, lifting) ex_map_conv)
    then show ?thesis by (rule rep_child_ok)
  qed
  then show ?thesis using z(1) by auto
qed

lemma on_req_node_ok: "on_req_node me you buf en = Some out \<Longrightarrow> \<forall>m \<in> set out. msg_ok m"
  by (auto simp: on_req_node_def Let_def msg_ok_def control_type_def split: if_splits option.splits)

lemma on_message_ok:
  assumes "on_message E me (lane_code lane) pay en = Some (out, en')" "msg_ok (me, lane, pay)"
  shows "(\<forall>m \<in> set out. msg_ok m) \<and> shards (db en') = shards (db en) \<and> wal en' = wal en"
proof (cases "lane = Control")
  case False
  then show ?thesis using assms(1) by (cases lane) (auto simp: on_message_def)
next
  case True
  then have h: "handle_message E me pay en = Some (out, en')" "control_type (pay ! 0)"
    using assms by (simp_all add: on_message_def msg_ok_def)
  show ?thesis
  proof (cases "length pay < 5")
    case True
    then show ?thesis using h(1) by (simp add: handle_message_def)
  next
    case False
    with h show ?thesis
      using on_sync_init_ok [of me "get32 (drop 1 pay)" pay en out en']
        on_rep_node_ok [of me "get32 (drop 1 pay)" pay en out]
        on_req_node_ok [of me "get32 (drop 1 pay)" pay en out]
      by (auto simp: handle_message_def control_type_def Let_def)
         (auto simp: on_req_bucket_def Let_def msg_ok_def split: if_splits)
  qed
qed

lemma net_step_ok:
  assumes "net_step E s s'" "\<forall>m \<in> flight s. msg_ok m"
  shows "(\<forall>m \<in> flight s'. msg_ok m) \<and>
    shards (db (nodes s' n)) = shards (db (nodes s n)) \<and> wal (nodes s' n) = wal (nodes s n)"
  using assms(1)
proof (cases rule: net_stepE [consumes 1, case_names gossip deliver])
  case (gossip k ps pick out en)
  then have "(\<forall>m \<in> set out. msg_ok m) \<and> shards (db en) = shards (db (nodes s k)) \<and> wal en = wal (nodes s k)"
    using sync_init_ok [of k _ "nodes s k" out en] by (auto simp: trigger_gossip_def split: if_splits)
  with gossip assms(2) show ?thesis by auto
next
  case (deliver k lane pay out en)
  then have "(\<forall>m \<in> set out. msg_ok m) \<and> shards (db en) = shards (db (nodes s k)) \<and> wal en = wal (nodes s k)"
    using on_message_ok [of E k lane pay "nodes s k" out en] assms(2) by blast
  with deliver assms(2) show ?thesis by auto
qed

section \<open>Properties\<close>

text \<open>C24: a bucket exchange asks for exactly the documents that differ. The peer's listing of a
  bucket, read back by the requester, leads to one request for every listed key that is not a
  sidecar and whose local hash is not the peer's, in order, and to no other; that the count in the
  listing also counts the skipped sidecars does no harm.\<close>

theorem bucket_exchange_requests:
  assumes "\<forall>(k, h) \<in> set (get_bucket_keys E (uint bkt) (db B)). length k < 65536"
    and "length (get_bucket_keys E (uint bkt) (db B)) < 4294967296"
    and "(to, lane, req) \<in> set (send_req_bucket me you bkt)"
  shows "\<exists>rep. handle_message E you req B = Some ([(me, Heavy, rep)], B) \<and>
    handle_message E me rep A = Some (wanted E me you A (get_bucket_keys E (uint bkt) (db B)), A)"
proof -
  let ?keys = "get_bucket_keys E (uint bkt) (db B)"
  let ?rep = "[msg_code SYNC_REP_BUCKET] @ put32 you @ put32 bkt @ put32 (word_of_nat (length ?keys)) @
      concat (map key_entry ?keys)"
  have "handle_message E you req B = Some ([(me, Heavy, ?rep)], B)"
    using assms(3) by (simp add: send_req_bucket_def handle_message_def on_req_bucket_def Let_def)
  moreover have "handle_message E me ?rep A = Some (wanted E me you A ?keys, A)"
    using assms(1,2) rep_bucket_entries [of ?keys "length ?keys" E me you A]
    by (simp add: handle_message_def on_rep_bucket_def Let_def)
  ultimately show ?thesis by blast
qed

theorem bucket_exchange_requests_witness:
  "\<exists>rep B. get_bucket_keys demo_env (uint (word_of_nat (bucket_idx [97]) :: u32)) (db B) \<noteq> [] \<and>
     handle_message demo_env 2 (snd (snd (hd (send_req_bucket 1 2 (word_of_nat (bucket_idx [97])))))) B =
       Some ([(1, Heavy, rep)], B) \<and>
     handle_message demo_env 1 rep (engine_empty [] 1) =
       Some (wanted demo_env 1 2 (engine_empty [] 1)
         (get_bucket_keys demo_env (uint (word_of_nat (bucket_idx [97]) :: u32)) (db B)), engine_empty [] 1)"
proof -
  let ?b = "word_of_nat (bucket_idx [97]) :: u32"
  let ?B = "\<lparr>db = \<lparr>shards = [[([97], Raw [49])]], tree = merkle_init\<rparr>, wal = [], eclock = hlc_init 2\<rparr>"
  have k: "get_bucket_keys demo_env (uint ?b) (db ?B) = [([97], hash_blob demo_env (Some (Raw [49])))]"
    by (simp add: get_bucket_keys_def)
  have m: "(2, Control, snd (snd (hd (send_req_bucket 1 2 ?b)))) \<in> set (send_req_bucket 1 2 ?b)"
    by (simp add: send_req_bucket_def)
  have "\<forall>(k, h) \<in> set (get_bucket_keys demo_env (uint ?b) (db ?B)). length k < 65536"
    "length (get_bucket_keys demo_env (uint ?b) (db ?B)) < 4294967296"
    "get_bucket_keys demo_env (uint ?b) (db ?B) \<noteq> []"
    unfolding k by simp_all
  with bucket_exchange_requests [OF this(1,2) m, of "engine_empty [] 1"] show ?thesis by blast
qed

text \<open>C13: repair. When a node asks a peer for a document and the answer reaches it, and the peer's
  sidecar carries a newer time stamp, the node ends with the peer's bytes and time stamp for that
  key, so the two hashes agree from then on. (The document's bytes must not look like JSON text,
  since the receiver would parse them again.)\<close>

theorem repair_copies_document:
  assumes "store_inv E (db A)" and "length k < 65536"
    and "mb = buf_data E (get E (meta_key k) (db B))" and "mb \<noteq> []" and "length mb < 65536"
    and "parse_meta E mb = (ts, False)" and "d = buf_data E (get E k (db B))"
    and "d = [] \<or> hd d \<notin> {123, 91}" and "buf_data E (buf_vec E d) = d"
    and "local_ts E k (db A) = Some t" and "t < ts" and "json_meta_ok E ts False"
    and "(to, lane, req) \<in> set (send_get_val me you k)"
  shows "\<exists>pay A'. handle_message E you req B = Some ([(me, Heavy, pay)], B) \<and>
    handle_message E me pay A = Some ([], A') \<and>
    buf_data E (get E k (db A')) = d \<and> local_ts E k (db A') = Some ts \<and>
    local_hash E k A' = local_hash E k B"
proof -
  let ?pay = "[msg_code SYNC_PUT_VAL] @ put32 you @ put16 (word_of_nat (length k)) @ k @
      put16 (word_of_nat (length mb)) @ mb @ d"
  let ?m = "\<lparr>mut_timestamp = ts, mut_key = k, mut_value = d, is_delete = False\<rparr>"
  obtain ok A' where a: "apply_mutation E ?m A = (ok, A')" by force
  have req: "handle_message E you req B = Some ([(me, Heavy, ?pay)], B)"
    using assms(3,4,7,13) by (simp add: send_get_val_def handle_message_def on_get_val_def Let_def)
  have got: "handle_message E me ?pay A = Some ([], A')"
    using on_put_val_decode [OF assms(2,5), of E you d A] assms(6) a
    by (simp add: handle_message_def Let_def)
  note n = apply_mutation_newer [OF assms(1), of ?m t ok A'] assms(10,11) a
  have val: "get E k (db A') = buf_vec E d"
    using n overwrite_raw [OF assms(8), of E] by (simp add: get_def mut_buf_def)
  have "find_blob E (meta_key k) (db A') = Some (overwrite E (meta_json ts False))" using n by simp
  then have "local_ts E k (db A') = Some ts" by (rule local_ts_meta [OF assms(12)])
  with req got val assms(7,9) show ?thesis by (auto simp: local_hash_def)
qed

theorem repair_copies_document_witness:
  "\<exists>B pay A'. handle_message demo_env 2 (snd (snd (hd (send_get_val 1 2 [97])))) B = Some ([(1, Heavy, pay)], B) \<and>
     handle_message demo_env 1 pay (engine_empty [] 1) = Some ([], A') \<and>
     buf_data demo_env (get demo_env [97] (db A')) = [49] \<and>
     local_ts demo_env [97] (db A') = Some (Timestamp 7 0 2)"
proof -
  let ?m = "mut_demo 7 [49]" and ?j = "overwrite demo_env (meta_json (Timestamp 7 0 2) False)"
  obtain ok B where b: "apply_mutation demo_env ?m (engine_empty [] 2) = (ok, B)" by force
  have inv: "store_inv demo_env (db (engine_empty w n))" for w :: bytes and n
    by (simp add: engine_empty_def store_inv_init)
  have lt: "Timestamp 0 0 0 < mut_timestamp ?m" "Timestamp 0 0 0 < Timestamp 7 0 2"
    by (simp_all add: timestamp_order mut_demo_def)
  note f = apply_mutation_newer(3) [OF inv demo_local_ts_empty lt(1) b]
  have g: "get demo_env (meta_key [97]) (db B) = ?j" "get demo_env [97] (db B) = overwrite demo_env [49]"
    using f by (simp_all add: get_def mut_buf_def mut_demo_def)
  have c: "buf_data demo_env ?j \<noteq> []" "length (buf_data demo_env ?j) < 30"
      "parse_meta demo_env (buf_data demo_env ?j) = (Timestamp 7 0 2, False)"
      "buf_data demo_env (overwrite demo_env [49]) = [49]" "buf_data demo_env (buf_vec demo_env [49]) = [49]"
      "json_meta_ok demo_env (Timestamp 7 0 2) False"
    by code_simp+
  have r: "(2, Heavy, snd (snd (hd (send_get_val 1 2 [97])))) \<in> set (send_get_val 1 2 [97])"
    by (simp add: send_get_val_def)
  have "\<exists>pay A'. handle_message demo_env 2 (snd (snd (hd (send_get_val 1 2 [97])))) B = Some ([(1, Heavy, pay)], B) \<and>
     handle_message demo_env 1 pay (engine_empty [] 1) = Some ([], A') \<and>
     buf_data demo_env (get demo_env [97] (db A')) = [49] \<and>
     local_ts demo_env [97] (db A') = Some (Timestamp 7 0 2) \<and>
     local_hash demo_env [97] A' = local_hash demo_env [97] B"
    by (rule repair_copies_document [OF inv _ refl _ _ _ _ _ _ demo_local_ts_empty lt(2) c(6) r])
       (use g c in simp_all)
  then show ?thesis by blast
qed

text \<open>C10: the drill-down finds the differing buckets. Two nodes with up-to-date trees exchange
  requests and replies starting from the level-1 request; the exchange ends, no handler leaves
  its vectors or buffers, and the buckets asked for are exactly those whose leaves differ and
  whose ancestors' hashes differ at levels 3, 2 and 1. So no equal bucket is ever asked for, and a
  differing one is missed only if two different blocks of children have the same hash.\<close>

theorem drill_down_finds:
  assumes "exact_tree la A" and "exact_tree lb B"
    and "(to, lane, req) \<in> set (send_req_node me you 1 0)"
  shows "\<exists>r. chase E me you A B 5 req = Some r \<and>
    unat ` set r = {b. b < 65536 \<and> ref_l1 la ! (b div 4096) \<noteq> ref_l1 lb ! (b div 4096) \<and>
      ref_l2 la ! (b div 256) \<noteq> ref_l2 lb ! (b div 256) \<and>
      ref_l3 la ! (b div 16) \<noteq> ref_l3 lb ! (b div 16) \<and> la ! b \<noteq> lb ! b}"
proof -
  have "req = req_node me 1 0" using assms(3) by (simp add: send_req_node_def)
  then obtain r where r: "chase E me you A B 5 req = Some r" "unat ` set r =
      {b. b div 65536 = 0 \<and> differ 1 la lb (b div 4096) \<and> differ 2 la lb (b div 256) \<and>
        differ 3 la lb (b div 16) \<and> differ 4 la lb b}"
    using drill_result [OF assms(1,2), of E me you] unfolding leads_to_def by blast
  have "(b div 65536 = 0) \<longleftrightarrow> b < 65536" for b :: nat by (simp add: div_eq_0_iff)
  with r show ?thesis by (simp add: differ_def ref_level_def)
qed

definition engine_at :: "u64 list \<Rightarrow> (demo_buf, bytes) engine" where
  "engine_at lv = \<lparr>db = \<lparr>shards = replicate SHARDS [], tree = merkle_exact lv\<rparr>, wal = [], eclock = hlc_init 1\<rparr>"

lemma engine_at_exact: "length lv = 65536 \<Longrightarrow> exact_tree lv (engine_at lv)"
  by (simp add: exact_tree_def engine_at_def)

lemma one_leaf: "b < n \<Longrightarrow> replicate n 0 ! b \<noteq> (replicate n (0 :: u64))[3 := 1] ! b \<Longrightarrow> b = 3"
  by (cases "b = 3") simp_all

theorem drill_down_finds_witness:
  "\<exists>r. chase demo_env 1 2 (engine_at (replicate 65536 0)) (engine_at ((replicate 65536 0)[3 := 1])) 5
       (snd (snd (hd (send_req_node 1 2 1 0)))) = Some r \<and> unat ` set r \<subseteq> {3}"
proof -
  let ?la = "replicate 65536 0 :: u64 list" and ?lb = "(replicate 65536 0)[3 := 1] :: u64 list"
  have m: "(2, Control, snd (snd (hd (send_req_node 1 2 1 0)))) \<in> set (send_req_node 1 2 1 0)"
    by (simp add: send_req_node_def)
  have "length ?la = 65536" "length ?lb = 65536" by simp_all
  from drill_down_finds [OF engine_at_exact [OF this(1)] engine_at_exact [OF this(2)] m, of demo_env]
  obtain r where r: "chase demo_env 1 2 (engine_at ?la) (engine_at ?lb) 5
       (snd (snd (hd (send_req_node 1 2 1 0)))) = Some r"
      "\<And>b. b \<in> unat ` set r \<Longrightarrow> b < 65536 \<and> ?la ! b \<noteq> ?lb ! b" by blast
  have "unat ` set r \<subseteq> {3}" using r(2) one_leaf by blast
  with r(1) show ?thesis by blast
qed

text \<open>C35: anti-entropy as wired up repairs nothing. The key listing, the document request and the
  document travel on the heavy lane, and the callback that \<^verbatim>\<open>main.cpp\<close> installs drops every lane but
  control. So in a network of such nodes, whatever is gossiped and however messages are delivered,
  no node's documents and no node's log ever change through synchronisation.\<close>

theorem no_repair_in_deployed_network:
  assumes "net_reach E s0 s" and "flight s0 = {}"
  shows "shards (db (nodes s n)) = shards (db (nodes s0 n)) \<and> wal (nodes s n) = wal (nodes s0 n)"
proof -
  have "(\<forall>m \<in> flight s. msg_ok m) \<and> shards (db (nodes s n)) = shards (db (nodes s0 n)) \<and>
      wal (nodes s n) = wal (nodes s0 n)"
    using assms(1)
  proof (induction rule: net_reach.induct)
    case start
    then show ?case using assms(2) by simp
  next
    case (step s s')
    with net_step_ok [of E s s' n] show ?case by simp
  qed
  then show ?thesis by blast
qed

theorem no_repair_in_deployed_network_witness:
  "\<exists>s. net_reach demo_env \<lparr>nodes = (\<lambda>_. engine_at (replicate 65536 0)), flight = {}\<rparr> s \<and> flight s \<noteq> {} \<and>
     shards (db (nodes s 2)) = replicate SHARDS []"
proof -
  let ?ini = "\<lparr>nodes = (\<lambda>_. engine_at (replicate 65536 0)), flight = {}\<rparr>"
  obtain out en where g: "trigger_gossip 1 [2] 0 (nodes ?ini 1) = (out, en)" by force
  let ?s = "?ini\<lparr>nodes := (nodes ?ini)(1 := en), flight := flight ?ini \<union> set out\<rparr>"
  have r: "net_reach demo_env ?ini ?s" by (rule net_reach.step [OF net_reach.start]) (rule net_step.gossip [OF g])
  have "out \<noteq> []" using g by (auto simp: trigger_gossip_def send_sync_init_def case_prod_beta Let_def)
  then have "flight ?s \<noteq> {}" by simp
  moreover have "shards (db (nodes ?s 2)) = replicate SHARDS []"
    using no_repair_in_deployed_network [OF r, of 2] by (simp add: engine_at_def)
  ultimately show ?thesis using r by blast
qed

text \<open>Short or misaddressed messages leave the memory they may read. A \<^verbatim>\<open>SYNC_REP_NODE\<close> of at
  least 13 but fewer than 141 bytes passes the length check and is then read past its end, and a
  \<^verbatim>\<open>SYNC_REQ_NODE\<close> for a parent outside the level indexes the tree out of bounds; both are undefined
  behaviour a peer can trigger.\<close>

theorem malformed_messages_undefined:
  assumes "13 \<le> length rep" and "length rep < 141" and "rep ! 0 = msg_code SYNC_REP_NODE"
    and "merkle_inv (tree (db en))" and "1 \<le> p" and "p < 268435456"
  shows "handle_message E me rep en = None \<and> handle_message E me (req_node you 1 p) en = None"
proof
  have "rep_child me you' rep en l q 15 = None" for you' l q
    using assms(2) by (simp add: rep_child_def)
  then have "on_rep_node me you' rep en = None" for you'
  proof -
    have "those (map (rep_child me you' rep en (rep ! 5) (get32 (drop 9 rep))) [0..<16]) = None"
      by (rule those_None [of 15]) (use \<open>\<And>you' l q. rep_child me you' rep en l q 15 = None\<close> in simp_all)
    then show ?thesis using assms(1) by (simp add: on_rep_node_def Let_def)
  qed
  then show "handle_message E me rep en = None"
    using assms(1,3) by (simp add: handle_message_def Let_def)
next
  have "unat (word_of_nat p :: u32) = p" using assms(6) by (intro unat_cast32) simp
  then have "unat (child_idx (word_of_nat p) 0) = p * 16"
    using assms(6) by (simp add: child_idx_def unat_word_ariths)
  moreover have "length (l1 (tree (db en))) = 16" using assms(4) by (simp add: merkle_inv_def)
  ultimately have "get_merkle_node en 1 (child_idx (word_of_nat p) 0) = None"
    using assms(5) by (simp add: get_merkle_node_def get_node_hash_def vec_at_def)
  then have "those (map (\<lambda>i. get_merkle_node en 1 (child_idx (word_of_nat p) i)) [0..<16]) = None"
    by (intro those_None [of 0]) simp_all
  then show "handle_message E me (req_node you 1 p) en = None"
    by (simp add: handle_message_def on_req_node_def Let_def nth_append)
qed

theorem malformed_messages_undefined_witness:
  "handle_message demo_env 1 ([3] @ replicate 13 0) (engine_empty [] 1) = None \<and>
   handle_message demo_env 1 (req_node 2 1 5) (engine_empty [] 1) = None"
  by (rule malformed_messages_undefined) (simp_all add: engine_empty_def store_init_def merkle_init_inv)

end
