(* ===== verification/Double.thy ===== *)
theory Double
  imports Complex_Main
begin

text \<open>
  The arithmetic of \<^verbatim>\<open>double\<close> (binary64, rounding to nearest with ties to even). A double is the real
  number it stands for; an operation is the exact one followed by \<open>rnd\<close>, which keeps 53 significant
  bits, or fewer below the smallest normal number. Each operation is rounded by itself (no fused
  multiply-add). Signs of zero, overflow to infinity and \<^verbatim>\<open>NaN\<close> are outside: the theorems that use \<open>rnd\<close>
  give bounds that show where overflow cannot occur.
  Shown: \<open>rnd\<close> is monotone, keeps doubles, and has the usual bounds on its error.
\<close>

section \<open>Rounding of a real number\<close>

text \<open>The nearest integer, the even one of two.\<close>

definition round_half_even :: "real \<Rightarrow> int" where
  "round_half_even x =
     (let n = \<lfloor>x\<rfloor>; d = x - of_int n
      in if d < 1 / 2 then n else if d > 1 / 2 then n + 1 else if even n then n else n + 1)"

text \<open>The exponent of the leading bit, bounded below, and the value of the last bit of the significand.\<close>

definition binade :: "real \<Rightarrow> int" where
  "binade x = max (- 1022) \<lfloor>log 2 \<bar>x\<bar>\<rfloor>"

definition ulp :: "real \<Rightarrow> real" where
  "ulp x = 2 powr of_int (binade x - 52)"

definition rnd :: "real \<Rightarrow> real" where
  "rnd x = of_int (round_half_even (x / ulp x)) * ulp x"

text \<open>The numbers that are doubles.\<close>

definition is_double :: "real \<Rightarrow> bool" where
  "is_double x \<longleftrightarrow> rnd x = x"

section \<open>Rounding to an integer\<close>

lemma round_int [simp]: "round_half_even (of_int n) = n"
  by (simp add: round_half_even_def Let_def)

lemma round_err: "\<bar>of_int (round_half_even x) - x\<bar> \<le> 1 / 2"
proof -
  have "of_int \<lfloor>x\<rfloor> \<le> x" "x < of_int \<lfloor>x\<rfloor> + 1" by linarith+
  then show ?thesis unfolding round_half_even_def Let_def by (auto simp: abs_le_iff)
qed

lemma round_mono: "x \<le> y \<Longrightarrow> round_half_even x \<le> round_half_even y"
proof (cases "\<lfloor>x\<rfloor> = \<lfloor>y\<rfloor>")
  case False
  assume "x \<le> y"
  then have "\<lfloor>x\<rfloor> < \<lfloor>y\<rfloor>" using False floor_mono [of x y] by simp
  moreover have "round_half_even x \<le> \<lfloor>x\<rfloor> + 1" "\<lfloor>y\<rfloor> \<le> round_half_even y"
    by (simp_all add: round_half_even_def Let_def)
  ultimately show ?thesis by linarith
qed (auto simp: round_half_even_def Let_def)

lemma round_minus: "round_half_even (- x) = - round_half_even x"
proof (cases "x \<in> \<int>")
  case True
  then obtain n where "x = of_int n" by (auto elim: Ints_cases)
  then show ?thesis using round_int [of "- n"] by simp
next
  case False
  then have "\<lceil>x\<rceil> = \<lfloor>x\<rfloor> + 1" by (simp add: ceiling_altdef) (metis Ints_of_int)
  then have f: "\<lfloor>- x\<rfloor> = - \<lfloor>x\<rfloor> - 1" by (simp add: floor_minus)
  show ?thesis unfolding round_half_even_def Let_def f by (auto simp: even_minus)
qed

section \<open>Binades\<close>

lemma binade_range:
  assumes "x \<noteq> 0"
  shows "\<bar>x\<bar> < 2 powr (of_int (binade x) + 1)" "- 1022 < binade x \<Longrightarrow> 2 powr of_int (binade x) \<le> \<bar>x\<bar>" "- 1022 \<le> binade x"
proof -
  have l: "2 powr of_int \<lfloor>log 2 \<bar>x\<bar>\<rfloor> \<le> \<bar>x\<bar>" "\<bar>x\<bar> < 2 powr (of_int \<lfloor>log 2 \<bar>x\<bar>\<rfloor> + 1)"
    using floor_log_eq_powr_iff [of "\<bar>x\<bar>" 2 "\<lfloor>log 2 \<bar>x\<bar>\<rfloor>"] assms by simp_all
  show "- 1022 \<le> binade x" by (simp add: binade_def)
  have "2 powr (of_int \<lfloor>log 2 \<bar>x\<bar>\<rfloor> + 1) \<le> 2 powr (of_int (binade x) + (1 :: real))"
    by (rule powr_mono) (simp_all add: binade_def)
  with l(2) show "\<bar>x\<bar> < 2 powr (of_int (binade x) + 1)" by linarith
  show "2 powr of_int (binade x) \<le> \<bar>x\<bar>" if "- 1022 < binade x"
    using l(1) that by (simp add: binade_def max_def split: if_splits)
qed

lemma binade_mono: "\<bar>x\<bar> \<le> \<bar>y\<bar> \<Longrightarrow> x \<noteq> 0 \<Longrightarrow> binade x \<le> binade y"
  unfolding binade_def by (intro max.mono floor_mono) (auto simp: log_le_cancel_iff)

lemma binade_minus [simp]: "binade (- x) = binade x" by (simp add: binade_def)
lemma ulp_minus [simp]: "ulp (- x) = ulp x" by (simp add: ulp_def)
lemma ulp_pos [simp]: "0 < ulp x" by (simp add: ulp_def)
lemma ulp_nonzero [simp]: "ulp x \<noteq> 0" using ulp_pos [of x] by linarith
lemma ulp_nonneg [simp]: "0 \<le> ulp x" using ulp_pos [of x] by linarith
lemma ulp_abs [simp]: "\<bar>ulp x\<bar> = ulp x" by simp

lemma rnd_minus [simp]: "rnd (- x) = - rnd x"
  by (simp add: rnd_def round_minus)

lemma rnd_0 [simp]: "rnd 0 = 0"
  using round_int [of 0] by (simp add: rnd_def)

lemma powr_int_nat: "0 \<le> k \<Longrightarrow> \<exists>n :: int. 2 powr real_of_int k = of_int n"
  by (rule exI [of _ "2 ^ nat k"]) (simp add: powr_real_of_int)

text \<open>A multiple of the unit of its binade or of a coarser one is representable.\<close>

lemma rnd_grid:
  assumes "x = of_int m * 2 powr of_int k" "binade x - 52 \<le> k"
  shows "rnd x = x"
proof -
  have "x / ulp x = of_int m * 2 powr of_int (k - (binade x - 52))"
    unfolding ulp_def by (subst assms(1)) (simp add: powr_diff)
  moreover obtain n :: int where "2 powr of_int (k - (binade x - 52)) = (of_int n :: real)"
    using powr_int_nat [of "k - (binade x - 52)"] assms(2) by auto
  ultimately have "x / ulp x = of_int (m * n)" by simp
  then have "rnd x = x / ulp x * ulp x" unfolding rnd_def by (simp only: round_int)
  then show ?thesis by simp
qed

lemma rnd_exact:
  assumes "x = of_int m * 2 powr of_int k" "\<bar>m\<bar> \<le> 2 ^ 53" "- 1074 \<le> k"
  shows "rnd x = x"
proof (cases "m = 0 \<or> binade x - 52 \<le> k")
  case True
  then show ?thesis using rnd_grid [OF assms(1)] assms(1) by auto
next
  case False
  then have x: "x \<noteq> 0" using assms(1) by simp
  have "- 1022 < binade x" using False assms(3) by linarith
  from binade_range(2) [OF x this] have "2 powr real_of_int (binade x) \<le> \<bar>real_of_int m\<bar> * 2 powr real_of_int k"
    using assms(1) by (simp add: abs_mult)
  also have "\<dots> \<le> 2 ^ 53 * 2 powr of_int k"
  proof -
    have "\<bar>real_of_int m\<bar> \<le> 2 ^ 53" using assms(2) by (metis of_int_abs of_int_le_iff of_int_numeral of_int_power)
    then show ?thesis by (intro mult_right_mono) simp_all
  qed
  also have "\<dots> = 2 powr of_int (k + 53)" by (simp add: powr_add powr_numeral)
  finally have "binade x \<le> k + 53" by simp
  with False have k: "binade x = k + 53" by simp
  have "\<bar>m\<bar> = 2 ^ 53"
  proof (rule ccontr)
    assume "\<bar>m\<bar> \<noteq> 2 ^ 53"
    then have "\<bar>m\<bar> < 2 ^ 53" using assms(2) by simp
    then have "\<bar>real_of_int m\<bar> < 2 ^ 53" by (metis of_int_abs of_int_less_iff of_int_numeral of_int_power)
    then have "\<bar>x\<bar> < 2 ^ 53 * 2 powr of_int k" using assms(1) by (simp add: abs_mult)
    also have "\<dots> = 2 powr of_int (binade x)" by (simp add: k powr_add powr_numeral)
    finally show False using binade_range(2) [OF x \<open>- 1022 < binade x\<close>] by simp
  qed
  then have "m = 2 ^ 53 \<or> m = - (2 ^ 53)" by linarith
  then have "x = of_int (sgn m) * 2 powr of_int (k + 53)" using assms(1) by (auto simp: powr_add powr_numeral)
  then show ?thesis by (rule rnd_grid) (simp add: k)
qed

lemma double_int: "\<bar>n\<bar> \<le> 2 ^ 53 \<Longrightarrow> is_double (of_int n)"
  using rnd_exact [of "of_int n" n 0] by (simp add: is_double_def)

section \<open>Rounding\<close>

text \<open>The scaled number, and with it the rounded significand, has at most 53 bits.\<close>

lemma scaled_range: "\<bar>x / ulp x\<bar> < 2 ^ 53"
proof (cases "x = 0")
  case False
  have "2 powr (real_of_int (binade x) + 1) = 2 ^ 53 * ulp x"
    by (simp add: ulp_def powr_add powr_diff powr_numeral)
  with binade_range(1) [OF False] have "\<bar>x\<bar> < 2 ^ 53 * ulp x" by simp
  then show ?thesis by (simp add: abs_divide divide_less_eq)
qed simp

lemma scaled_normal:
  assumes "x \<noteq> 0" "- 1022 < binade x"
  shows "2 ^ 52 \<le> \<bar>x / ulp x\<bar>" "2 ^ 52 * ulp x = 2 powr of_int (binade x)"
proof -
  show u: "2 ^ 52 * ulp x = 2 powr of_int (binade x)" by (simp add: ulp_def powr_diff powr_numeral)
  show "2 ^ 52 \<le> \<bar>x / ulp x\<bar>"
    using binade_range(2) [OF assms] u by (simp add: abs_divide le_divide_eq)
qed

lemma significand: "\<bar>round_half_even (x / ulp x)\<bar> \<le> 2 ^ 53"
proof -
  have r: "x / ulp x \<le> of_int (2 ^ 53)" "of_int (- (2 ^ 53)) \<le> x / ulp x" using scaled_range [of x] by (auto simp: abs_less_iff simp del: abs_divide)
  show ?thesis using round_mono [OF r(1)] round_mono [OF r(2)] unfolding round_int by (simp add: abs_le_iff)
qed

lemma is_double_rnd [simp]: "is_double (rnd x)"
  unfolding is_double_def
  by (rule rnd_exact [of _ "round_half_even (x / ulp x)" "binade x - 52"])
    (use significand in \<open>simp_all add: rnd_def ulp_def binade_def\<close>)

lemma rnd_double: "is_double x \<Longrightarrow> rnd x = x" by (simp add: is_double_def)

lemma rnd_rnd [simp]: "rnd (rnd x) = rnd x" using is_double_rnd by (simp add: is_double_def del: is_double_rnd)

lemma rnd_nonneg: "0 \<le> x \<Longrightarrow> 0 \<le> rnd x"
proof -
  assume "0 \<le> x"
  then have "round_half_even (of_int 0) \<le> round_half_even (x / ulp x)" by (intro round_mono) simp
  then show "0 \<le> rnd x" unfolding rnd_def round_int by (intro mult_nonneg_nonneg) simp_all
qed

lemma rnd_mono_pos:
  assumes "0 < x" "x \<le> y"
  shows "rnd x \<le> rnd y"
proof (cases "binade x = binade y")
  case True
  then have u: "ulp x = ulp y" by (simp add: ulp_def)
  have "round_half_even (x / ulp y) \<le> round_half_even (y / ulp y)"
    using assms(2) by (intro round_mono divide_right_mono) simp_all
  then show ?thesis unfolding rnd_def u by (intro mult_right_mono) simp_all
next
  case False
  then have b: "binade x + 1 \<le> binade y" using binade_mono [of x y] assms by simp
  then have y: "- 1022 < binade y" "y \<noteq> 0" using assms by (auto simp: binade_def)
  have "rnd x \<le> 2 ^ 53 * ulp x"
  proof -
    have "real_of_int (round_half_even (x / ulp x)) \<le> 2 ^ 53"
      using significand [of x] by (metis abs_le_D1 of_int_le_iff of_int_numeral of_int_power)
    then show ?thesis unfolding rnd_def by (intro mult_right_mono) (simp_all add: less_imp_le)
  qed
  also have "\<dots> = 2 powr of_int (binade x + 1)" by (simp add: ulp_def powr_add powr_diff powr_numeral)
  also have "\<dots> \<le> 2 powr of_int (binade y)" using b by (intro powr_mono) simp_all
  also have "\<dots> = 2 ^ 52 * ulp y" using scaled_normal(2) [OF y(2,1)] by simp
  also have "\<dots> \<le> rnd y"
  proof -
    have "of_int (2 ^ 52) \<le> y / ulp y" using scaled_normal(1) [OF y(2,1)] assms by simp
    from round_mono [OF this] have "2 ^ 52 \<le> round_half_even (y / ulp y)" by (simp only: round_int)
    then have "(2 :: real) ^ 52 \<le> of_int (round_half_even (y / ulp y))"
      by (metis of_int_le_iff of_int_numeral of_int_power)
    then show ?thesis unfolding rnd_def by (intro mult_right_mono) (simp_all add: less_imp_le)
  qed
  finally show ?thesis .
qed

lemma rnd_mono: "x \<le> y \<Longrightarrow> rnd x \<le> rnd y"
proof -
  assume le: "x \<le> y"
  consider "0 < x" | "y < 0" | "x \<le> 0" "0 \<le> y" by linarith
  then show ?thesis
  proof cases
    case 1
    then show ?thesis using le by (rule rnd_mono_pos)
  next
    case 2
    then show ?thesis using rnd_mono_pos [of "- y" "- x"] le by simp
  next
    case 3
    then show ?thesis using rnd_nonneg [of "- x"] rnd_nonneg [of y] by simp
  qed
qed

text \<open>The error of one rounding: half a unit, so a relative \<open>2\<^sup>-\<^sup>5\<^sup>3\<close>, or \<open>2\<^sup>-\<^sup>1\<^sup>0\<^sup>7\<^sup>5\<close> where numbers are subnormal.\<close>

lemma rnd_half_ulp: "\<bar>rnd x - x\<bar> \<le> ulp x / 2"
proof -
  have "rnd x - x = (of_int (round_half_even (x / ulp x)) - x / ulp x) * ulp x"
    by (simp add: rnd_def left_diff_distrib)
  then have "\<bar>rnd x - x\<bar> = \<bar>of_int (round_half_even (x / ulp x)) - x / ulp x\<bar> * ulp x"
    by (simp add: abs_mult less_imp_le)
  also have "\<dots> \<le> 1 / 2 * ulp x" by (intro mult_right_mono round_err) (simp add: less_imp_le)
  finally show ?thesis by simp
qed

definition unit_roundoff :: real where "unit_roundoff = 1 / 2 ^ 53"

definition half_least :: real where "half_least = 1 / 2 ^ 1075"

lemma unit_roundoff_range [simp]: "0 < unit_roundoff" "0 \<le> unit_roundoff" "unit_roundoff < 1" "unit_roundoff \<le> 1"
  by (simp_all add: unit_roundoff_def)

lemma half_least_pos [simp]: "0 < half_least" "0 \<le> half_least"
  by (simp_all add: half_least_def)

lemma rnd_normal_error:
  assumes "- 1022 < binade x" "x \<noteq> 0"
  shows "\<bar>rnd x - x\<bar> \<le> unit_roundoff * \<bar>x\<bar>"
proof -
  have "2 ^ 52 * ulp x \<le> \<bar>x\<bar>" using scaled_normal(2) [OF assms(2,1)] binade_range(2) [OF assms(2,1)] by simp
  then have "ulp x / 2 \<le> unit_roundoff * \<bar>x\<bar>" by (simp add: unit_roundoff_def)
  with rnd_half_ulp [of x] show ?thesis by linarith
qed

text \<open>Sums of doubles are multiples of the smallest one, so tiny sums are exact.\<close>

definition on_grid :: "real \<Rightarrow> bool" where
  "on_grid x \<longleftrightarrow> (\<exists>m :: int. x = of_int m * 2 powr (- 1074))"

lemma on_grid_double: "is_double x \<Longrightarrow> on_grid x"
proof -
  assume "is_double x"
  then have x: "x = of_int (round_half_even (x / ulp x)) * 2 powr of_int (binade x - 52)"
    by (simp add: is_double_def rnd_def ulp_def)
  have "0 \<le> binade x - 52 + 1074" by (simp add: binade_def)
  from powr_int_nat [OF this] obtain n :: int where n: "2 powr real_of_int (binade x - 52 + 1074) = of_int n" by blast
  have "2 powr real_of_int (binade x - 52) = 2 powr real_of_int (binade x - 52 + 1074) * 2 powr (- 1074)"
    by (simp flip: powr_add)
  with x n have "x = of_int (round_half_even (x / ulp x) * n) * 2 powr (- 1074)"
    by (metis mult.assoc of_int_mult)
  then show ?thesis unfolding on_grid_def by blast
qed

lemma on_grid_add: "on_grid x \<Longrightarrow> on_grid y \<Longrightarrow> on_grid (x + y)"
  unfolding on_grid_def by (metis distrib_right of_int_add)

lemma rnd_sum_error:
  assumes "is_double x" "is_double y"
  shows "\<bar>rnd (x + y) - (x + y)\<bar> \<le> unit_roundoff * \<bar>x + y\<bar>"
proof (cases "- 1022 < binade (x + y) \<and> x + y \<noteq> 0")
  case False
  have "rnd (x + y) = x + y"
  proof (cases "x + y = 0")
    case nz: False
    with False have b: "binade (x + y) = - 1022" using binade_range(3) [OF nz] by simp
    obtain m :: int where m: "x + y = of_int m * 2 powr of_int (- 1074)"
      using on_grid_add [OF on_grid_double on_grid_double, OF assms] by (auto simp: on_grid_def)
    show ?thesis by (rule rnd_grid [OF m]) (simp add: b)
  qed simp
  then show ?thesis by simp
next
  case True
  then show ?thesis using rnd_normal_error [of "x + y"] by blast
qed

lemma rnd_error: "\<bar>rnd x - x\<bar> \<le> unit_roundoff * \<bar>x\<bar> + half_least"
proof (cases "- 1022 < binade x \<and> x \<noteq> 0")
  case True
  then show ?thesis using rnd_normal_error [of x] by (auto intro: add_increasing2)
next
  case False
  have "\<bar>rnd x - x\<bar> \<le> half_least"
  proof (cases "x = 0")
    case nz: False
    with False have b: "binade x = - 1022" using binade_range(3) [OF nz] by simp
    have "ulp x = 1 / 2 ^ 1074" by (simp add: ulp_def b powr_minus_divide powr_numeral)
    with rnd_half_ulp [of x] show ?thesis by (simp add: half_least_def)
  qed simp
  moreover have "0 \<le> unit_roundoff * \<bar>x\<bar>" by simp
  ultimately show ?thesis by linarith
qed

end
