(* ===== verification/Kalman.thy ===== *)
theory Kalman
  imports Double
begin

text \<open>
  \<^verbatim>\<open>http/kalman_filter.hpp\<close>: the two-state Kalman filter (load and its velocity) that the thread-pool
  manager uses. Every operation on doubles is followed by its rounding \<open>rnd\<close>, in the order of the C++
  expressions. Shown: what one update does to the estimate and its variance, rounding included.
\<close>

record kalman =
  x_est :: real
  v_est :: real
  p00 :: real
  p01 :: real
  p10 :: real
  p11 :: real
  q_pos :: real
  q_vel :: real
  r_noise :: real

text \<open>The member initialisers.\<close>

definition kf_new :: kalman where
  "kf_new = \<lparr>x_est = 0, v_est = 0, p00 = 1, p01 = 0, p10 = 0, p11 = 1,
     q_pos = rnd (1 / 10), q_vel = rnd (1 / 10), r_noise = 5\<rparr>"

definition kf_init :: "real \<Rightarrow> kalman \<Rightarrow> kalman" where
  "kf_init initial_load k = k\<lparr>x_est := initial_load, v_est := 0, p00 := 100, p11 := 100\<rparr>"

definition kf_predict :: "real \<Rightarrow> kalman \<Rightarrow> kalman" where
  "kf_predict dt k =
     (let np00 = rnd (p00 k + rnd (p10 k * dt));
          np01 = rnd (p01 k + rnd (p11 k * dt));
          np10 = p10 k;
          np11 = p11 k
      in k\<lparr>x_est := rnd (x_est k + rnd (v_est k * dt)),
           p00 := rnd (rnd (np00 + rnd (np01 * dt)) + rnd (q_pos k * dt)),
           p01 := rnd (rnd (np00 * 0) + rnd (np01 * 1)),
           p10 := rnd (rnd (np10 * 1) + rnd (np11 * dt)),
           p11 := rnd (rnd (rnd (np10 * 0) + rnd (np11 * 1)) + rnd (q_vel k * dt))\<rparr>)"

definition kf_update :: "real \<Rightarrow> kalman \<Rightarrow> kalman" where
  "kf_update measurement k =
     (let y = rnd (measurement - x_est k);
          s = rnd (p00 k + r_noise k);
          k0 = rnd (p00 k / s);
          k1 = rnd (p10 k / s)
      in k\<lparr>x_est := rnd (x_est k + rnd (k0 * y)),
           v_est := rnd (v_est k + rnd (k1 * y)),
           p00 := rnd (rnd (1 - k0) * p00 k),
           p01 := rnd (rnd (1 - k0) * p01 k),
           p10 := rnd (rnd (- k1 * p00 k) + p10 k),
           p11 := rnd (rnd (- k1 * p01 k) + p11 k)\<rparr>)"

definition predict_future_load :: "real \<Rightarrow> kalman \<Rightarrow> real" where
  "predict_future_load time_horizon k =
     (let pred = rnd (x_est k + rnd (v_est k * time_horizon)) in if pred < 0 then 0 else pred)"

section \<open>The filter holds doubles\<close>

definition kf_doubles :: "kalman \<Rightarrow> bool" where
  "kf_doubles k \<longleftrightarrow> is_double (x_est k) \<and> is_double (v_est k) \<and> is_double (p00 k) \<and> is_double (p01 k) \<and>
     is_double (p10 k) \<and> is_double (p11 k) \<and> is_double (q_pos k) \<and> is_double (q_vel k) \<and> is_double (r_noise k) \<and>
     0 < q_pos k \<and> 0 < q_vel k \<and> 0 < r_noise k"

lemma rnd_tenth_pos: "0 < rnd (1 / 10)"
  using rnd_exact [of "1 / 16" 1 "- 4"] rnd_mono [of "1 / 16" "1 / 10"] by (simp add: powr_minus powr_numeral)

lemma double_numerals: "is_double 0" "is_double 1" "is_double 5" "is_double 100"
  using double_int [of 0] double_int [of 1] double_int [of 5] double_int [of 100] by simp_all

lemma kf_doubles_init: "is_double load \<Longrightarrow> kf_doubles (kf_init load kf_new)"
  by (simp add: kf_doubles_def kf_init_def kf_new_def double_numerals rnd_tenth_pos)

lemma kf_doubles_predict: "kf_doubles k \<Longrightarrow> kf_doubles (kf_predict dt k)"
  by (simp add: kf_doubles_def kf_predict_def Let_def)

lemma kf_doubles_update: "kf_doubles k \<Longrightarrow> kf_doubles (kf_update z k)"
  by (simp add: kf_doubles_def kf_update_def Let_def)

section \<open>Products and quotients that stay within bounds\<close>

text \<open>A factor between zero and one moves a double towards zero, also after rounding.\<close>

lemma rnd_shrink:
  assumes "0 \<le> f" "f \<le> 1" "is_double y"
  shows "0 \<le> y \<Longrightarrow> 0 \<le> rnd (f * y) \<and> rnd (f * y) \<le> y" and "y \<le> 0 \<Longrightarrow> y \<le> rnd (f * y) \<and> rnd (f * y) \<le> 0"
proof -
  show "0 \<le> rnd (f * y) \<and> rnd (f * y) \<le> y" if "0 \<le> y"
    using rnd_nonneg [of "f * y"] rnd_mono [of "f * y" y] mult_right_mono [OF assms(2) that] assms that
    by (simp add: rnd_double)
  show "y \<le> rnd (f * y) \<and> rnd (f * y) \<le> 0" if "y \<le> 0"
    using rnd_nonneg [of "f * - y"] rnd_mono [of y "f * y"] mult_right_mono_neg [OF assms(2) that] assms that
    by (simp add: rnd_double mult_nonneg_nonpos)
qed

lemma gain_range:
  assumes "kf_doubles k" "0 \<le> p00 k"
  shows "0 \<le> rnd (p00 k / rnd (p00 k + r_noise k))" "rnd (p00 k / rnd (p00 k + r_noise k)) \<le> 1"
proof -
  have s: "p00 k \<le> rnd (p00 k + r_noise k)" "0 < rnd (p00 k + r_noise k)"
    using rnd_mono [of "p00 k" "p00 k + r_noise k"] rnd_mono [of "r_noise k" "p00 k + r_noise k"] assms
    by (auto simp: kf_doubles_def rnd_double)
  then show "0 \<le> rnd (p00 k / rnd (p00 k + r_noise k))" using assms(2) by (intro rnd_nonneg) simp
  have "p00 k / rnd (p00 k + r_noise k) \<le> 1" using s by (simp add: divide_le_eq)
  from rnd_mono [OF this] show "rnd (p00 k / rnd (p00 k + r_noise k)) \<le> 1" by (simp add: rnd_double double_numerals)
qed

text \<open>Stepping from \<open>x\<close> by the rounded difference to \<open>z\<close> lands within a few units of \<open>z\<close>.\<close>

lemma step_to_target:
  assumes "is_double x" "is_double z"
  shows "\<bar>rnd (x + rnd (z - x)) - z\<bar> \<le> (\<bar>x\<bar> + \<bar>z\<bar>) / 2 ^ 51"
proof -
  let ?d = "rnd (z - x)" and ?u = "unit_roundoff"
  have "is_double (- x)" using assms(1) by (simp add: is_double_def)
  from rnd_sum_error [OF assms(2) this] have d: "\<bar>?d - (z - x)\<bar> \<le> ?u * \<bar>z - x\<bar>" by simp
  have e: "\<bar>rnd (x + ?d) - (x + ?d)\<bar> \<le> ?u * \<bar>x + ?d\<bar>" by (rule rnd_sum_error) (simp_all add: assms(1))
  have zx: "\<bar>z - x\<bar> \<le> \<bar>x\<bar> + \<bar>z\<bar>" by simp
  have "\<bar>x + ?d\<bar> \<le> \<bar>z\<bar> + ?u * \<bar>z - x\<bar>" using d by linarith
  moreover have "?u * \<bar>z - x\<bar> \<le> 1 * \<bar>z - x\<bar>" by (intro mult_right_mono) simp_all
  ultimately have "\<bar>x + ?d\<bar> \<le> 2 * (\<bar>x\<bar> + \<bar>z\<bar>)" using zx abs_ge_zero [of x] by argo
  then have "?u * \<bar>x + ?d\<bar> \<le> ?u * (2 * (\<bar>x\<bar> + \<bar>z\<bar>))" by (intro mult_left_mono) simp_all
  moreover have "?u * \<bar>z - x\<bar> \<le> ?u * (\<bar>x\<bar> + \<bar>z\<bar>)" using zx by (intro mult_left_mono) simp_all
  ultimately have "\<bar>rnd (x + ?d) - z\<bar> \<le> ?u * (3 * (\<bar>x\<bar> + \<bar>z\<bar>))" using d e by linarith
  also have "\<dots> \<le> (\<bar>x\<bar> + \<bar>z\<bar>) / 2 ^ 51" by (simp add: unit_roundoff_def)
  finally show ?thesis .
qed

section \<open>Properties\<close>

text \<open>C38: one update of the filter, computed in doubles. From a state with a non-negative variance of the
  load, the new variance is non-negative and not larger; the new estimate lies between the old one
  and a target that differs from the measurement only by rounding (a relative \<open>2\<^sup>-\<^sup>5\<^sup>1\<close> of the two
  numbers), so it is never beyond the measurement by more than that. The noise parameters and
  the representability of all members are kept. Estimate and variance stay within the numbers
  they started from, so they cannot overflow.\<close>

theorem update_moves_towards_measurement:
  assumes "kf_doubles k" and "0 \<le> p00 k" and "is_double z" and "k' = kf_update z k"
  shows "0 \<le> p00 k' \<and> p00 k' \<le> p00 k \<and> kf_doubles k' \<and>
    (\<exists>target. \<bar>target - z\<bar> \<le> (\<bar>x_est k\<bar> + \<bar>z\<bar>) / 2 ^ 51 \<and>
      (x_est k \<le> z \<longrightarrow> x_est k \<le> x_est k' \<and> x_est k' \<le> target) \<and>
      (z \<le> x_est k \<longrightarrow> target \<le> x_est k' \<and> x_est k' \<le> x_est k))"
proof -
  define x y g where "x = x_est k" and "y = rnd (z - x)" and "g = rnd (p00 k / rnd (p00 k + r_noise k))"
  have d: "is_double x" "is_double (p00 k)" using assms(1) by (simp_all add: kf_doubles_def x_def)
  have g: "0 \<le> g" "g \<le> 1" using gain_range [OF assms(1,2)] by (simp_all add: g_def)
  have x': "x_est k' = rnd (x + rnd (g * y))" and p': "p00 k' = rnd (rnd (1 - g) * p00 k)"
    using assms(4) by (simp_all add: kf_update_def Let_def x_def y_def g_def)
  have "0 \<le> rnd (1 - g)" "rnd (1 - g) \<le> 1"
    using rnd_nonneg [of "1 - g"] rnd_mono [of "1 - g" 1] g by (simp_all add: rnd_double double_numerals)
  from rnd_shrink(1) [OF this d(2) assms(2)] have p: "0 \<le> p00 k'" "p00 k' \<le> p00 k" by (simp_all add: p')
  have y: "is_double y" by (simp add: y_def)
  have up: "x \<le> x_est k' \<and> x_est k' \<le> rnd (x + y)" if "x \<le> z"
  proof -
    have "0 \<le> y" using that by (simp add: y_def rnd_nonneg)
    from rnd_shrink(1) [OF g y this] rnd_mono [of x "x + rnd (g * y)"] rnd_mono [of "x + rnd (g * y)" "x + y"] d(1)
    show ?thesis by (simp add: x' rnd_double)
  qed
  have down: "rnd (x + y) \<le> x_est k' \<and> x_est k' \<le> x" if "z \<le> x"
  proof -
    have "y \<le> 0" using rnd_nonneg [of "- (z - x)"] that unfolding y_def rnd_minus by simp
    from rnd_shrink(2) [OF g y this] rnd_mono [of "x + rnd (g * y)" x] rnd_mono [of "x + y" "x + rnd (g * y)"] d(1)
    show ?thesis by (simp add: x' rnd_double)
  qed
  have "\<bar>rnd (x + y) - z\<bar> \<le> (\<bar>x\<bar> + \<bar>z\<bar>) / 2 ^ 51" unfolding y_def by (rule step_to_target [OF d(1) assms(3)])
  with up down p kf_doubles_update [OF assms(1), of z] assms(4) show ?thesis unfolding x_def by blast
qed

theorem update_moves_towards_measurement_witness:
  "0 \<le> p00 (kf_update 3 (kf_init 0 kf_new)) \<and> 0 \<le> x_est (kf_update 3 (kf_init 0 kf_new)) \<and>
   x_est (kf_update 3 (kf_init 0 kf_new)) \<le> 3 + 3 / 2 ^ 51"
proof -
  have k: "x_est (kf_init 0 kf_new) = 0" "0 \<le> p00 (kf_init 0 kf_new)" by (simp_all add: kf_init_def)
  have "is_double 3" using double_int [of 3] by simp
  from update_moves_towards_measurement [OF kf_doubles_init [OF double_numerals(1)] k(2) this refl] k
  obtain target where "\<bar>target - 3\<bar> \<le> 3 / 2 ^ 51" "0 \<le> x_est (kf_update 3 (kf_init 0 kf_new))"
    "x_est (kf_update 3 (kf_init 0 kf_new)) \<le> target" "0 \<le> p00 (kf_update 3 (kf_init 0 kf_new))" by auto
  moreover from this(1) have "target \<le> 3 + 3 / 2 ^ 51" unfolding abs_le_iff by linarith
  ultimately show ?thesis by linarith
qed

end
