(* ===== verification/Thread_Pool.thy ===== *)
theory Thread_Pool
  imports Kalman
begin

text \<open>
  The dynamic thread pool of \<^verbatim>\<open>http/http_server.cpp\<close>: the constructor's sanity checks, the manager
  that runs every tick, forecasts the load with the Kalman filter and picks a thread count, and
  \<^verbatim>\<open>adjust_pool_size\<close>. Besides the members of the class the state counts the threads that are inside
  \<^verbatim>\<open>ioc_.run()\<close> (\<open>running\<close>, the main thread included) and the posted \<^verbatim>\<open>ThreadExit\<close> handlers that no
  thread has picked up yet (\<open>pills\<close>). Readings of the steady clock are arguments, in nanoseconds.
\<close>

record pool =
  min_threads :: int
  max_threads :: int
  n_threads :: int
  pool_size :: int
  pills :: int
  running :: int
  filt :: kalman
  last_tick :: int
  last_resize :: int
  thread_count :: int

definition pool_new :: "int \<Rightarrow> int \<Rightarrow> int \<Rightarrow> pool" where
  "pool_new mn mx now =
     (let mn' = (if mn < 1 then 1 else mn); mx' = (if mx < mn' then mn' else mx)
      in \<lparr>min_threads = mn', max_threads = mx', n_threads = 1, pool_size = 0, pills = 0, running = 1,
          filt = kf_init 0 kf_new, last_tick = now, last_resize = 0, thread_count = 0\<rparr>)"

text \<open>The two loops of \<^verbatim>\<open>adjust_pool_size\<close>; finished threads stay in the vector.\<close>

fun grow :: "nat \<Rightarrow> pool \<Rightarrow> pool" where
  "grow 0 p = p"
| "grow (Suc i) p =
     grow i (p\<lparr>pool_size := pool_size p + 1, running := running p + 1, n_threads := n_threads p + 1\<rparr>)"

fun shrink :: "nat \<Rightarrow> pool \<Rightarrow> pool" where
  "shrink 0 p = p"
| "shrink (Suc i) p = shrink i (p\<lparr>pills := pills p + 1, n_threads := n_threads p - 1\<rparr>)"

definition adjust_pool_size :: "int \<Rightarrow> pool \<Rightarrow> pool" where
  "adjust_pool_size target p =
     (let current_managed = n_threads p - 1;
          managed_target = (if target - 1 < 0 then 0 else target - 1)
      in if managed_target > current_managed then grow (nat (managed_target - current_managed)) p
         else if managed_target < current_managed then shrink (nat (current_managed - managed_target)) p
         else p)"

text \<open>\<^verbatim>\<open>run()\<close> sizes the pool to its minimum before the main thread joins in.\<close>

definition pool_start :: "pool \<Rightarrow> pool" where
  "pool_start p = adjust_pool_size (min_threads p) p"

text \<open>\<^verbatim>\<open>duration<double>(t).count()\<close>: nanoseconds, converted and divided in doubles.\<close>

definition to_seconds :: "int \<Rightarrow> real" where
  "to_seconds ns = rnd (rnd (of_int ns) / 1000000000)"

definition clamp_dt :: "real \<Rightarrow> real" where
  "clamp_dt dt = (let d = (if dt > 1 then 1 else dt) in if d < rnd (1 / 1000) then rnd (1 / 1000) else d)"

definition pick_target :: "int \<Rightarrow> pool \<Rightarrow> int" where
  "pick_target required_threads p =
     (let current_threads = n_threads p;
          t0 = (if required_threads > current_threads then required_threads
                else if required_threads + 2 < current_threads then current_threads - 1
                else current_threads);
          t1 = (if t0 > max_threads p then max_threads p else t0)
      in if t1 < min_threads p then min_threads p else t1)"

text \<open>One run of the manager: \<open>now\<close> is the reading at its start, \<open>now2\<close> the one taken before a resize.\<close>

definition manager_loop :: "int \<Rightarrow> int \<Rightarrow> int \<Rightarrow> pool \<Rightarrow> pool" where
  "manager_loop now now2 active_reqs p =
     (let dt = clamp_dt (to_seconds (now - last_tick p));
          k = kf_update (of_int active_reqs) (kf_predict dt (filt p));
          future_load = predict_future_load 1 k;
          required_threads = \<lceil>rnd (future_load / 5)\<rceil>;
          p1 = p\<lparr>last_tick := now, filt := k\<rparr>;
          target = pick_target required_threads p1;
          p2 = (if target \<noteq> n_threads p1 then
                  (if to_seconds (now2 - last_resize p1) < 2 then p1
                   else (adjust_pool_size target p1)\<lparr>last_resize := now2\<rparr>)
                else p1)
      in p2\<lparr>thread_count := n_threads p2\<rparr>)"

text \<open>A thread runs a posted handler that throws \<^verbatim>\<open>ThreadExit\<close> and leaves \<^verbatim>\<open>ioc_.run()\<close>.\<close>

definition pill_taken :: "pool \<Rightarrow> pool" where
  "pill_taken p = p\<lparr>pills := pills p - 1, running := running p - 1\<rparr>"

section \<open>What the resizing does\<close>

lemma grow_eq:
  "grow i p = p\<lparr>pool_size := pool_size p + int i, running := running p + int i, n_threads := n_threads p + int i\<rparr>"
  by (induction i arbitrary: p) simp_all

lemma shrink_eq: "shrink i p = p\<lparr>pills := pills p + int i, n_threads := n_threads p - int i\<rparr>"
  by (induction i arbitrary: p) simp_all

lemma adjust_eq:
  assumes "1 \<le> target" "1 \<le> n_threads p"
  shows "adjust_pool_size target p =
    (let d = target - n_threads p in
     if 0 \<le> d then p\<lparr>pool_size := pool_size p + d, running := running p + d, n_threads := target\<rparr>
     else p\<lparr>pills := pills p - d, n_threads := target\<rparr>)"
  using assms by (auto simp: adjust_pool_size_def Let_def grow_eq shrink_eq)

lemma pick_target_bounds:
  "min_threads p \<le> max_threads p \<Longrightarrow> min_threads p \<le> pick_target r p \<and> pick_target r p \<le> max_threads p"
  by (simp add: pick_target_def Let_def)

lemma pick_target_shrinks_by_one:
  "min_threads p \<le> n_threads p \<Longrightarrow> n_threads p \<le> max_threads p \<Longrightarrow> n_threads p - 1 \<le> pick_target r p"
  by (simp add: pick_target_def Let_def)

section \<open>The invariant\<close>

definition pool_inv :: "pool \<Rightarrow> bool" where
  "pool_inv p \<longleftrightarrow> 1 \<le> min_threads p \<and> min_threads p \<le> n_threads p \<and> n_threads p \<le> max_threads p \<and>
     0 \<le> pills p \<and> running p = n_threads p + pills p \<and> running p \<le> pool_size p + 1 \<and> kf_doubles (filt p)"

lemma adjust_inv:
  assumes "pool_inv p" "min_threads p \<le> target" "target \<le> max_threads p"
  shows "pool_inv (adjust_pool_size target p)"
proof -
  have "1 \<le> target" "1 \<le> n_threads p" using assms by (simp_all add: pool_inv_def)
  then show ?thesis using assms by (simp add: adjust_eq Let_def pool_inv_def)
qed

lemma pool_inv_start: "pool_inv (pool_start (pool_new mn mx now))"
proof -
  let ?p = "pool_new mn mx now"
  have "1 \<le> min_threads ?p" "min_threads ?p \<le> max_threads ?p" "n_threads ?p = 1" "pills ?p = 0"
    "running ?p = 1" "pool_size ?p = 0" "kf_doubles (filt ?p)"
    by (simp_all add: pool_new_def Let_def kf_doubles_init double_numerals)
  then show ?thesis by (simp add: pool_start_def adjust_eq Let_def pool_inv_def)
qed

lemma manager_inv:
  assumes "pool_inv p"
  shows "pool_inv (manager_loop now now2 active p)"
proof -
  let ?k = "kf_update (of_int active) (kf_predict (clamp_dt (to_seconds (now - last_tick p))) (filt p))"
  let ?p = "p\<lparr>last_tick := now, filt := ?k\<rparr>"
  have "kf_doubles ?k" using assms by (intro kf_doubles_update kf_doubles_predict) (simp add: pool_inv_def)
  then have inv: "pool_inv ?p" using assms by (simp add: pool_inv_def)
  then have "min_threads ?p \<le> max_threads ?p" by (simp add: pool_inv_def)
  from adjust_inv [OF inv] pick_target_bounds [OF this] have
    adj: "pool_inv (adjust_pool_size (pick_target r ?p) ?p)" for r by blast
  have ext: "pool_inv (q\<lparr>last_resize := t\<rparr>) = pool_inv q"
    "pool_inv (q\<lparr>thread_count := c\<rparr>) = pool_inv q" for q t c
    by (simp_all add: pool_inv_def)
  show ?thesis using inv adj by (simp add: manager_loop_def Let_def ext)
qed

inductive pool_step :: "pool \<Rightarrow> pool \<Rightarrow> bool" where
  tick: "pool_step p (manager_loop now now2 active p)"
| pill: "0 < pills p \<Longrightarrow> pool_step p (pill_taken p)"

inductive_cases pool_stepE: "pool_step p p'"

lemma pool_step_inv: "pool_step p p' \<Longrightarrow> pool_inv p \<Longrightarrow> pool_inv p'"
  by (elim pool_stepE) (auto simp: manager_inv, simp add: pill_taken_def pool_inv_def)

lemma pool_steps_inv: "pool_step\<^sup>*\<^sup>* p p' \<Longrightarrow> pool_inv p \<Longrightarrow> pool_inv p'"
  by (induction rule: rtranclp_induct) (auto intro: pool_step_inv)

lemma manager_limits:
  "min_threads (manager_loop now now2 active p) = min_threads p \<and>
   max_threads (manager_loop now now2 active p) = max_threads p"
  by (simp add: manager_loop_def adjust_pool_size_def Let_def grow_eq shrink_eq)

section \<open>Properties\<close>

text \<open>C31: the pool stays within its limits. From the constructor with arbitrary limits, after any
  interleaving of manager runs (whatever the clock readings and connection counts) and threads
  that leave, the sanitised limits hold for the thread count, the threads actually running are
  that count plus the exit requests still pending, so at least one thread always serves, and the
  load filter holds doubles with positive noise.\<close>

theorem pool_stays_in_bounds:
  assumes "pool_step\<^sup>*\<^sup>* (pool_start (pool_new mn mx t0)) p"
  shows "1 \<le> min_threads p \<and> min_threads p \<le> n_threads p \<and> n_threads p \<le> max_threads p \<and>
    running p = n_threads p + pills p \<and> 1 \<le> running p \<and> kf_doubles (filt p)"
  using pool_steps_inv [OF assms pool_inv_start] by (simp add: pool_inv_def)

theorem pool_stays_in_bounds_witness:
  "\<exists>p. pool_step\<^sup>*\<^sup>* (pool_start (pool_new 0 (-3) 0)) p \<and> 1 \<le> n_threads p \<and> n_threads p \<le> max_threads p"
  using pool_stays_in_bounds [of 0 "-3" 0, OF rtranclp.rtrancl_refl] by force

text \<open>Resizing is damped. One manager run changes the thread count only if at least two seconds
  have passed since the last change, which it then records; it takes away at most one thread, and
  never adds more than the forecast asks for.\<close>

theorem resize_is_damped:
  assumes "pool_inv p" and "p' = manager_loop now now2 active p" and "n_threads p' \<noteq> n_threads p"
  shows "2 \<le> to_seconds (now2 - last_resize p) \<and> last_resize p' = now2 \<and> n_threads p - 1 \<le> n_threads p' \<and>
    (n_threads p < n_threads p' \<longrightarrow> n_threads p' \<le> \<lceil>rnd (predict_future_load 1 (filt p') / 5)\<rceil>)"
proof -
  let ?k = "kf_update (of_int active) (kf_predict (clamp_dt (to_seconds (now - last_tick p))) (filt p))"
  let ?q = "p\<lparr>last_tick := now, filt := ?k\<rparr>" and ?r = "\<lceil>rnd (predict_future_load 1 ?k / 5)\<rceil>"
  have lim: "1 \<le> min_threads p" "min_threads p \<le> n_threads p" "n_threads p \<le> max_threads p"
    using assms(1) by (simp_all add: pool_inv_def)
  have t: "1 \<le> pick_target ?r ?q" "n_threads p - 1 \<le> pick_target ?r ?q"
    "n_threads p < pick_target ?r ?q \<Longrightarrow> pick_target ?r ?q \<le> ?r"
    using lim pick_target_bounds [of ?q ?r] pick_target_shrinks_by_one [of ?q ?r]
    by (simp_all add: pick_target_def Let_def split: if_splits)
  have cool: "\<not> to_seconds (now2 - last_resize p) < 2" and ne: "pick_target ?r ?q \<noteq> n_threads p"
    using assms(2,3) by (auto simp: manager_loop_def Let_def split: if_splits)
  then have p': "p' = (adjust_pool_size (pick_target ?r ?q) ?q)\<lparr>last_resize := now2,
      thread_count := n_threads (adjust_pool_size (pick_target ?r ?q) ?q)\<rparr>"
    using assms(2) by (simp add: manager_loop_def Let_def)
  have "n_threads p' = pick_target ?r ?q" "filt p' = ?k" "last_resize p' = now2"
    using p' adjust_eq [OF t(1), of ?q] lim by (simp_all add: Let_def)
  with cool t show ?thesis by simp
qed

text \<open>Finished threads are never taken out of the vector: each cycle of growing and shrinking
  leaves it longer by the difference, without a bound.\<close>

lemma thread_vector_grows:
  assumes "1 \<le> a" "a \<le> b" "n_threads p = a"
  shows "pool_size (((\<lambda>q. adjust_pool_size a (adjust_pool_size b q)) ^^ k) p) = pool_size p + int k * (b - a) \<and>
    n_threads (((\<lambda>q. adjust_pool_size a (adjust_pool_size b q)) ^^ k) p) = a"
  using assms by (induction k) (auto simp: adjust_eq Let_def algebra_simps)

end
