(* ===== verification/Ordered_Map.thy ===== *)
theory Ordered_Map
  imports L3_Prelude "HOL-Library.List_Lexorder"
begin

text \<open>
  The part of \<^verbatim>\<open>std::map\<close> that the service uses: an association list in key order. Strings are
  compared byte by byte, as \<^verbatim>\<open>std::string\<close> does. A map has one representation, so equal contents
  are equal lists and iterate in the same order.
\<close>

type_synonym ('k, 'v) omap = "('k \<times> 'v) list"

text \<open>\<^verbatim>\<open>m[k]\<close> followed by a change of the element: an absent element is value-initialised first.\<close>

fun om_modify :: "'k::linorder \<Rightarrow> ('v \<Rightarrow> 'v) \<Rightarrow> 'v \<Rightarrow> ('k, 'v) omap \<Rightarrow> ('k, 'v) omap" where
  "om_modify k f init [] = [(k, f init)]"
| "om_modify k f init ((a, x) # m) =
     (if k < a then (k, f init) # (a, x) # m
      else if k = a then (a, f x) # m
      else (a, x) # om_modify k f init m)"

definition om_put :: "'k::linorder \<Rightarrow> 'v \<Rightarrow> ('k, 'v) omap \<Rightarrow> ('k, 'v) omap" where
  "om_put k v m = om_modify k (\<lambda>_. v) v m"

definition om_inv :: "('k::linorder, 'v) omap \<Rightarrow> bool" where
  "om_inv m = sorted_wrt (<) (map fst m)"

lemma om_inv_simps [simp]:
  "om_inv []" "om_inv ((k, v) # m) \<longleftrightarrow> (\<forall>a \<in> fst ` set m. k < a) \<and> om_inv m"
  by (auto simp: om_inv_def)

lemma om_modify_keys: "fst ` set (om_modify k f i m) = insert k (fst ` set m)"
  by (induction k f i m rule: om_modify.induct) auto

lemma om_inv_modify [simp, intro]: "om_inv m \<Longrightarrow> om_inv (om_modify k f i m)"
  by (induction k f i m rule: om_modify.induct) (auto simp: om_modify_keys)

lemma om_inv_put [simp, intro]: "om_inv m \<Longrightarrow> om_inv (om_put k v m)"
  by (simp add: om_put_def)

lemma map_of_om_modify:
  "om_inv m \<Longrightarrow> map_of (om_modify k f i m) = (map_of m)(k \<mapsto> f (case map_of m k of Some x \<Rightarrow> x | None \<Rightarrow> i))"
proof (induction k f i m rule: om_modify.induct)
  case (2 k f i a x m)
  have "map_of m k = None" if "\<forall>b \<in> fst ` set m. a < b" "k < a"
    using that by (auto simp: map_of_eq_None_iff)
  with 2 show ?case by (auto simp: fun_upd_twist)
qed simp

lemma map_of_om_put [simp]: "om_inv m \<Longrightarrow> map_of (om_put k v m) = (map_of m)(k \<mapsto> v)"
  by (simp add: om_put_def map_of_om_modify)

lemma om_modify_elem:
  "(a, y) \<in> set (om_modify k f i m) \<Longrightarrow> (a, y) \<in> set m \<or> y = f i \<or> (\<exists>x. (k, x) \<in> set m \<and> y = f x)"
  by (induction k f i m rule: om_modify.induct) (auto split: if_splits)

text \<open>Ordered maps with the same lookups are the same list.\<close>

lemma om_inv_distinct: "om_inv m \<Longrightarrow> distinct (map fst m)"
  by (simp add: om_inv_def strict_sorted_iff)

lemma om_ext:
  assumes "om_inv m" "om_inv m'" "map_of m = map_of m'"
  shows "m = m'"
proof -
  have keys: "map fst m = map fst m'"
    using assms by (intro strict_sorted_equal) (auto simp: om_inv_def dom_map_of_conv_image_fst [symmetric])
  have "m = map (\<lambda>k. (k, the (map_of m k))) (map fst m)" if "om_inv m" for m :: "('a, 'b) omap"
    using om_inv_distinct [OF that] by (auto intro!: map_idI [symmetric])
  from this [OF assms(1)] this [OF assms(2)] show ?thesis using keys assms(3) by simp
qed

text \<open>Changes of elements commute when their functions do.\<close>

lemma om_modify_commute:
  assumes "om_inv m" "\<And>x. f (g x) = g (f x)"
  shows "om_modify k f i (om_modify l g i m) = om_modify l g i (om_modify k f i m)"
  by (rule om_ext) (use assms in \<open>auto simp: map_of_om_modify fun_upd_twist split: option.splits\<close>)

text \<open>A view of the elements. It sees a change through a view of the old element if the change does, and
  two changes in either order if they differ only where it does not look.\<close>

abbreviation om_view :: "('v \<Rightarrow> 'w) \<Rightarrow> ('k, 'v) omap \<Rightarrow> ('k, 'w) omap" where
  "om_view g m \<equiv> map (map_prod id g) m"

lemma om_inv_view [simp]: "om_inv (om_view g m) = om_inv m"
  by (simp add: om_inv_def)

lemma map_of_view: "map_of (om_view g m) = map_option g \<circ> map_of m"
  by (induction m) auto

lemma om_view_modify:
  "(\<And>x. g (g x) = g x) \<Longrightarrow> (\<And>x. g (f (g x)) = g (f x)) \<Longrightarrow> om_view g (om_modify k f i (om_view g m)) = om_view g (om_modify k f i m)"
  by (induction k f i m rule: om_modify.induct) auto

lemma om_view_commute:
  assumes "om_inv m" "\<And>x. g (f (h x)) = g (h (f x))"
  shows "om_view g (om_modify k f i (om_modify l h i m)) = om_view g (om_modify l h i (om_modify k f i m))"
proof (rule om_ext)
  show "map_of (om_view g (om_modify k f i (om_modify l h i m))) = map_of (om_view g (om_modify l h i (om_modify k f i m)))"
    using assms by (auto simp: map_of_view map_of_om_modify fun_eq_iff split: option.splits)
qed (use assms(1) in simp_all)

end
