(* ===== verification/Metrics.thy ===== *)
theory Metrics
  imports Ordered_Map Decimal Double
begin

text \<open>
  \<^verbatim>\<open>SimpleMetrics\<close> of \<^verbatim>\<open>observability/simple_metrics.{hpp,cpp}\<close>: the counters that sessions, the mesh
  and anti-entropy update, and the JSON report of \<^verbatim>\<open>/metrics\<close>. Counters are 64-bit words and wrap;
  latencies are doubles, whose sums and quotients are rounded (\<open>rnd\<close>). The return values, always \<^verbatim>\<open>true\<close>,
  are left out. The properties: what concurrent threads record does not depend on their order except
  for the sums of latencies, and how close the reported averages are to the exact ones.
\<close>

section \<open>State\<close>

record op_stats =
  op_count :: u64
  total_latency :: real
  max_latency :: real

record lane_counts =
  lane_sent :: u64
  lane_recv :: u64

record metrics =
  operation_stats :: "(bytes, op_stats) omap"
  buffer_usage :: u64
  buffer_capacity :: u64
  node_splits :: u64
  hash_collisions :: u64
  bytes_received :: u64
  bytes_sent :: u64
  active_connections :: "64 word"
  errors_4xx :: u64
  errors_5xx :: u64
  sync_stats :: "(bytes, u64) omap"
  keys_repaired :: u64
  lane_stats :: "(bytes, lane_counts) omap"
  thread_count :: int

definition op_stats_init :: op_stats where
  "op_stats_init = \<lparr>op_count = 0, total_latency = 0, max_latency = 0\<rparr>"

definition metrics_init :: metrics where
  "metrics_init =
     \<lparr>operation_stats = [], buffer_usage = 0, buffer_capacity = 0, node_splits = 0, hash_collisions = 0,
      bytes_received = 0, bytes_sent = 0, active_connections = 0, errors_4xx = 0, errors_5xx = 0,
      sync_stats = [], keys_repaired = 0, lane_stats = [], thread_count = 0\<rparr>"

section \<open>Recording\<close>

definition add_latency :: "real \<Rightarrow> op_stats \<Rightarrow> op_stats" where
  "add_latency seconds st =
     st\<lparr>op_count := op_count st + 1, total_latency := rnd (total_latency st + seconds),
        max_latency := (if seconds > max_latency st then seconds else max_latency st)\<rparr>"

definition count_op :: "op_stats \<Rightarrow> op_stats" where
  "count_op st = st\<lparr>op_count := op_count st + 1\<rparr>"

definition record_latency :: "bytes \<Rightarrow> real \<Rightarrow> metrics \<Rightarrow> metrics" where
  "record_latency operation seconds m =
     m\<lparr>operation_stats := om_modify operation (add_latency seconds) op_stats_init (operation_stats m)\<rparr>"

definition increment_operation_count :: "bytes \<Rightarrow> bytes \<Rightarrow> metrics \<Rightarrow> metrics" where
  "increment_operation_count operation st m =
     m\<lparr>operation_stats := om_modify (operation @ lit ''_'' @ st) count_op op_stats_init (operation_stats m)\<rparr>"

definition set_buffer_usage :: "u64 \<Rightarrow> metrics \<Rightarrow> metrics" where
  "set_buffer_usage n m = m\<lparr>buffer_usage := n\<rparr>"

definition set_buffer_capacity :: "u64 \<Rightarrow> metrics \<Rightarrow> metrics" where
  "set_buffer_capacity n m = m\<lparr>buffer_capacity := n\<rparr>"

definition increment_node_splits :: "metrics \<Rightarrow> metrics" where
  "increment_node_splits m = m\<lparr>node_splits := node_splits m + 1\<rparr>"

definition increment_hash_collisions :: "metrics \<Rightarrow> metrics" where
  "increment_hash_collisions m = m\<lparr>hash_collisions := hash_collisions m + 1\<rparr>"

definition set_thread_count :: "int \<Rightarrow> metrics \<Rightarrow> metrics" where
  "set_thread_count n m = m\<lparr>thread_count := n\<rparr>"

definition record_bytes_received :: "u64 \<Rightarrow> metrics \<Rightarrow> metrics" where
  "record_bytes_received n m = m\<lparr>bytes_received := bytes_received m + n\<rparr>"

definition record_bytes_sent :: "u64 \<Rightarrow> metrics \<Rightarrow> metrics" where
  "record_bytes_sent n m = m\<lparr>bytes_sent := bytes_sent m + n\<rparr>"

definition increment_active_connections :: "metrics \<Rightarrow> metrics" where
  "increment_active_connections m = m\<lparr>active_connections := active_connections m + 1\<rparr>"

definition decrement_active_connections :: "metrics \<Rightarrow> metrics" where
  "decrement_active_connections m = m\<lparr>active_connections := active_connections m - 1\<rparr>"

definition record_error :: "int \<Rightarrow> metrics \<Rightarrow> metrics" where
  "record_error status_code m =
     (if status_code \<ge> 500 then m\<lparr>errors_5xx := errors_5xx m + 1\<rparr>
      else if status_code \<ge> 400 then m\<lparr>errors_4xx := errors_4xx m + 1\<rparr>
      else m)"

definition increment_sync_ops :: "bytes \<Rightarrow> metrics \<Rightarrow> metrics" where
  "increment_sync_ops type m = m\<lparr>sync_stats := om_modify type (\<lambda>n. n + 1) 0 (sync_stats m)\<rparr>"

definition increment_keys_repaired :: "metrics \<Rightarrow> metrics" where
  "increment_keys_repaired m = m\<lparr>keys_repaired := keys_repaired m + 1\<rparr>"

definition add_traffic :: "u64 \<Rightarrow> bool \<Rightarrow> lane_counts \<Rightarrow> lane_counts" where
  "add_traffic n is_send c =
     (if is_send then c\<lparr>lane_sent := lane_sent c + n\<rparr> else c\<lparr>lane_recv := lane_recv c + n\<rparr>)"

definition increment_mesh_bytes :: "bytes \<Rightarrow> u64 \<Rightarrow> bool \<Rightarrow> metrics \<Rightarrow> metrics" where
  "increment_mesh_bytes lane n is_send m =
     m\<lparr>lane_stats := om_modify lane (add_traffic n is_send) \<lparr>lane_sent = 0, lane_recv = 0\<rparr> (lane_stats m)\<rparr>"

text \<open>The getter narrows the 64-bit counter to \<^verbatim>\<open>int\<close>.\<close>

definition get_active_connections :: "metrics \<Rightarrow> int" where
  "get_active_connections m = sint (ucast (active_connections m) :: u32)"

section \<open>The report\<close>

definition avg_latency :: "op_stats \<Rightarrow> real" where
  "avg_latency st = (if op_count st > 0 then rnd (total_latency st / rnd (real (unat (op_count st)))) else 0)"

text \<open>A quoted text and a number field, as the code streams them.\<close>

definition quoted :: "bytes \<Rightarrow> bytes" where
  "quoted s = [34] @ s @ [34]"

definition u64_field :: "string \<Rightarrow> string \<Rightarrow> u64 \<Rightarrow> bytes" where
  "u64_field indent name n = lit indent @ quoted (lit name) @ lit '': '' @ to_string (uint n)"

definition comma_nl :: bytes where
  "comma_nl = [44, 10]"

text \<open>The entries of a map, separated by a comma and a line feed.\<close>

fun joined :: "bytes list \<Rightarrow> bytes" where
  "joined [] = []"
| "joined [x] = x"
| "joined (x # y # ys) = x @ comma_nl @ joined (y # ys)"

definition json_op :: "(real \<Rightarrow> bytes) \<Rightarrow> bytes \<times> op_stats \<Rightarrow> bytes" where
  "json_op show_double e =
     lit ''    '' @ quoted (fst e) @ lit '': {'' @ [10] @
     u64_field ''      '' ''count'' (op_count (snd e)) @ comma_nl @
     lit ''      '' @ quoted (lit ''avg_latency_s'') @ lit '': '' @ show_double (avg_latency (snd e)) @ comma_nl @
     lit ''      '' @ quoted (lit ''max_latency_s'') @ lit '': '' @ show_double (max_latency (snd e)) @ [10] @
     lit ''    }''"

definition json_sync :: "bytes \<times> u64 \<Rightarrow> bytes" where
  "json_sync e = lit ''      '' @ quoted (fst e) @ lit '': '' @ to_string (uint (snd e))"

definition json_lane :: "bytes \<times> lane_counts \<Rightarrow> bytes" where
  "json_lane e =
     lit ''      '' @ quoted (fst e) @ lit '': { '' @ quoted (lit ''sent'') @ lit '': '' @
     to_string (uint (lane_sent (snd e))) @ lit '', '' @ quoted (lit ''recv'') @ lit '': '' @
     to_string (uint (lane_recv (snd e))) @ lit '' }''"

definition get_json :: "(real \<Rightarrow> bytes) \<Rightarrow> metrics \<Rightarrow> bytes" where
  "get_json show_double m =
     lit ''{'' @ [10] @ lit ''  '' @ quoted (lit ''system'') @ lit '': {'' @ [10] @
     u64_field ''    '' ''buffer_usage_bytes'' (buffer_usage m) @ comma_nl @
     u64_field ''    '' ''buffer_capacity_bytes'' (buffer_capacity m) @ comma_nl @
     lit ''    '' @ quoted (lit ''active_connections'') @ lit '': '' @ to_string (sint (active_connections m)) @ comma_nl @
     u64_field ''    '' ''node_splits'' (node_splits m) @ comma_nl @
     u64_field ''    '' ''hash_collisions'' (hash_collisions m) @ comma_nl @
     lit ''    '' @ quoted (lit ''thread_count'') @ lit '': '' @ to_string (thread_count m) @ [10] @
     lit ''  }'' @ comma_nl @ lit ''  '' @ quoted (lit ''throughput'') @ lit '': {'' @ [10] @
     u64_field ''    '' ''bytes_received_total'' (bytes_received m) @ comma_nl @
     u64_field ''    '' ''bytes_sent_total'' (bytes_sent m) @ comma_nl @
     u64_field ''    '' ''http_errors_4xx'' (errors_4xx m) @ comma_nl @
     u64_field ''    '' ''http_errors_5xx'' (errors_5xx m) @ [10] @
     lit ''  }'' @ comma_nl @ lit ''  '' @ quoted (lit ''operations'') @ lit '': {'' @ [10] @
     joined (map (json_op show_double) (operation_stats m)) @
     [10] @ lit ''  }'' @ comma_nl @ lit ''  '' @ quoted (lit ''replication'') @ lit '': {'' @ [10] @
     u64_field ''    '' ''keys_repaired'' (keys_repaired m) @ comma_nl @
     lit ''    '' @ quoted (lit ''sync_ops'') @ lit '': {'' @ [10] @
     joined (map json_sync (sync_stats m)) @
     [10] @ lit ''    }'' @ comma_nl @ lit ''    '' @ quoted (lit ''mesh_traffic'') @ lit '': {'' @ [10] @
     joined (map json_lane (lane_stats m)) @
     [10] @ lit ''    }'' @ [10] @ lit ''  }'' @ [10] @ lit ''}''"

text \<open>The text page of \<^verbatim>\<open>/kv/metrics\<close>; \<open>show_fixed\<close> prints a double with six decimals.\<close>

definition setw_left :: "nat \<Rightarrow> bytes \<Rightarrow> bytes" where
  "setw_left n s = s @ replicate (n - length s) 32"

definition op_line :: "(real \<Rightarrow> bytes) \<Rightarrow> bytes \<times> op_stats \<Rightarrow> bytes" where
  "op_line show_fixed e =
     lit ''  '' @ setw_left 25 (fst e) @ lit '' Count: '' @ setw_left 10 (to_string (uint (op_count (snd e)))) @
     lit '' Avg Latency: '' @ show_fixed (avg_latency (snd e)) @ lit ''s'' @
     lit '' Max Latency: '' @ show_fixed (max_latency (snd e)) @ lit ''s'' @ [10]"

definition get_metrics_string :: "(real \<Rightarrow> bytes) \<Rightarrow> metrics \<Rightarrow> bytes" where
  "get_metrics_string show_fixed m =
     [10] @ lit ''=== Internal Service Metrics ==='' @ [10] @
     lit ''Buffer Usage: '' @ to_string (uint (buffer_usage m)) @ lit '' / '' @
     to_string (uint (buffer_capacity m)) @ lit '' bytes'' @ [10] @
     lit ''Node Splits: '' @ to_string (uint (node_splits m)) @ [10] @
     lit ''Hash Collisions: '' @ to_string (uint (hash_collisions m)) @ [10] @
     lit ''Thread Count: '' @ to_string (thread_count m) @ [10] @
     lit ''Operations:'' @ [10] @
     concat (map (op_line show_fixed) (operation_stats m)) @
     lit ''================================'' @ [10]"

text \<open>\<^verbatim>\<open>dump_metrics\<close> writes the lines of the page to the standard output, each ended by \<^verbatim>\<open>endl\<close>; the rule
  at the end is followed by an empty line.\<close>

definition dump_metrics :: "(real \<Rightarrow> bytes) \<Rightarrow> metrics \<Rightarrow> bytes" where
  "dump_metrics show_fixed m =
     concat (map (\<lambda>l. l @ [10])
       [[], lit ''=== Internal Service Metrics ==='',
        lit ''Buffer Usage: '' @ to_string (uint (buffer_usage m)) @ lit '' / '' @
          to_string (uint (buffer_capacity m)) @ lit '' bytes'',
        lit ''Node Splits: '' @ to_string (uint (node_splits m)),
        lit ''Hash Collisions: '' @ to_string (uint (hash_collisions m)),
        lit ''Thread Count: '' @ to_string (thread_count m),
        lit ''Operations:'']) @
     concat (map (op_line show_fixed) (operation_stats m)) @
     concat (map (\<lambda>l. l @ [10]) [lit ''================================'', []])"

lemma dump_metrics_page: "dump_metrics show_fixed m = get_metrics_string show_fixed m @ [10]"
  by (simp add: dump_metrics_def get_metrics_string_def)

section \<open>Recording as events\<close>

text \<open>The calls that count something. The three setters store a value and are not among them.\<close>

datatype metric_event =
    Latency bytes real
  | Operation bytes bytes
  | Node_split
  | Hash_collision
  | Bytes_received u64
  | Bytes_sent u64
  | Opened
  | Closed
  | Error_status int
  | Sync_op bytes
  | Key_repaired
  | Mesh_bytes bytes u64 bool

fun record_event :: "metric_event \<Rightarrow> metrics \<Rightarrow> metrics" where
  "record_event (Latency op t) = record_latency op t"
| "record_event (Operation op st) = increment_operation_count op st"
| "record_event Node_split = increment_node_splits"
| "record_event Hash_collision = increment_hash_collisions"
| "record_event (Bytes_received n) = record_bytes_received n"
| "record_event (Bytes_sent n) = record_bytes_sent n"
| "record_event Opened = increment_active_connections"
| "record_event Closed = decrement_active_connections"
| "record_event (Error_status c) = record_error c"
| "record_event (Sync_op t) = increment_sync_ops t"
| "record_event Key_repaired = increment_keys_repaired"
| "record_event (Mesh_bytes l n d) = increment_mesh_bytes l n d"

definition metrics_inv :: "metrics \<Rightarrow> bool" where
  "metrics_inv m \<longleftrightarrow> om_inv (operation_stats m) \<and> om_inv (sync_stats m) \<and> om_inv (lane_stats m)"

lemmas recorders =
  record_latency_def increment_operation_count_def increment_node_splits_def increment_hash_collisions_def
  record_bytes_received_def record_bytes_sent_def increment_active_connections_def
  decrement_active_connections_def record_error_def increment_sync_ops_def increment_keys_repaired_def
  increment_mesh_bytes_def

lemma metrics_inv_init [simp]: "metrics_inv metrics_init"
  by (simp add: metrics_inv_def metrics_init_def)

lemma metrics_inv_event [simp]: "metrics_inv m \<Longrightarrow> metrics_inv (record_event e m)"
  by (cases e) (auto simp: metrics_inv_def recorders)

text \<open>The metrics without the sums of latencies, which are the only doubles that accumulate.\<close>

definition no_total :: "op_stats \<Rightarrow> op_stats" where
  "no_total st = st\<lparr>total_latency := 0\<rparr>"

definition without_totals :: "metrics \<Rightarrow> metrics" where
  "without_totals m = m\<lparr>operation_stats := om_view no_total (operation_stats m)\<rparr>"

text \<open>Updates of one map entry commute, apart from the sums.\<close>

lemma op_updates_commute:
  "no_total (add_latency s (add_latency t st)) = no_total (add_latency t (add_latency s st))"
  "no_total (add_latency s (count_op st)) = no_total (count_op (add_latency s st))"
  by (simp_all add: add_latency_def count_op_def no_total_def)

lemma no_total_absorbs:
  "no_total (add_latency s (no_total st)) = no_total (add_latency s st)"
  "no_total (count_op (no_total st)) = no_total (count_op st)"
  by (simp_all add: add_latency_def count_op_def no_total_def)

lemma no_total_twice:
  "no_total (no_total st) = no_total st" "map_prod id no_total \<circ> map_prod id no_total = map_prod id no_total"
  by (auto simp: no_total_def fun_eq_iff)

lemma add_traffic_commute: "add_traffic a d (add_traffic b e c) = add_traffic b e (add_traffic a d c)"
  by (simp add: add_traffic_def)

lemmas entry_commute =
  om_view_commute [where g = no_total and f = "add_latency s" and h = "add_latency t" for s t, OF _ op_updates_commute(1)]
  om_view_commute [where g = no_total and f = "add_latency s" and h = count_op for s, OF _ op_updates_commute(2)]
  om_view_commute [where g = no_total and f = count_op and h = count_op, OF _ refl]
  om_modify_commute [where f = "add_traffic a d" and g = "add_traffic b e" for a d b e, OF _ add_traffic_commute]
  om_modify_commute [where f = "\<lambda>n. n + 1 :: u64" and g = "\<lambda>n. n + 1", OF _ refl]

lemma record_event_commute:
  assumes "metrics_inv m"
  shows "without_totals (record_event a (record_event b m)) = without_totals (record_event b (record_event a m))"
  using assms unfolding metrics_inv_def
  by (cases a; cases b) (simp_all add: without_totals_def recorders entry_commute)

lemma record_event_absorbs: "without_totals (record_event e (without_totals m)) = without_totals (record_event e m)"
  by (cases e) (simp_all add: without_totals_def recorders om_view_modify no_total_absorbs no_total_twice)

text \<open>A recorder keeps its invariant; seen through \<open>view\<close>, a record depends only on the view of the state and
  two records commute. Threads may then record in any order.\<close>

locale recorder =
  fixes put_event :: "'e \<Rightarrow> 's \<Rightarrow> 's" and ok :: "'s \<Rightarrow> bool" and view :: "'s \<Rightarrow> 's"
  assumes keeps: "ok s \<Longrightarrow> ok (put_event e s)"
    and view_ok: "ok s \<Longrightarrow> ok (view s)"
    and absorbs: "view (put_event e (view s)) = view (put_event e s)"
    and swap: "ok s \<Longrightarrow> view (put_event a (put_event b s)) = view (put_event b (put_event a s))"
begin

lemma keeps_all: "ok s \<Longrightarrow> ok (fold put_event es s)"
  by (induction es arbitrary: s) (auto intro: keeps)

lemma view_fold: "view (fold put_event es s) = (if es = [] then view s else fold (\<lambda>e s. view (put_event e s)) es (view s))"
proof (induction es arbitrary: s)
  case (Cons e es)
  then show ?case by (cases es) (simp_all add: absorbs)
qed simp

lemma order_irrelevant:
  assumes "ok s" "mset es = mset es'"
  shows "view (fold put_event es s) = view (fold put_event es' s)"
proof -
  have "fold (\<lambda>e s. view (put_event e s)) es (view s) = fold (\<lambda>e s. view (put_event e s)) es' (view s)"
    by (rule fold_permuted_eq [where P = ok]) (use assms in \<open>auto simp: absorbs intro: keeps view_ok swap\<close>)
  moreover have "es = [] \<longleftrightarrow> es' = []" using assms(2) by auto
  ultimately show ?thesis by (simp add: view_fold)
qed

end

interpretation sm: recorder record_event metrics_inv without_totals
proof
  show "metrics_inv m \<Longrightarrow> metrics_inv (without_totals m)" for m by (simp add: metrics_inv_def without_totals_def)
qed (auto intro: record_event_commute record_event_absorbs)

section \<open>Counters and latencies\<close>

text \<open>What one event adds to a counter, and the total over a list of events.\<close>

definition received_by :: "metric_event \<Rightarrow> u64" where
  "received_by e = (case e of Bytes_received n \<Rightarrow> n | _ \<Rightarrow> 0)"

definition sent_by :: "metric_event \<Rightarrow> u64" where
  "sent_by e = (case e of Bytes_sent n \<Rightarrow> n | _ \<Rightarrow> 0)"

definition is_4xx :: "metric_event \<Rightarrow> bool" where
  "is_4xx e = (case e of Error_status c \<Rightarrow> 400 \<le> c \<and> c < 500 | _ \<Rightarrow> False)"

definition is_5xx :: "metric_event \<Rightarrow> bool" where
  "is_5xx e = (case e of Error_status c \<Rightarrow> 500 \<le> c | _ \<Rightarrow> False)"

definition count_if :: "('a \<Rightarrow> bool) \<Rightarrow> 'a list \<Rightarrow> nat" where
  "count_if p xs = length (filter p xs)"

lemma count_if_simps [simp]:
  "count_if p [] = 0" "count_if p (x # xs) = (if p x then 1 else 0) + count_if p xs"
  "count_if p (xs @ ys) = count_if p xs + count_if p ys"
  by (simp_all add: count_if_def)

lemmas event_kinds = received_by_def sent_by_def is_4xx_def is_5xx_def

lemma event_counters:
  "active_connections (record_event e m) =
     active_connections m + (if e = Opened then 1 else 0) - (if e = Closed then 1 else 0)"
  "errors_4xx (record_event e m) = errors_4xx m + (if is_4xx e then 1 else 0)"
  "errors_5xx (record_event e m) = errors_5xx m + (if is_5xx e then 1 else 0)"
  "bytes_received (record_event e m) = bytes_received m + received_by e"
  "bytes_sent (record_event e m) = bytes_sent m + sent_by e"
  by (cases e; simp add: recorders event_kinds)+

lemma events_counters:
  "active_connections (fold record_event es m) =
     active_connections m + of_nat (count_if ((=) Opened) es) - of_nat (count_if ((=) Closed) es)"
  "errors_4xx (fold record_event es m) = errors_4xx m + of_nat (count_if is_4xx es)"
  "errors_5xx (fold record_event es m) = errors_5xx m + of_nat (count_if is_5xx es)"
  "bytes_received (fold record_event es m) = bytes_received m + sum_list (map received_by es)"
  "bytes_sent (fold record_event es m) = bytes_sent m + sum_list (map sent_by es)"
proof (induction es arbitrary: m)
  case (Cons e es)
  { case 1 show ?case by (simp add: Cons event_counters del: record_event.simps)
  next case 2 show ?case by (simp add: Cons event_counters del: record_event.simps)
  next case 3 show ?case by (simp add: Cons event_counters del: record_event.simps)
  next case 4 show ?case by (simp add: Cons event_counters del: record_event.simps)
  next case 5 show ?case by (simp add: Cons event_counters del: record_event.simps) }
qed simp_all

section \<open>Sums and averages of one operation\<close>

text \<open>The statistics under one key, and what one event does to them.\<close>

definition stats_of :: "bytes \<Rightarrow> metrics \<Rightarrow> op_stats" where
  "stats_of k m = (case map_of (operation_stats m) k of Some st \<Rightarrow> st | None \<Rightarrow> op_stats_init)"

definition on_key :: "bytes \<Rightarrow> metric_event \<Rightarrow> bool" where
  "on_key k e = (case e of Latency op t \<Rightarrow> op = k | Operation op st \<Rightarrow> op @ lit ''_'' @ st = k | _ \<Rightarrow> False)"

definition key_event :: "metric_event \<Rightarrow> op_stats \<Rightarrow> op_stats" where
  "key_event e st = (case e of Latency op t \<Rightarrow> add_latency t st | _ \<Rightarrow> count_op st)"

definition latencies_of :: "bytes \<Rightarrow> metric_event list \<Rightarrow> real list" where
  "latencies_of k es = concat (map (\<lambda>e. case e of Latency op t \<Rightarrow> if op = k then [t] else [] | _ \<Rightarrow> []) es)"

definition calls_of :: "bytes \<Rightarrow> metric_event list \<Rightarrow> nat" where
  "calls_of k es = length (filter (on_key k) es)"

lemma stats_of_event:
  "metrics_inv m \<Longrightarrow> stats_of k (record_event e m) = (if on_key k e then key_event e (stats_of k m) else stats_of k m)"
  by (cases e)
    (auto simp: stats_of_def on_key_def key_event_def recorders metrics_inv_def map_of_om_modify split: option.splits)

lemma operation_keys:
  "fst ` set (operation_stats (record_event e m)) \<subseteq> {k. on_key k e} \<union> fst ` set (operation_stats m)"
  by (cases e) (auto simp: recorders om_modify_keys on_key_def)

text \<open>A latency is a non-negative double; \<^verbatim>\<open>duration\<close> counts nanoseconds in 64 bits.\<close>

definition timed_ok :: "metric_event \<Rightarrow> bool" where
  "timed_ok e = (case e of Latency op t \<Rightarrow> is_double t \<and> 0 \<le> t \<and> t \<le> 2 ^ 64 | _ \<Rightarrow> True)"

text \<open>After \<open>n\<close> calls with the latencies \<open>ts\<close>: each of the sums is off by at most a rounding.\<close>

definition tracked :: "real list \<Rightarrow> nat \<Rightarrow> op_stats \<Rightarrow> bool" where
  "tracked ts n st \<longleftrightarrow> op_count st = of_nat n \<and> length ts \<le> n \<and> is_double (total_latency st) \<and>
     sum_list ts * (1 - unit_roundoff) ^ n \<le> total_latency st \<and> total_latency st \<le> sum_list ts * (1 + unit_roundoff) ^ n \<and>
     (\<forall>t \<in> set ts. 0 \<le> t \<and> t \<le> max_latency st) \<and> max_latency st \<in> insert 0 (set ts)"

lemma tracked_init: "tracked [] 0 op_stats_init"
  using double_int [of 0] by (simp add: tracked_def op_stats_init_def)

lemma tracked_sum: "tracked ts n st \<Longrightarrow> 0 \<le> sum_list ts" "tracked ts n st \<Longrightarrow> 0 \<le> max_latency st"
  by (auto simp: tracked_def intro!: sum_list_nonneg)

lemma tracked_count:
  assumes "tracked ts n st"
  shows "tracked ts (Suc n) (count_op st)"
proof -
  have s: "0 \<le> sum_list ts" by (rule tracked_sum(1) [OF assms])
  have "(1 - unit_roundoff) ^ Suc n \<le> (1 - unit_roundoff) ^ n" by (rule power_decreasing) simp_all
  from mult_left_mono [OF this s] have lo: "sum_list ts * (1 - unit_roundoff) ^ Suc n \<le> total_latency st"
    using assms by (simp add: tracked_def)
  have "(1 + unit_roundoff) ^ n \<le> (1 + unit_roundoff) ^ Suc n" by (rule power_increasing) simp_all
  from mult_left_mono [OF this s] have hi: "total_latency st \<le> sum_list ts * (1 + unit_roundoff) ^ Suc n"
    using assms by (simp add: tracked_def)
  show ?thesis using assms lo hi by (simp add: tracked_def count_op_def del: power_Suc)
qed

lemma tracked_latency:
  assumes "tracked ts n st" "is_double t" "0 \<le> t"
  shows "tracked (ts @ [t]) (Suc n) (add_latency t st)"
proof -
  let ?u = unit_roundoff and ?T = "total_latency st" and ?S = "sum_list ts"
  have s: "0 \<le> ?S" by (rule tracked_sum(1) [OF assms(1)])
  have b: "?S * (1 - ?u) ^ n \<le> ?T" "?T \<le> ?S * (1 + ?u) ^ n" "is_double ?T" using assms(1) by (simp_all add: tracked_def)
  have T: "0 \<le> ?T" using mult_nonneg_nonneg [OF s, of "(1 - ?u) ^ n"] b(1) by simp
  have e: "\<bar>rnd (?T + t) - (?T + t)\<bar> \<le> ?u * (?T + t)"
    using rnd_sum_error [OF b(3) assms(2)] T assms(3) by simp
  have "(1 - ?u) ^ n \<le> 1" "1 \<le> (1 + ?u) ^ n" by (simp_all add: power_le_one)
  then have "t * (1 - ?u) ^ n \<le> t * 1" "t * 1 \<le> t * (1 + ?u) ^ n" using assms(3) by (intro mult_left_mono; simp)+
  with b have r: "(?S + t) * (1 - ?u) ^ n \<le> ?T + t" "?T + t \<le> (?S + t) * (1 + ?u) ^ n"
    by (simp_all only: distrib_right)
  have "(?S + t) * (1 - ?u) ^ Suc n \<le> (?T + t) * (1 - ?u)"
    using mult_right_mono [OF r(1), of "1 - ?u"] by (simp add: mult_ac)
  also have "\<dots> = ?T + t - ?u * (?T + t)" by (simp add: algebra_simps)
  also have "\<dots> \<le> rnd (?T + t)" using e unfolding abs_diff_le_iff by blast
  finally have lo: "(?S + t) * (1 - ?u) ^ Suc n \<le> rnd (?T + t)" .
  have "rnd (?T + t) \<le> ?T + t + ?u * (?T + t)" using e unfolding abs_diff_le_iff by blast
  also have "\<dots> = (?T + t) * (1 + ?u)" by (simp add: algebra_simps)
  also have "\<dots> \<le> (?S + t) * (1 + ?u) ^ Suc n"
    using mult_right_mono [OF r(2), of "1 + ?u"] by (simp add: mult_ac)
  finally have "rnd (?T + t) \<le> (?S + t) * (1 + ?u) ^ Suc n" .
  with lo show ?thesis using assms by (auto simp: tracked_def add_latency_def simp del: power_Suc)
qed

lemma tracked_events:
  assumes "list_all timed_ok es" "metrics_inv m" "tracked ts n (stats_of k m)"
  shows "tracked (ts @ latencies_of k es) (n + calls_of k es) (stats_of k (fold record_event es m))"
  using assms
proof (induction es arbitrary: m ts n)
  case (Cons e es)
  have e: "timed_ok e" using Cons.prems(1) by simp
  have step: "tracked (ts @ latencies_of k [e]) (n + calls_of k [e]) (stats_of k (record_event e m))"
    using Cons.prems(2,3) e
    by (cases e) (auto simp: stats_of_event on_key_def key_event_def latencies_of_def calls_of_def timed_ok_def
        intro: tracked_count tracked_latency simp del: record_event.simps)
  have "latencies_of k (e # es) = latencies_of k [e] @ latencies_of k es" "calls_of k (e # es) = calls_of k [e] + calls_of k es"
    by (simp_all add: latencies_of_def calls_of_def)
  with Cons.IH [OF _ metrics_inv_event [OF Cons.prems(2), of e] step] Cons.prems(1) show ?case
    by (simp add: add.assoc)
qed (simp add: latencies_of_def calls_of_def)

text \<open>An entry of the report is a key with at least one call.\<close>

lemma reported_stats:
  assumes "(k, st) \<in> set (operation_stats (fold record_event es metrics_init))"
  shows "stats_of k (fold record_event es metrics_init) = st" "0 < calls_of k es"
proof -
  have inv: "metrics_inv (fold record_event es metrics_init)" by (rule sm.keeps_all) simp
  then have "distinct (map fst (operation_stats (fold record_event es metrics_init)))"
    by (simp add: metrics_inv_def om_inv_distinct)
  with assms show "stats_of k (fold record_event es metrics_init) = st" by (simp add: stats_of_def)
  have "fst ` set (operation_stats (fold record_event es m)) \<subseteq> {k. 0 < calls_of k es} \<union> fst ` set (operation_stats m)" for m
  proof (induction es arbitrary: m)
    case (Cons e es)
    have "0 < calls_of a es \<Longrightarrow> 0 < calls_of a (e # es)" "on_key a e \<Longrightarrow> 0 < calls_of a (e # es)" for a
      by (simp_all add: calls_of_def)
    then have "{k. 0 < calls_of k es} \<subseteq> {k. 0 < calls_of k (e # es)}" "{k. on_key k e} \<subseteq> {k. 0 < calls_of k (e # es)}" by auto
    with Cons [of "record_event e m"] operation_keys [of e m] show ?case by (simp del: record_event.simps) blast
  qed simp
  from this [of metrics_init] assms show "0 < calls_of k es" by (force simp: metrics_init_def)
qed

lemma growth_bound: "n < 2 ^ 53 \<Longrightarrow> (1 + unit_roundoff) ^ n \<le> 3"
proof -
  assume n: "n < 2 ^ 53"
  have "(1 + unit_roundoff) ^ n \<le> exp unit_roundoff ^ n" by (rule power_mono) (simp_all add: exp_ge_add_one_self)
  also have "\<dots> = exp (of_nat n * unit_roundoff)" by (simp add: exp_of_nat_mult)
  also have "\<dots> \<le> exp 1"
  proof -
    have "real n \<le> 2 ^ 53" using n by (metis less_imp_le numeral_power_le_of_nat_cancel_iff of_nat_le_iff of_nat_numeral of_nat_power)
    then show ?thesis by (simp add: unit_roundoff_def)
  qed
  also have "\<dots> \<le> 3" by (rule exp_le)
  finally show ?thesis .
qed

lemma tracked_mean:
  assumes "tracked ts n st" "0 < n"
  shows "sum_list ts / n \<le> max_latency st"
proof -
  have "sum_list ts \<le> real (length ts) * max_latency st"
    using assms(1) sum_list_mono [of ts "\<lambda>t. t" "\<lambda>_. max_latency st"] by (simp add: tracked_def sum_list_triv)
  also have "\<dots> \<le> real n * max_latency st"
    using assms(1) tracked_sum(2) [OF assms(1)] by (intro mult_right_mono) (simp_all add: tracked_def)
  finally show ?thesis using assms(2) by (simp add: divide_le_eq mult.commute)
qed

text \<open>The average is the quotient of the sum, rounded once more; a count below \<open>2\<^sup>5\<^sup>3\<close> is a double.\<close>

lemma tracked_avg:
  assumes "tracked ts n st" "0 < n" "n < 2 ^ 53"
  shows "(1 - unit_roundoff) ^ Suc n * (sum_list ts / n) - half_least \<le> avg_latency st"
    "avg_latency st \<le> (1 + unit_roundoff) ^ Suc n * (sum_list ts / n) + half_least"
proof -
  let ?u = unit_roundoff and ?q = "total_latency st / n" and ?e = half_least
  have c: "unat (op_count st) = n" using assms by (simp add: tracked_def unat_of_nat)
  have "rnd (real n) = real n" using double_int [of "int n"] assms(3) by (simp add: is_double_def)
  then have avg: "avg_latency st = rnd ?q" using c assms(2) by (simp add: avg_latency_def word_gt_0) (metis c neq0_conv unat_0)
  have b: "sum_list ts * (1 - ?u) ^ n \<le> total_latency st" "total_latency st \<le> sum_list ts * (1 + ?u) ^ n"
    using assms(1) by (simp_all add: tracked_def)
  have "0 \<le> sum_list ts * (1 - ?u) ^ n" using tracked_sum(1) [OF assms(1)] by simp
  with b(1) have q: "0 \<le> ?q" using assms(2) by simp
  have e: "?q - (?u * ?q + ?e) \<le> rnd ?q" "rnd ?q \<le> ?q + (?u * ?q + ?e)"
    using rnd_error [of ?q, unfolded abs_diff_le_iff abs_of_nonneg [OF q]] by blast+
  have "(1 - ?u) ^ n * (sum_list ts / n) \<le> ?q" using divide_right_mono [OF b(1), of "real n"] by (simp add: mult.commute)
  from mult_left_mono [OF this, of "1 - ?u"] have "(1 - ?u) ^ Suc n * (sum_list ts / n) \<le> (1 - ?u) * ?q"
    by (simp add: mult.assoc)
  also have "\<dots> = ?q - ?u * ?q" by (simp only: left_diff_distrib mult_1_left)
  finally show "(1 - ?u) ^ Suc n * (sum_list ts / n) - ?e \<le> avg_latency st" using e(1) unfolding avg by argo
  have "?q \<le> (1 + ?u) ^ n * (sum_list ts / n)" using divide_right_mono [OF b(2), of "real n"] by (simp add: mult.commute)
  from mult_left_mono [OF this, of "1 + ?u"] have "(1 + ?u) * ?q \<le> (1 + ?u) ^ Suc n * (sum_list ts / n)"
    by (simp add: mult.assoc)
  moreover have "(1 + ?u) * ?q = ?q + ?u * ?q" by (simp only: distrib_right mult_1_left)
  ultimately show "avg_latency st \<le> (1 + ?u) ^ Suc n * (sum_list ts / n) + ?e" using e(2) unfolding avg by argo
qed

section \<open>Properties\<close>



text \<open>The sums themselves: a second added to \<open>2\<^sup>5\<^sup>3\<close> of them is rounded away, two at once are not.\<close>

lemma sums_depend_on_order:
  "total_latency (add_latency 1 (add_latency 1 (add_latency (2 ^ 53) op_stats_init))) = 2 ^ 53"
  "total_latency (add_latency (2 ^ 53) (add_latency 1 (add_latency 1 op_stats_init))) = 2 ^ 53 + 2"
proof -
  have b: "binade (2 ^ 53 + 1) = 53"
    using floor_log_eq_powr_iff [of "2 ^ 53 + 1" 2 53] by (simp add: binade_def powr_numeral)
  then have "ulp (2 ^ 53 + 1) = 2" unfolding ulp_def b by simp
  moreover have "round_half_even ((2 ^ 53 + 1) / 2) = 2 ^ 52"
  proof -
    have "\<lfloor>(2 ^ 53 + 1) / 2 :: real\<rfloor> = 2 ^ 52" by (simp add: floor_eq_iff)
    then show ?thesis unfolding round_half_even_def Let_def by simp
  qed
  ultimately have "rnd (2 ^ 53 + 1) = 2 ^ 53" unfolding rnd_def by simp
  moreover have "rnd 1 = 1" "rnd 2 = 2" "rnd (2 ^ 53) = 2 ^ 53"
    using double_int [of 1] double_int [of 2] double_int [of "2 ^ 53"] by (simp_all add: is_double_def)
  moreover have "rnd (2 ^ 53 + 2) = 2 ^ 53 + 2" using rnd_exact [of "2 ^ 53 + 2" "2 ^ 52 + 1" 1] by simp
  ultimately show "total_latency (add_latency 1 (add_latency 1 (add_latency (2 ^ 53) op_stats_init))) = 2 ^ 53"
    "total_latency (add_latency (2 ^ 53) (add_latency 1 (add_latency 1 op_stats_init))) = 2 ^ 53 + 2"
    by (simp_all add: add_latency_def op_stats_init_def add.commute)
qed

text \<open>C39: the reported averages. After any calls with latencies that are non-negative doubles up to
  \<open>2\<^sup>6\<^sup>4\<close> seconds (fewer than \<open>2\<^sup>5\<^sup>3\<close> calls), every operation in the report has the number of its calls as
  count and the largest of its latencies as maximum, and its average is the exact mean, which is
  at most the maximum, up to one relative rounding error of \<open>2\<^sup>-\<^sup>5\<^sup>3\<close> for each call and one for the division
  (and an absolute one of \<open>2\<^sup>-\<^sup>1\<^sup>0\<^sup>7\<^sup>5\<close>). The sum stays far below the range of doubles, so nothing overflows.\<close>

theorem average_accurate:
  assumes "list_all timed_ok es" and "length es < 2 ^ 53"
    and "(k, st) \<in> set (operation_stats (fold record_event es metrics_init))"
    and "n = calls_of k es" and "mean = sum_list (latencies_of k es) / n"
  shows "op_count st = of_nat n \<and> max_latency st = Max (insert 0 (set (latencies_of k es))) \<and> mean \<le> max_latency st \<and>
    (1 - unit_roundoff) ^ (n + 1) * mean - half_least \<le> avg_latency st \<and>
    avg_latency st \<le> (1 + unit_roundoff) ^ (n + 1) * mean + half_least \<and> total_latency st \<le> 2 ^ 120"
proof -
  let ?ts = "latencies_of k es"
  note st = reported_stats [OF assms(3)]
  have "stats_of k metrics_init = op_stats_init" by (simp add: stats_of_def metrics_init_def)
  then have tr: "tracked ?ts n st"
    using tracked_events [OF assms(1) metrics_inv_init, of "[]" 0 k] st(1) assms(4) tracked_init by simp
  have n: "0 < n" "n < 2 ^ 53" using st(2) assms(2,4) by (auto simp: calls_of_def intro: le_less_trans [OF length_filter_le])
  have "max_latency st = Max (insert 0 (set ?ts))"
    using tr tracked_sum(2) [OF tr] by (intro Max_eqI [symmetric]) (auto simp: tracked_def)
  moreover have "total_latency st \<le> 2 ^ 120"
  proof -
    have "t \<le> 2 ^ 64" if "t \<in> set ?ts" for t
      using that assms(1) by (auto simp: latencies_of_def list_all_iff timed_ok_def split: metric_event.splits if_splits)
    then have "max_latency st \<le> 2 ^ 64" using tr by (auto simp: tracked_def)
    moreover have "sum_list ?ts \<le> real n * max_latency st"
      using tracked_mean [OF tr n(1)] n(1) by (simp add: divide_le_eq mult.commute)
    moreover have "real n * max_latency st \<le> 2 ^ 53 * 2 ^ 64"
      using calculation(1) n(2) tracked_sum(2) [OF tr] by (intro mult_mono) (simp_all add: less_imp_le)
    ultimately have "sum_list ?ts \<le> 2 ^ 53 * 2 ^ 64" by linarith
    then have "sum_list ?ts * (1 + unit_roundoff) ^ n \<le> 2 ^ 53 * 2 ^ 64 * 3"
      using growth_bound [OF n(2)] tracked_sum(1) [OF tr] by (intro mult_mono) simp_all
    moreover have "total_latency st \<le> sum_list ?ts * (1 + unit_roundoff) ^ n" using tr by (simp add: tracked_def)
    ultimately show ?thesis by simp
  qed
  ultimately show ?thesis
    using tr tracked_mean [OF tr n(1)] tracked_avg [OF tr n] assms(5) by (simp add: tracked_def)
qed

theorem average_accurate_witness:
  "avg_latency (stats_of [97] (fold record_event [Latency [97] 1, Latency [97] 2] metrics_init)) \<le>
     (1 + unit_roundoff) ^ 3 * (3 / 2) + half_least"
proof -
  let ?es = "[Latency [97] 1, Latency [97] 2]" and ?m = "fold record_event [Latency [97] 1, Latency [97] 2] metrics_init"
  have "is_double 1" "is_double 2" using double_int [of 1] double_int [of 2] by simp_all
  then have ok: "list_all timed_ok ?es" by (simp add: timed_ok_def)
  obtain st where st: "operation_stats ?m = [([97], st)]" by (simp add: record_latency_def metrics_init_def)
  have "latencies_of [97] ?es = [1, 2]" "calls_of [97] ?es = 2"
    by (simp_all add: latencies_of_def calls_of_def on_key_def)
  with average_accurate [OF ok, of "[97]" st, OF _ _ refl refl] st show ?thesis
    by (simp add: stats_of_def numeral_3_eq_3)
qed

end
