(* ===== verification/Http.thy ===== *)
theory Http
  imports Engine Metrics
begin

text \<open>
  The session half of \<^verbatim>\<open>http/http_server.cpp\<close>: query strings, routing of a request to the engine,
  redirection to the owner of a key, the cluster map and metrics pages, and the read-reply loop of a
  connection with its metrics. The HTTP parser and writer of \<^verbatim>\<open>boost::beast\<close>, the hash ring of
  \<^verbatim>\<open>lite3\<close>, \<^verbatim>\<open>json::dump\<close>, the printing of doubles and the text of the dashboard are given. A request
  is answered, or an exception leaves the handler; as nothing above the handler catches it, that
  ends the process (\<open>Escaped\<close>). \<open>None\<close> is a request still waiting for the clock.
\<close>

section \<open>Requests and replies\<close>

datatype verb = GET_REQ | PUT_REQ | POST_REQ | DELETE_REQ | OTHER_REQ

record request =
  req_method :: verb
  req_target :: bytes
  req_body :: bytes
  req_keep_alive :: bool
  req_http11 :: bool

record response =
  status :: int
  location :: "bytes option"
  content :: bytes
  keep_alive :: bool

datatype reply = Reply response | Escaped

text \<open>The values \<^verbatim>\<open>nlohmann::json\<close> builds for the cluster map.\<close>

datatype json = JNum int | JStr bytes | JArr "json list" | JObj "(bytes, json) omap"

text \<open>What a session is given: the ring (if the cluster is sharded), this node's id, address and
  port, the HTTP addresses of its peers by id, the dashboard, the serialisers, and the statistics of
  the log (bytes, average latency in milliseconds, buffer-full events).\<close>

record site =
  ring :: "(bytes \<Rightarrow> u32) option"
  self_node_id :: u32
  self_address :: bytes
  self_port :: int
  http_peers :: "(u32, bytes \<times> int) omap"
  dashboard_html :: bytes
  dump_json :: "json \<Rightarrow> bytes"
  show_double :: "real \<Rightarrow> bytes"
  show_fixed :: "real \<Rightarrow> bytes"
  wal_stats :: "int \<times> int \<times> int"

text \<open>A reply that sets the connection option from the request, and one that leaves the default of
  its protocol version.\<close>

definition answer :: "request \<Rightarrow> int \<Rightarrow> bytes \<Rightarrow> response" where
  "answer rq st body = \<lparr>status = st, location = None, content = body, keep_alive = req_keep_alive rq\<rparr>"

definition plain_answer :: "request \<Rightarrow> int \<Rightarrow> bytes \<Rightarrow> response" where
  "plain_answer rq st body = \<lparr>status = st, location = None, content = body, keep_alive = req_http11 rq\<rparr>"

definition bad_req :: "request \<Rightarrow> bytes \<Rightarrow> response" where
  "bad_req rq why = plain_answer rq 400 why"

definition redirect_to_owner :: "site \<Rightarrow> request \<Rightarrow> u32 \<Rightarrow> bytes \<Rightarrow> response" where
  "redirect_to_owner S rq owner target =
     (case map_of (http_peers S) owner of
        Some (host, port) \<Rightarrow>
          (plain_answer rq 307 (lit ''Redirecting to owner node '' @ to_string (uint owner)))
            \<lparr>location := Some (lit ''http://'' @ host @ lit '':'' @ to_string port @ target)\<rparr>
      | None \<Rightarrow>
          plain_answer rq 503 (lit ''Key owned by node '' @ to_string (uint owner) @
            lit '' but peer address unknown.''))"

text \<open>The pages: one entry of the cluster map per node, this one first and then the peers by id,
  and the metrics page with the statistics of the log.\<close>

definition json_obj :: "(bytes \<times> json) list \<Rightarrow> json" where
  "json_obj kvs = JObj (fold (\<lambda>(k, v). om_put k v) kvs [])"

definition map_entry :: "u32 \<Rightarrow> bytes \<Rightarrow> int \<Rightarrow> json" where
  "map_entry i host port =
     json_obj [(lit ''id'', JNum (uint i)), (lit ''host'', JStr host), (lit ''http_port'', JNum port)]"

definition cluster_map :: "site \<Rightarrow> json" where
  "cluster_map S =
     json_obj
       [(lit ''peers'',
          JArr (map_entry (self_node_id S) (self_address S) (self_port S) #
                map (\<lambda>(i, host, port). map_entry i host port) (http_peers S))),
        (lit ''mode'', JStr (lit ''sharded''))]"

definition metrics_page :: "site \<Rightarrow> metrics \<Rightarrow> bytes" where
  "metrics_page S mt =
     (case wal_stats S of (written, latency, full) \<Rightarrow>
        get_metrics_string (show_fixed S) mt @
        [10] @ lit ''=== WAL Metrics (libconveyor) ==='' @ [10] @
        lit ''Bytes Written: '' @ to_string written @ [10] @
        lit ''Avg Write Latency: '' @ to_string latency @ lit '' ms'' @ [10] @
        lit ''Buffer Full Events: '' @ to_string full @ [10])"

section \<open>Query strings\<close>

text \<open>
  \<^verbatim>\<open>parse_query\<close> from position \<^verbatim>\<open>pos\<close> on: the name runs to the next \<^verbatim>\<open>=\<close>, the value to the next
  \<^verbatim>\<open>&\<close> after it or to the end; without a further \<^verbatim>\<open>=\<close> the rest is dropped.
\<close>

function parse_query_from :: "bytes \<Rightarrow> (bytes \<Rightarrow> bytes option) \<Rightarrow> bytes \<Rightarrow> bytes option" where
  "parse_query_from q res =
     (if 61 \<in> set q then
        (let k = takeWhile (\<lambda>b. b \<noteq> 61) q;
             rest = drop (Suc (length k)) q;
             v = takeWhile (\<lambda>b. b \<noteq> 38) rest
         in parse_query_from (drop (Suc (length v)) rest) (res(k \<mapsto> v)))
      else res)"
  by pat_completeness auto
termination
  by (relation "measure (\<lambda>(q, res). length q)") (auto intro!: diff_less dest: length_pos_if_in_set)

declare parse_query_from.simps [simp del]

definition parse_query :: "bytes \<Rightarrow> bytes \<Rightarrow> bytes option" where
  "parse_query q = parse_query_from q Map.empty"

text \<open>\<^verbatim>\<open>params[name]\<close>: an absent parameter is the empty string.\<close>

definition param :: "(bytes \<Rightarrow> bytes option) \<Rightarrow> bytes \<Rightarrow> bytes" where
  "param ps name = (case ps name of Some v \<Rightarrow> v | None \<Rightarrow> [])"

section \<open>Routing\<close>

definition kv_prefix :: bytes where
  "kv_prefix = lit ''/kv/''"

definition starts_with :: "bytes \<Rightarrow> bytes \<Rightarrow> bool" where
  "starts_with t p = (take (length p) t = p)"

text \<open>The sharding check: the owner to redirect to, if it is not this node.\<close>

definition foreign_owner :: "site \<Rightarrow> bytes \<Rightarrow> u32 option" where
  "foreign_owner S key =
     (case ring S of
        None \<Rightarrow> None
      | Some get_node \<Rightarrow>
          (let owner = get_node key in
           if owner \<noteq> self_node_id S \<and> owner \<noteq> 0 then Some owner else None))"

type_synonym ('b, 'w) handled = "(reply \<times> ('b, 'w) engine \<times> int list) option"

definition handle_get :: "('b, 'w) env \<Rightarrow> site \<Rightarrow> request \<Rightarrow> bytes \<Rightarrow> ('b, 'w) engine \<Rightarrow> response" where
  "handle_get E S rq key en =
     (case foreign_owner S key of
        Some owner \<Rightarrow> redirect_to_owner S rq owner (req_target rq)
      | None \<Rightarrow>
          (let data = buf_data E (get E key (db en))
           in if length data = 0 then answer rq 404 [] else answer rq 200 data))"

text \<open>A completed engine call is answered with 200; an exception of \<^verbatim>\<open>put\<close> would be answered with
  400, one of a patch or of \<^verbatim>\<open>stoll\<close> is not caught.\<close>

definition handle_put :: "('b, 'w) env \<Rightarrow> site \<Rightarrow> request \<Rightarrow> bytes \<Rightarrow> ('b, 'w) engine \<Rightarrow> int list \<Rightarrow> ('b, 'w) handled" where
  "handle_put E S rq key en rs =
     (case foreign_owner S key of
        Some owner \<Rightarrow> Some (Reply (redirect_to_owner S rq owner (req_target rq)), en, rs)
      | None \<Rightarrow>
          (case put E key (req_body rq) en rs of
             None \<Rightarrow> None
           | Some (ok, en', rs') \<Rightarrow> Some (Reply (if ok then answer rq 200 [] else bad_req rq []), en', rs')))"

definition patched :: "request \<Rightarrow> (bool \<times> ('b, 'w) engine \<times> int list) option \<Rightarrow> ('b, 'w) handled" where
  "patched rq r =
     (case r of
        None \<Rightarrow> None
      | Some (ok, en', rs') \<Rightarrow> Some (if ok then Reply (answer rq 200 []) else Escaped, en', rs'))"

definition handle_post :: "('b, 'w) env \<Rightarrow> site \<Rightarrow> request \<Rightarrow> ('b, 'w) engine \<Rightarrow> int list \<Rightarrow> ('b, 'w) handled" where
  "handle_post E S rq en rs =
     (let target = req_target rq; before = takeWhile (\<lambda>b. b \<noteq> 63) target in
      if 63 \<notin> set target then Some (Reply (bad_req rq (lit ''Missing params'')), en, rs)
      else
        (let key = drop 4 before in
         case foreign_owner S key of
           Some owner \<Rightarrow> Some (Reply (redirect_to_owner S rq owner target), en, rs)
         | None \<Rightarrow>
             (let params = parse_query (drop (Suc (length before)) target) in
              if param params (lit ''op'') = lit ''set_int'' then
                (case stoll (param params (lit ''val'')) of
                   Inl _ \<Rightarrow> Some (Escaped, en, rs)
                 | Inr val \<Rightarrow> patched rq (patch_int E key (param params (lit ''field'')) val en rs))
              else if param params (lit ''op'') = lit ''set_str'' then
                patched rq (patch_str E key (param params (lit ''field'')) (param params (lit ''val'')) en rs)
              else Some (Reply (bad_req rq (lit ''Unknown op'')), en, rs))))"

definition handle_delete :: "('b, 'w) env \<Rightarrow> site \<Rightarrow> request \<Rightarrow> bytes \<Rightarrow> ('b, 'w) engine \<Rightarrow> int list \<Rightarrow> ('b, 'w) handled" where
  "handle_delete E S rq key en rs =
     (case foreign_owner S key of
        Some owner \<Rightarrow> Some (Reply (redirect_to_owner S rq owner (req_target rq)), en, rs)
      | None \<Rightarrow>
          (case del E key en rs of
             None \<Rightarrow> None
           | Some (ok, en', rs') \<Rightarrow> Some (Reply (answer rq (if ok then 200 else 404) []), en', rs')))"

definition handle_request :: "('b, 'w) env \<Rightarrow> site \<Rightarrow> metrics \<Rightarrow> request \<Rightarrow> ('b, 'w) engine \<Rightarrow> int list \<Rightarrow> ('b, 'w) handled" where
  "handle_request E S mt rq en rs =
     (let target = req_target rq; m = req_method rq; kv = starts_with target kv_prefix; key = drop 4 target in
      if m = GET_REQ \<and> target = lit ''/dashboard'' then Some (Reply (plain_answer rq 200 (dashboard_html S)), en, rs)
      else if m = GET_REQ \<and> target = lit ''/metrics'' then Some (Reply (answer rq 200 (get_json (show_double S) mt)), en, rs)
      else if m = GET_REQ \<and> target = lit ''/kv/health'' then Some (Reply (answer rq 200 []), en, rs)
      else if m = GET_REQ \<and> target = lit ''/kv/metrics'' then Some (Reply (answer rq 200 (metrics_page S mt)), en, rs)
      else if m = GET_REQ \<and> target = lit ''/cluster/map'' then Some (Reply (plain_answer rq 200 (dump_json S (cluster_map S))), en, rs)
      else if m = GET_REQ \<and> kv then Some (Reply (handle_get E S rq key en), en, rs)
      else if m = PUT_REQ \<and> kv then handle_put E S rq key en rs
      else if m = POST_REQ \<and> kv then handle_post E S rq en rs
      else if m = DELETE_REQ \<and> kv then handle_delete E S rq key en rs
      else Some (Reply (bad_req rq (lit ''Unknown method'')), en, rs))"

section \<open>A connection\<close>

text \<open>What \<^verbatim>\<open>async_read\<close> reports: a request, the end of the stream, or an error.\<close>

datatype read_event = Got request | End_of_stream | Read_error

text \<open>One round of a session: what was read, the bytes transferred in both directions, whether the
  write succeeded, and the time the handler took.\<close>

record exchange =
  ex_read :: read_event
  ex_in :: u64
  ex_out :: u64
  ex_sent_ok :: bool
  ex_time :: real

text \<open>The end of the scope that \<^verbatim>\<open>ScopedMetric\<close> guards: the time since its construction is recorded.\<close>

definition scoped_metric :: "bytes \<Rightarrow> real \<Rightarrow> metrics \<Rightarrow> metrics" where
  "scoped_metric op dur mt = record_latency op dur mt"

text \<open>The metrics of an answered request: \<^verbatim>\<open>send_response\<close> counts its status, the handler's scope its
  time, and \<^verbatim>\<open>on_write\<close> the bytes.\<close>

definition answered :: "exchange \<Rightarrow> response \<Rightarrow> metrics \<Rightarrow> metrics" where
  "answered x r mt =
     record_bytes_sent (ex_out x) (scoped_metric (lit ''handler_total'') (ex_time x) (record_error (status r) mt))"

text \<open>
  The loop of a session: read, handle, write, and read again while the reply keeps the connection
  alive and the write succeeds. The result lists the replies.
\<close>

fun session_loop :: "('b, 'w) env \<Rightarrow> site \<Rightarrow> exchange list \<Rightarrow> metrics \<Rightarrow> ('b, 'w) engine \<Rightarrow> int list \<Rightarrow>
    (reply list \<times> metrics \<times> ('b, 'w) engine \<times> int list) option" where
  "session_loop E S [] mt en rs = Some ([], mt, en, rs)"
| "session_loop E S (x # xs) mt en rs =
     (let mt1 = record_bytes_received (ex_in x) mt in
      case ex_read x of
        End_of_stream \<Rightarrow> Some ([], mt1, en, rs)
      | Read_error \<Rightarrow> Some ([], mt1, en, rs)
      | Got rq \<Rightarrow>
          (case handle_request E S mt1 rq en rs of
             None \<Rightarrow> None
           | Some (Escaped, en', rs') \<Rightarrow> Some ([Escaped], mt1, en', rs')
           | Some (Reply r, en', rs') \<Rightarrow>
               (let mt2 = answered x r mt1 in
                if ex_sent_ok x \<and> keep_alive r
                then map_option (\<lambda>(l, z). (Reply r # l, z)) (session_loop E S xs mt2 en' rs')
                else Some ([Reply r], mt2, en', rs'))))"

text \<open>The constructor and the destructor of the session count the connection.\<close>

definition session :: "('b, 'w) env \<Rightarrow> site \<Rightarrow> exchange list \<Rightarrow> metrics \<Rightarrow> ('b, 'w) engine \<Rightarrow> int list \<Rightarrow>
    (reply list \<times> metrics \<times> ('b, 'w) engine \<times> int list) option" where
  "session E S xs mt en rs =
     map_option (\<lambda>(l, mt', z). (l, if Escaped \<in> set l then mt' else decrement_active_connections mt', z))
       (session_loop E S xs (increment_active_connections mt) en rs)"

section \<open>Accepting connections\<close>

text \<open>\<^verbatim>\<open>do_accept\<close> and \<^verbatim>\<open>on_accept\<close>: a connection gets a session and the next one is awaited; after an
  error nothing is awaited any more.\<close>

record listener =
  accepting :: bool
  sessions :: nat

definition on_accept :: "bool \<Rightarrow> listener \<Rightarrow> listener" where
  "on_accept ec ls =
     (if \<not> accepting ls then ls
      else if ec then ls\<lparr>accepting := False\<rparr>
      else ls\<lparr>sessions := sessions ls + 1\<rparr>)"

section \<open>Query strings read back\<close>

fun query_string :: "(bytes \<times> bytes) list \<Rightarrow> bytes" where
  "query_string [] = []"
| "query_string [(k, v)] = k @ [61] @ v"
| "query_string ((k, v) # kv # kvs) = k @ [61] @ v @ [38] @ query_string (kv # kvs)"

definition query_ok :: "(bytes \<times> bytes) list \<Rightarrow> bool" where
  "query_ok kvs = list_all (\<lambda>(k, v). 61 \<notin> set k \<and> 38 \<notin> set v) kvs"

lemma takeWhile_until: "c \<notin> set xs \<Longrightarrow> takeWhile (\<lambda>b. b \<noteq> c) (xs @ c # ys) = xs"
  by (simp add: takeWhile_append)

lemma parse_query_pair:
  assumes "61 \<notin> set k" "38 \<notin> set v"
  shows "parse_query_from (k @ [61] @ v @ [38] @ q) res = parse_query_from q (res(k \<mapsto> v))"
    "parse_query_from (k @ [61] @ v) res = res(k \<mapsto> v)"
proof -
  have k: "takeWhile (\<lambda>b. b \<noteq> 61) (k @ 61 # s) = k" for s using assms(1) by (rule takeWhile_until)
  have v: "takeWhile (\<lambda>b. b \<noteq> 38) (v @ 38 # s) = v" for s using assms(2) by (rule takeWhile_until)
  have v': "takeWhile (\<lambda>b. b \<noteq> 38) v = v" using assms(2) by (auto simp: takeWhile_eq_all_conv)
  show "parse_query_from (k @ [61] @ v @ [38] @ q) res = parse_query_from q (res(k \<mapsto> v))"
    by (subst parse_query_from.simps) (simp add: k v)
  show "parse_query_from (k @ [61] @ v) res = res(k \<mapsto> v)"
    by (subst parse_query_from.simps) (simp add: k v', simp add: parse_query_from.simps)
qed

lemma parse_query_from_string:
  "query_ok kvs \<Longrightarrow> parse_query_from (query_string kvs) res = res ++ map_of (rev kvs)"
proof (induction kvs arbitrary: res rule: query_string.induct)
  case 1
  then show ?case by (simp add: parse_query_from.simps)
next
  case (2 k v)
  then show ?case using parse_query_pair(2) [of k v res] by (simp add: query_ok_def map_add_def fun_eq_iff)
next
  case (3 k v kv kvs)
  then have "61 \<notin> set k" "38 \<notin> set v" "query_ok (kv # kvs)" by (auto simp: query_ok_def)
  note IH = 3(1) [OF this(3), of "res(k \<mapsto> v)"] and pair = parse_query_pair(1) [OF this(1,2)]
  have "parse_query_from (query_string ((k, v) # kv # kvs)) res = res(k \<mapsto> v) ++ map_of (rev (kv # kvs))"
    unfolding query_string.simps pair IH ..
  also have "\<dots> = res ++ map_of (rev ((k, v) # kv # kvs))"
    by (simp only: rev.simps(2) [of "(k, v)"] map_of_append map_add_assoc) simp
  finally show ?case .
qed

lemma parse_query_string: "query_ok kvs \<Longrightarrow> parse_query (query_string kvs) = map_of (rev kvs)"
  by (simp add: parse_query_def parse_query_from_string)

section \<open>Targets\<close>

lemma length_kv_prefix [simp]: "length kv_prefix = 4" "drop 4 kv_prefix = []"
  by (simp_all add: kv_prefix_def lit_def)

lemma kv_target [simp]:
  "starts_with (kv_prefix @ k) kv_prefix" "drop 4 (kv_prefix @ k) = k"
  "kv_prefix @ k \<noteq> lit ''/dashboard''" "kv_prefix @ k \<noteq> lit ''/metrics''" "kv_prefix @ k \<noteq> lit ''/cluster/map''"
  by (simp_all add: starts_with_def kv_prefix_def lit_def)

lemma kv_special:
  "kv_prefix @ k = lit ''/kv/health'' \<longleftrightarrow> k = lit ''health''"
  "kv_prefix @ k = lit ''/kv/metrics'' \<longleftrightarrow> k = lit ''metrics''"
  by (simp_all add: kv_prefix_def lit_def)

lemma handle_get_route:
  "req_method rq = GET_REQ \<Longrightarrow> req_target rq = kv_prefix @ k \<Longrightarrow> k \<noteq> lit ''health'' \<Longrightarrow> k \<noteq> lit ''metrics'' \<Longrightarrow>
   handle_request E S mt rq en rs = Some (Reply (handle_get E S rq k en), en, rs)"
  by (simp add: handle_request_def Let_def kv_special)

lemma handle_put_route:
  "req_method rq = PUT_REQ \<Longrightarrow> req_target rq = kv_prefix @ k \<Longrightarrow>
   handle_request E S mt rq en rs = handle_put E S rq k en rs"
  by (simp add: handle_request_def Let_def)

lemma handle_delete_route:
  "req_method rq = DELETE_REQ \<Longrightarrow> req_target rq = kv_prefix @ k \<Longrightarrow>
   handle_request E S mt rq en rs = handle_delete E S rq k en rs"
  by (simp add: handle_request_def Let_def)

lemma handle_post_route:
  "req_method rq = POST_REQ \<Longrightarrow> req_target rq = kv_prefix @ t \<Longrightarrow>
   handle_request E S mt rq en rs = handle_post E S rq en rs"
  by (simp add: handle_request_def Let_def)

lemmas kv_routes = handle_get_route handle_put_route handle_delete_route handle_post_route

text \<open>The parts of a POST target.\<close>

lemma post_target:
  assumes "63 \<notin> set k"
  shows "takeWhile (\<lambda>b. b \<noteq> 63) (kv_prefix @ k @ [63] @ q) = kv_prefix @ k"
    "drop (Suc (length (kv_prefix @ k))) (kv_prefix @ k @ [63] @ q) = q"
proof -
  have "63 \<notin> set (kv_prefix @ k)" using assms by (simp add: kv_prefix_def lit_def)
  from takeWhile_until [OF this, of q]
  show "takeWhile (\<lambda>b. b \<noteq> 63) (kv_prefix @ k @ [63] @ q) = kv_prefix @ k" by simp
qed simp

lemma put_returns:
  assumes "store_inv E (db en)" "hlc_now (eclock en) rs = Some (now, c, rs')"
  shows "\<exists>en'. put E key body en rs = Some (True, en', rs') \<and> eclock en' = c \<and> store_inv E (db en') \<and>
    find_blob E key (db en') = Some (overwrite E body)"
  using assms by (auto simp: put_def Let_def store_inv_put find_put)

lemma del_returns:
  assumes "store_inv E (db en)" "hlc_now (eclock en) rs = Some (now, c, rs')"
  shows "\<exists>en'. del E key en rs = Some (True, en', rs') \<and> find_blob E key (db en') = Some (overwrite E [])"
  using assms by (auto simp: del_def Let_def find_put find_del store_inv_put store_inv_del)

text \<open>What a session adds to the error counters and leaves of the connection counter.\<close>

definition client_error :: "reply \<Rightarrow> bool" where
  "client_error r = (case r of Reply x \<Rightarrow> 400 \<le> status x \<and> status x < 500 | Escaped \<Rightarrow> False)"

definition server_error :: "reply \<Rightarrow> bool" where
  "server_error r = (case r of Reply x \<Rightarrow> 500 \<le> status x | Escaped \<Rightarrow> False)"

lemma answered_counters:
  "errors_4xx (answered x r mt) = errors_4xx mt + (if client_error (Reply r) then 1 else 0)"
  "errors_5xx (answered x r mt) = errors_5xx mt + (if server_error (Reply r) then 1 else 0)"
  "active_connections (answered x r mt) = active_connections mt"
  by (simp_all add: answered_def scoped_metric_def recorders client_error_def server_error_def)

lemma received_counters:
  "active_connections (record_bytes_received n mt) = active_connections mt"
  "errors_4xx (record_bytes_received n mt) = errors_4xx mt"
  "errors_5xx (record_bytes_received n mt) = errors_5xx mt"
  by (simp_all add: recorders)

lemmas session_counters = answered_counters received_counters

text \<open>The cases of one round.\<close>

lemma session_loop_cases:
  assumes "session_loop E S (x # xs) mt en rs = Some (l, mt', en', rs')"
  obtains "l = []" "mt' = record_bytes_received (ex_in x) mt"
  | "l = [Escaped]" "mt' = record_bytes_received (ex_in x) mt"
  | r where "l = [Reply r]" "mt' = answered x r (record_bytes_received (ex_in x) mt)"
  | r l1 en1 rs1 where "l = Reply r # l1"
      "session_loop E S xs (answered x r (record_bytes_received (ex_in x) mt)) en1 rs1 = Some (l1, mt', en', rs')"
  using assms
  by (auto simp: Let_def split: read_event.splits option.splits reply.splits prod.splits if_splits)

lemma session_loop_counters:
  "session_loop E S xs mt en rs = Some (l, mt', en', rs') \<Longrightarrow>
   active_connections mt' = active_connections mt \<and>
   errors_4xx mt' = errors_4xx mt + of_nat (count_if client_error l) \<and>
   errors_5xx mt' = errors_5xx mt + of_nat (count_if server_error l)"
proof (induction xs arbitrary: mt en rs l)
  case (Cons x xs)
  from Cons.prems show ?case
  proof (cases rule: session_loop_cases)
    case (4 r l1 en1 rs1)
    from Cons.IH [OF 4(2)] 4(1) show ?thesis by (simp add: session_counters)
  qed (simp_all add: session_counters client_error_def server_error_def)
qed simp

text \<open>The target of a request for a key: a POST has a query.\<close>

definition kv_target_of :: "request \<Rightarrow> bytes \<Rightarrow> bytes \<Rightarrow> bytes" where
  "kv_target_of rq k q = (if req_method rq = POST_REQ then kv_prefix @ k @ [63] @ q else kv_prefix @ k)"

lemma foreign_reply:
  assumes "foreign_owner S k = Some owner" "k \<noteq> lit ''health''" "k \<noteq> lit ''metrics''"
    "req_method rq \<noteq> OTHER_REQ" "63 \<notin> set k" "req_target rq = kv_target_of rq k q"
  shows "handle_request E S mt rq en rs = Some (Reply (redirect_to_owner S rq owner (req_target rq)), en, rs)"
proof (cases "req_method rq")
  case POST_REQ
  then have t: "req_target rq = kv_prefix @ k @ [63] @ q" using assms(6) by (simp add: kv_target_of_def)
  have "takeWhile (\<lambda>b. b \<noteq> 63) (req_target rq) = kv_prefix @ k"
    unfolding t by (rule post_target [OF assms(5)])
  then show ?thesis
    using POST_REQ t assms(1) handle_post_route [of rq "k @ [63] @ q" E S mt en rs]
    by (simp add: handle_post_def Let_def)
qed (use assms in \<open>simp_all add: kv_target_of_def kv_routes handle_get_def handle_put_def handle_delete_def\<close>)

section \<open>Properties\<close>

text \<open>C16: a document lives from its PUT to its DELETE. On a node that owns the key, a PUT is answered
  with 200 as soon as the clock gives it a stamp, and a GET of the same target then returns 200
  with the bytes of the stored document; a DELETE is answered with 200, and the GET after it with
  404. This is for a body that is not stored as an empty buffer, and for keys other than \<^verbatim>\<open>health\<close> and
  \<^verbatim>\<open>metrics\<close>, on which see below.\<close>

theorem kv_lifecycle:
  assumes "store_inv E (db en)" and "foreign_owner S k = None"
    and "k \<noteq> lit ''health''" and "k \<noteq> lit ''metrics''"
    and "req_method p = PUT_REQ" and "req_method g = GET_REQ" and "req_method d = DELETE_REQ"
    and "req_target p = kv_prefix @ k" and "req_target g = kv_prefix @ k" and "req_target d = kv_prefix @ k"
    and "buf_data E (overwrite E (req_body p)) \<noteq> []" and "buf_data E (overwrite E []) = []"
    and "hlc_now (eclock en) rs = Some (t1, c1, rs1)" and "hlc_now c1 rs1 = Some (t2, c2, rs2)"
  shows "\<exists>en1 en2. handle_request E S mt p en rs = Some (Reply (answer p 200 []), en1, rs1) \<and>
    handle_request E S mt g en1 rs3 = Some (Reply (answer g 200 (buf_data E (overwrite E (req_body p)))), en1, rs3) \<and>
    handle_request E S mt d en1 rs1 = Some (Reply (answer d 200 []), en2, rs2) \<and>
    handle_request E S mt g en2 rs3 = Some (Reply (answer g 404 []), en2, rs3)"
proof -
  obtain en1 where put: "put E k (req_body p) en rs = Some (True, en1, rs1)" and c1: "eclock en1 = c1"
    and en1: "store_inv E (db en1)" "find_blob E k (db en1) = Some (overwrite E (req_body p))"
    using put_returns [OF assms(1,13)] by blast
  obtain en2 where del: "del E k en1 rs1 = Some (True, en2, rs2)"
    and en2: "find_blob E k (db en2) = Some (overwrite E [])"
    using del_returns [OF en1(1)] assms(14) c1 by blast
  note route = handle_put_route [OF assms(5,8)] handle_delete_route [OF assms(7,10)]
    handle_get_route [OF assms(6,9,3,4)]
  show ?thesis
    by (rule exI [of _ en1], rule exI [of _ en2])
      (use put del en1(2) en2 assms(2,11,12) in
        \<open>simp add: route handle_put_def handle_delete_def handle_get_def get_def\<close>)
qed

definition demo_site :: site where
  "demo_site = \<lparr>ring = Some (\<lambda>k. if k = [98] then 2 else 1), self_node_id = 1, self_address = lit ''0.0.0.0'',
     self_port = 8080, http_peers = [(2, lit ''h'', 8081)], dashboard_html = [], dump_json = (\<lambda>_. []),
     show_double = (\<lambda>_. []), show_fixed = (\<lambda>_. []), wal_stats = (0, 0, 0)\<rparr>"

definition demo_request :: "verb \<Rightarrow> bytes \<Rightarrow> bytes \<Rightarrow> request" where
  "demo_request v t body =
     \<lparr>req_method = v, req_target = kv_prefix @ t, req_body = body, req_keep_alive = True, req_http11 = True\<rparr>"

theorem kv_lifecycle_witness:
  "\<exists>en1 en2. handle_request demo_env demo_site metrics_init (demo_request PUT_REQ [97] [49]) (engine_empty [] 1) [5, 6] =
       Some (Reply (answer (demo_request PUT_REQ [97] [49]) 200 []), en1, [6]) \<and>
     handle_request demo_env demo_site metrics_init (demo_request GET_REQ [97] []) en1 [] =
       Some (Reply (answer (demo_request GET_REQ [97] []) 200 [49]), en1, []) \<and>
     handle_request demo_env demo_site metrics_init (demo_request DELETE_REQ [97] []) en1 [6] =
       Some (Reply (answer (demo_request DELETE_REQ [97] []) 200 []), en2, []) \<and>
     handle_request demo_env demo_site metrics_init (demo_request GET_REQ [97] []) en2 [] =
       Some (Reply (answer (demo_request GET_REQ [97] []) 404 []), en2, [])"
proof -
  let ?e = "engine_empty [] 1 :: (demo_buf, bytes) engine"
  have inv: "store_inv demo_env (db ?e)" by (simp add: engine_empty_def store_inv_init)
  have own: "foreign_owner demo_site [97] = None" by (simp add: foreign_owner_def demo_site_def)
  have names: "[97] \<noteq> lit ''health''" "[97] \<noteq> lit ''metrics''" by (simp_all add: lit_def)
  have o: "buf_data demo_env (overwrite demo_env [49]) = [49]" "buf_data demo_env (overwrite demo_env []) = []"
    by code_simp+
  have t: "hlc_now (eclock ?e) [5, 6] = Some (Timestamp 5 0 1, (hlc_init 1)\<lparr>max_wall_time := 5\<rparr>, [6])"
    "hlc_now ((hlc_init 1)\<lparr>max_wall_time := 5\<rparr>) [6] = Some (Timestamp 6 0 1, (hlc_init 1)\<lparr>max_wall_time := 6\<rparr>, [])"
    by (simp_all add: hlc_now_def hlc_init_def hlc_stamp_def engine_empty_def Let_def)
  from kv_lifecycle [OF inv own names, of "demo_request PUT_REQ [97] [49]" "demo_request GET_REQ [97] []"
      "demo_request DELETE_REQ [97] []", OF _ _ _ _ _ _ _ _ t, of metrics_init "[]"]
  show ?thesis by (simp add: demo_request_def o)
qed

text \<open>Requests for foreign keys leave the node untouched. In a sharded cluster a GET, PUT, POST
  or DELETE of a key that another node owns changes nothing here and is answered with a redirect to
  the owner's address that keeps the whole target, or with 503 when that address is unknown.\<close>

theorem foreign_requests_redirected:
  assumes "foreign_owner S k = Some owner" and "k \<noteq> lit ''health''" and "k \<noteq> lit ''metrics''"
    and "req_method rq \<noteq> OTHER_REQ" and "63 \<notin> set k" and "req_target rq = kv_target_of rq k q"
  shows "\<exists>r. handle_request E S mt rq en rs = Some (Reply r, en, rs) \<and>
    (case map_of (http_peers S) owner of
       Some (host, port) \<Rightarrow> status r = 307 \<and>
         location r = Some (lit ''http://'' @ host @ lit '':'' @ to_string port @ req_target rq)
     | None \<Rightarrow> status r = 503 \<and> location r = None)"
  unfolding foreign_reply [OF assms]
  by (auto simp: redirect_to_owner_def plain_answer_def split: option.splits)

theorem foreign_requests_redirected_witness:
  "\<exists>r. handle_request demo_env demo_site metrics_init (demo_request PUT_REQ [98] [49]) (engine_empty [] 1) [5] =
       Some (Reply r, engine_empty [] 1, [5]) \<and>
     status r = 307 \<and> location r = Some (lit ''http://h:8081/kv/b'')"
proof -
  have o: "foreign_owner demo_site [98] = Some 2" by (simp add: foreign_owner_def demo_site_def)
  have n: "[98] \<noteq> lit ''health''" "[98] \<noteq> lit ''metrics''" by (simp_all add: lit_def)
  have l: "lit ''http://'' @ lit ''h'' @ lit '':'' @ to_string 8081 @ kv_prefix @ [98] = lit ''http://h:8081/kv/b''"
    by (simp add: lit_def to_string_def dec_digits.simps kv_prefix_def)
  from foreign_requests_redirected [OF o n, of "demo_request PUT_REQ [98] [49]" "[]" demo_env metrics_init
      "engine_empty [] 1" "[5]"]
  show ?thesis by (simp add: demo_request_def demo_site_def kv_target_of_def l)
qed

text \<open>C32: a session keeps the books. When a connection has been served to its end, the number of
  active connections is what it was, and the error counters have grown by exactly the number of
  replies of their class that were sent (modulo $2^{64}$).\<close>

theorem session_accounts:
  assumes "session E S xs mt en rs = Some (l, mt', en', rs')" and "Escaped \<notin> set l"
  shows "active_connections mt' = active_connections mt \<and>
    errors_4xx mt' = errors_4xx mt + of_nat (count_if client_error l) \<and>
    errors_5xx mt' = errors_5xx mt + of_nat (count_if server_error l)"
proof -
  obtain m where loop: "session_loop E S xs (increment_active_connections mt) en rs = Some (l, m, en', rs')"
    and mt': "mt' = decrement_active_connections m"
    using assms by (auto simp: session_def)
  from session_loop_counters [OF loop] show ?thesis by (simp add: mt' recorders)
qed

theorem session_accounts_witness:
  "\<exists>l mt'. session demo_env demo_site
       [\<lparr>ex_read = Got (demo_request GET_REQ [97] []), ex_in = 10, ex_out = 20, ex_sent_ok = True, ex_time = 1\<rparr>,
        \<lparr>ex_read = End_of_stream, ex_in = 0, ex_out = 0, ex_sent_ok = True, ex_time = 0\<rparr>]
       metrics_init (engine_empty [] 1) [] = Some (l, mt', engine_empty [] 1, []) \<and> errors_4xx mt' = 1"
proof -
  let ?g = "demo_request GET_REQ [97] []" and ?e = "engine_empty [] 1 :: (demo_buf, bytes) engine"
  let ?xs = "[\<lparr>ex_read = Got ?g, ex_in = 10, ex_out = 20, ex_sent_ok = True, ex_time = 1\<rparr>,
        \<lparr>ex_read = End_of_stream, ex_in = 0, ex_out = 0, ex_sent_ok = True, ex_time = 0\<rparr>]"
  have n: "[97] \<noteq> lit ''health''" "[97] \<noteq> lit ''metrics''" by (simp_all add: lit_def)
  have d: "get demo_env [97] (db ?e) = Raw []" by (simp add: get_def engine_empty_def demo_env_def)
  have "handle_get demo_env demo_site ?g [97] ?e = answer ?g 404 []"
    by (simp add: handle_get_def foreign_owner_def demo_site_def d) (simp add: demo_env_def)
  then have h: "handle_request demo_env demo_site m ?g ?e [] = Some (Reply (answer ?g 404 []), ?e, [])" for m
    using n by (subst handle_get_route [where k = "[97]"]) (simp_all add: demo_request_def)
  obtain mt' where s: "session demo_env demo_site ?xs metrics_init ?e [] = Some ([Reply (answer ?g 404 [])], mt', ?e, [])"
    by (simp add: session_def Let_def h) (simp add: answer_def demo_request_def)
  from session_accounts [OF s] s show ?thesis
    by (simp add: client_error_def answer_def metrics_init_def)
qed

text \<open>Query strings. A query of parameters whose names have no equals sign and whose values have
  no ampersand is parsed into exactly those parameters; of a repeated name the last one counts.
  Percent-encoding is not undone.\<close>

theorem parse_query_roundtrip:
  assumes "query_ok kvs"
  shows "parse_query (query_string kvs) = map_of (rev kvs)"
  by (rule parse_query_string [OF assms])

theorem parse_query_roundtrip_witness:
  "parse_query (query_string [(lit ''op'', lit ''set_int''), (lit ''val'', lit ''5'')]) =
   map_of (rev [(lit ''op'', lit ''set_int''), (lit ''val'', lit ''5'')])"
  by (rule parse_query_roundtrip) (simp add: query_ok_def lit_def)

text \<open>A bad number ends the server. A POST with \<^verbatim>\<open>op=set_int\<close> and a value that \<^verbatim>\<open>std::stoll\<close>
  rejects (no digits, or out of range) lets the exception out of the handler, and the session
  stops there, whatever requests follow.\<close>

theorem post_bad_number_escapes:
  assumes "req_method rq = POST_REQ" and "63 \<notin> set k" and "foreign_owner S k = None"
    and "38 \<notin> set f" and "38 \<notin> set v" and "stoll v = Inl e"
    and "req_target rq = kv_prefix @ k @ [63] @
      query_string [(lit ''op'', lit ''set_int''), (lit ''field'', f), (lit ''val'', v)]"
  shows "handle_request E S mt rq en rs = Some (Escaped, en, rs) \<and>
    (ex_read x = Got rq \<longrightarrow> map_option (\<lambda>(l, _, z). (l, z)) (session E S (x # xs) mt0 en rs) = Some ([Escaped], en, rs))"
proof -
  let ?kvs = "[(lit ''op'', lit ''set_int''), (lit ''field'', f), (lit ''val'', v)]"
  have ok: "query_ok ?kvs" using assms(4,5) by (simp add: query_ok_def lit_def)
  have ps: "param (parse_query (query_string ?kvs)) (lit ''op'') = lit ''set_int''"
    "param (parse_query (query_string ?kvs)) (lit ''val'') = v"
    unfolding parse_query_string [OF ok] by (simp_all add: param_def lit_def)
  have tw: "takeWhile (\<lambda>b. b \<noteq> 63) (req_target rq) = kv_prefix @ k"
    and dr: "drop (Suc (length (kv_prefix @ k))) (req_target rq) = query_string ?kvs"
    unfolding assms(7) by (rule post_target [OF assms(2)])+
  have "63 \<in> set (req_target rq)" unfolding assms(7) by simp
  then have "handle_post E S rq en rs = Some (Escaped, en, rs)"
    unfolding handle_post_def Let_def tw dr using ps assms(3,6) by (simp del: query_string.simps)
  then have "handle_request E S m rq en rs = Some (Escaped, en, rs)" for m
    by (simp add: handle_post_route [OF assms(1,7)])
  then show ?thesis by (simp add: session_def Let_def)
qed

theorem post_bad_number_escapes_witness:
  "handle_request demo_env demo_site metrics_init
     (demo_request POST_REQ ([97, 63] @ query_string [(lit ''op'', lit ''set_int''), (lit ''field'', [99]), (lit ''val'', [120])]) [])
     (engine_empty [] 1) [] = Some (Escaped, engine_empty [] 1, [])"
proof -
  have v: "stoll [120] = Inl Invalid_argument" by code_simp
  have o: "foreign_owner demo_site [97] = None" by (simp add: foreign_owner_def demo_site_def)
  show ?thesis
    by (rule post_bad_number_escapes [where k = "[97]" and f = "[99]" and v = "[120]", OF _ _ o _ _ v, THEN conjunct1])
      (simp_all add: demo_request_def del: query_string.simps)
qed

text \<open>Two keys can be written but never read: their GET targets are taken by other pages.\<close>

lemma reserved_keys_unreadable:
  assumes "req_method g = GET_REQ" "req_target g = kv_prefix @ lit ''health''"
  shows "handle_request E S mt g en rs = Some (Reply (answer g 200 []), en, rs)"
  using assms by (simp add: handle_request_def Let_def kv_prefix_def lit_def)

text \<open>One failed accept ends the service of new connections, although the process runs on.\<close>

lemma accept_stopped: "\<not> accepting ls \<Longrightarrow> fold on_accept ecs ls = ls"
  by (induction ecs) (simp_all add: on_accept_def)

lemma accept_error_is_final: "fold on_accept ecs (on_accept True ls) = on_accept True ls"
  by (rule accept_stopped) (simp add: on_accept_def)

end
