(* ===== verification/Config.thy ===== *)
theory Config
  imports Http Mesh Thread_Pool "HOL-Library.Monad_Syntax"
begin

text \<open>
  \<^verbatim>\<open>main.cpp\<close>: the configuration file and how the parts are put together from it. The JSON values of
  \<^verbatim>\<open>nlohmann::json\<close> and the hash ring of \<^verbatim>\<open>lite3\<close> are given as records of their operations; where the
  library throws, the operation returns \<open>None\<close>. The properties follow the configuration into the
  sessions: which peers a redirect can name, and what is left of a file with an error.
\<close>

section \<open>Configuration\<close>

record peer_config =
  pc_id :: u32
  pc_host :: bytes
  pc_mesh_port :: int
  pc_http_port :: int

record config =
  cfg_address :: bytes
  cfg_port :: u16
  cfg_min_threads :: int
  cfg_max_threads :: int
  cfg_wal_path :: bytes
  cfg_node_id :: u32
  cfg_mesh_port :: int
  cfg_mesh_threads :: int
  cfg_peers :: "peer_config list"
  cluster_mode :: bytes
  num_shards :: int

definition default_config :: config where
  "default_config =
     \<lparr>cfg_address = lit ''0.0.0.0'', cfg_port = 8080, cfg_min_threads = 4, cfg_max_threads = 16,
      cfg_wal_path = lit ''data.wal'', cfg_node_id = 1, cfg_mesh_port = 9090, cfg_mesh_threads = 2,
      cfg_peers = [], cluster_mode = lit ''replicated'', num_shards = 1\<rparr>"

text \<open>The operations of \<^verbatim>\<open>nlohmann::json\<close> that are used: \<^verbatim>\<open>value(key, default)\<close> at four types,
  \<^verbatim>\<open>contains\<close>, \<^verbatim>\<open>operator[]\<close>, \<^verbatim>\<open>is_array\<close>, iteration and parsing.\<close>

record 'j json_api =
  parse_json :: "bytes \<Rightarrow> 'j option"
  contains :: "'j \<Rightarrow> bytes \<Rightarrow> bool"
  item :: "'j \<Rightarrow> bytes \<Rightarrow> 'j"
  is_array :: "'j \<Rightarrow> bool"
  elements :: "'j \<Rightarrow> 'j list"
  value_string :: "'j \<Rightarrow> bytes \<Rightarrow> bytes \<Rightarrow> bytes option"
  value_ushort :: "'j \<Rightarrow> bytes \<Rightarrow> u16 \<Rightarrow> u16 option"
  value_uint :: "'j \<Rightarrow> bytes \<Rightarrow> u32 \<Rightarrow> u32 option"
  value_int :: "'j \<Rightarrow> bytes \<Rightarrow> int \<Rightarrow> int option"

text \<open>
  The \<^verbatim>\<open>try\<close> block as steps on \<^verbatim>\<open>cfg\<close>: a step that throws ends the block and leaves \<^verbatim>\<open>cfg\<close> as it is at
  that point (\<open>False\<close>).
\<close>

type_synonym step = "config \<Rightarrow> bool \<times> config"

definition assign :: "'v option \<Rightarrow> ('v \<Rightarrow> config \<Rightarrow> config) \<Rightarrow> step" where
  "assign r upd cfg = (case r of Some v \<Rightarrow> (True, upd v cfg) | None \<Rightarrow> (False, cfg))"

fun run_steps :: "step list \<Rightarrow> step" where
  "run_steps [] cfg = (True, cfg)"
| "run_steps (s # ss) cfg = (case s cfg of (ok, cfg') \<Rightarrow> if ok then run_steps ss cfg' else (False, cfg'))"

definition load_fields :: "'j json_api \<Rightarrow> 'j \<Rightarrow> step" where
  "load_fields A j = run_steps
     [\<lambda>c. assign (value_string A j (lit ''address'') (cfg_address c)) (\<lambda>v. cfg_address_update (\<lambda>_. v)) c,
      \<lambda>c. assign (value_ushort A j (lit ''port'') (cfg_port c)) (\<lambda>v. cfg_port_update (\<lambda>_. v)) c,
      \<lambda>c. assign (value_int A j (lit ''min_threads'') (cfg_min_threads c)) (\<lambda>v. cfg_min_threads_update (\<lambda>_. v)) c,
      \<lambda>c. assign (value_int A j (lit ''max_threads'') (cfg_max_threads c)) (\<lambda>v. cfg_max_threads_update (\<lambda>_. v)) c,
      \<lambda>c. assign (value_string A j (lit ''wal_path'') (cfg_wal_path c)) (\<lambda>v. cfg_wal_path_update (\<lambda>_. v)) c,
      \<lambda>c. assign (value_uint A j (lit ''node_id'') (cfg_node_id c)) (\<lambda>v. cfg_node_id_update (\<lambda>_. v)) c,
      \<lambda>c. assign (value_int A j (lit ''mesh_port'') (cfg_mesh_port c)) (\<lambda>v. cfg_mesh_port_update (\<lambda>_. v)) c,
      \<lambda>c. assign (value_int A j (lit ''mesh_threads'') (cfg_mesh_threads c)) (\<lambda>v. cfg_mesh_threads_update (\<lambda>_. v)) c]"

definition read_peer :: "'j json_api \<Rightarrow> 'j \<Rightarrow> peer_config option" where
  "read_peer A p = do {
     i \<leftarrow> value_uint A p (lit ''id'') 0;
     host \<leftarrow> value_string A p (lit ''host'') (lit ''127.0.0.1'');
     mesh \<leftarrow> value_int A p (lit ''mesh_port'') 9090;
     http \<leftarrow> value_int A p (lit ''http_port'') 8080;
     Some \<lparr>pc_id = i, pc_host = host, pc_mesh_port = mesh, pc_http_port = http\<rparr> }"

fun push_peers :: "'j json_api \<Rightarrow> 'j list \<Rightarrow> step" where
  "push_peers A [] cfg = (True, cfg)"
| "push_peers A (p # ps) cfg =
     (case read_peer A p of
        None \<Rightarrow> (False, cfg)
      | Some pc \<Rightarrow>
          push_peers A ps (if pc_id pc \<noteq> 0 then cfg\<lparr>cfg_peers := cfg_peers cfg @ [pc]\<rparr> else cfg))"

definition load_cluster :: "'j json_api \<Rightarrow> 'j \<Rightarrow> step" where
  "load_cluster A j cfg =
     (if contains A j (lit ''cluster'') then
        (let c = item A j (lit ''cluster'') in
         run_steps
           [\<lambda>g. assign (value_string A c (lit ''mode'') (cluster_mode g)) (\<lambda>v. cluster_mode_update (\<lambda>_. v)) g,
            \<lambda>g. assign (value_int A c (lit ''shards'') (num_shards g)) (\<lambda>v. num_shards_update (\<lambda>_. v)) g,
            \<lambda>g. if contains A c (lit ''peers'') \<and> is_array A (item A c (lit ''peers''))
                then push_peers A (elements A (item A c (lit ''peers''))) g else (True, g)] cfg)
      else (True, cfg))"

definition load_root_peers :: "'j json_api \<Rightarrow> 'j \<Rightarrow> step" where
  "load_root_peers A j cfg =
     (if cfg_peers cfg = [] \<and> contains A j (lit ''peers'') \<and> is_array A (item A j (lit ''peers''))
      then push_peers A (elements A (item A j (lit ''peers''))) cfg else (True, cfg))"

text \<open>The contents of the file, or \<open>None\<close> if it cannot be opened.\<close>

definition load_config :: "'j json_api \<Rightarrow> bytes option \<Rightarrow> config" where
  "load_config A file =
     (case file of
        None \<Rightarrow> default_config
      | Some text \<Rightarrow>
          (case parse_json A text of
             None \<Rightarrow> default_config
           | Some j \<Rightarrow> snd (run_steps [load_fields A j, load_cluster A j, load_root_peers A j] default_config)))"

section \<open>Start-up\<close>

text \<open>The loop over the peers: the redirect table, and the mesh with a connection to every peer whose
  \<^verbatim>\<open>connect\<close> did not throw.\<close>

definition http_peer_table :: "config \<Rightarrow> (u32, bytes \<times> int) omap" where
  "http_peer_table cfg = fold (\<lambda>p. om_put (pc_id p) (pc_host p, pc_http_port p)) (cfg_peers cfg) []"

definition start_mesh :: "(peer_config \<Rightarrow> bool) \<Rightarrow> config \<Rightarrow> mesh" where
  "start_mesh connects cfg =
     fold (\<lambda>p m. if connects p then mesh_connect (pc_id p) m else m) (cfg_peers cfg) (mesh_init (cfg_node_id cfg))"

record 'r ring_api =
  ring_empty :: 'r
  add_node :: "u32 \<Rightarrow> 'r \<Rightarrow> 'r"
  get_node :: "'r \<Rightarrow> bytes \<Rightarrow> u32"

definition build_ring :: "'r ring_api \<Rightarrow> config \<Rightarrow> (bytes \<Rightarrow> u32) option" where
  "build_ring R cfg =
     (if cluster_mode cfg = lit ''sharded'' then
        Some (get_node R (fold (add_node R) (map pc_id (cfg_peers cfg)) (add_node R (cfg_node_id cfg) (ring_empty R))))
      else None)"

text \<open>What \<^verbatim>\<open>http_server\<close> hands to its sessions and to its pool.\<close>

definition start_site :: "'r ring_api \<Rightarrow> config \<Rightarrow> site \<Rightarrow> site" where
  "start_site R cfg S =
     S\<lparr>ring := build_ring R cfg, self_node_id := cfg_node_id cfg, self_address := cfg_address cfg,
       self_port := uint (cfg_port cfg), http_peers := http_peer_table cfg\<rparr>"

section \<open>Peers read from the file\<close>

definition peers_ok :: "config \<Rightarrow> bool" where
  "peers_ok cfg = list_all (\<lambda>p. pc_id p \<noteq> 0) (cfg_peers cfg)"

lemma peers_ok_default [simp]: "peers_ok default_config"
  by (simp add: peers_ok_def default_config_def)

lemma peers_ok_push: "peers_ok cfg \<Longrightarrow> peers_ok (snd (push_peers A ps cfg))"
  by (induction A ps cfg rule: push_peers.induct) (auto simp: peers_ok_def split: option.splits)

text \<open>An invariant that every step keeps holds at the end of a block, normal or not.\<close>

lemma run_steps_keeps:
  assumes "\<And>s c. s \<in> set ss \<Longrightarrow> P c \<Longrightarrow> P (snd (s c))" "P cfg"
  shows "P (snd (run_steps ss cfg))"
  using assms
proof (induction ss arbitrary: cfg)
  case (Cons s ss)
  obtain ok cfg' where s: "s cfg = (ok, cfg')" by fastforce
  then have "P cfg'" using Cons.prems(1) [of s cfg] Cons.prems(2) by simp
  then show ?case using Cons.IH [of cfg'] Cons.prems(1) by (simp add: s)
qed simp

lemma assign_peers: "(\<And>v. cfg_peers (upd v cfg) = cfg_peers cfg) \<Longrightarrow> peers_ok cfg \<Longrightarrow> peers_ok (snd (assign r upd cfg))"
  by (simp add: assign_def peers_ok_def split: option.splits)

lemma peers_ok_fields: "peers_ok cfg \<Longrightarrow> peers_ok (snd (load_fields A j cfg))"
  unfolding load_fields_def by (rule run_steps_keeps) (auto intro!: assign_peers)

lemma peers_ok_cluster: "peers_ok cfg \<Longrightarrow> peers_ok (snd (load_cluster A j cfg))"
  unfolding load_cluster_def Let_def
  by (auto intro!: run_steps_keeps [where P = peers_ok] assign_peers peers_ok_push split: if_splits
      simp del: run_steps.simps)

lemma peers_ok_root: "peers_ok cfg \<Longrightarrow> peers_ok (snd (load_root_peers A j cfg))"
  by (simp add: load_root_peers_def peers_ok_push)

lemma load_config_peers: "peers_ok (load_config A file)"
  unfolding load_config_def
  by (auto split: option.splits intro!: run_steps_keeps [where P = peers_ok] peers_ok_fields peers_ok_cluster peers_ok_root
      simp del: run_steps.simps)

text \<open>The redirect table and the mesh know exactly the configured peers.\<close>

lemma peer_table_fold:
  "om_inv t \<Longrightarrow> om_inv (fold (\<lambda>p. om_put (pc_id p) (pc_host p, pc_http_port p)) ps t) \<and>
   map_of (fold (\<lambda>p. om_put (pc_id p) (pc_host p, pc_http_port p)) ps t) =
     map_of t ++ map_of (rev (map (\<lambda>p. (pc_id p, pc_host p, pc_http_port p)) ps))"
  by (induction ps arbitrary: t) (auto simp: map_add_def fun_eq_iff split: option.splits)

lemma http_peer_table_entry:
  assumes "q \<in> pc_id ` set (cfg_peers cfg)"
  shows "\<exists>p \<in> set (cfg_peers cfg). pc_id p = q \<and> map_of (http_peer_table cfg) q = Some (pc_host p, pc_http_port p)"
proof -
  let ?m = "map_of (rev (map (\<lambda>p. (pc_id p, pc_host p, pc_http_port p)) (cfg_peers cfg)))"
  have t: "map_of (http_peer_table cfg) = ?m"
    using peer_table_fold [of "[]" "cfg_peers cfg"] by (simp add: http_peer_table_def)
  have "?m q \<noteq> None" using assms by (simp add: map_of_eq_None_iff image_image)
  then obtain v where v: "?m q = Some v" by auto
  from map_of_SomeD [OF this] show ?thesis unfolding t v by auto
qed

lemma start_mesh_peers:
  "active_peer (start_mesh connects cfg) q \<longleftrightarrow> (\<exists>p \<in> set (cfg_peers cfg). pc_id p = q \<and> connects p)"
proof -
  have "active_peer (fold (\<lambda>p m. if connects p then mesh_connect (pc_id p) m else m) ps m0) q \<longleftrightarrow>
     active_peer m0 q \<or> (\<exists>p \<in> set ps. pc_id p = q \<and> connects p)" for ps m0
    by (induction ps arbitrary: m0) (auto simp: active_peer_def mesh_connect_def)
  then show ?thesis by (simp add: start_mesh_def active_peer_def mesh_init_def)
qed

section \<open>Properties\<close>

text \<open>The ring returns one of the nodes that were added to it.\<close>

definition ring_law :: "'r ring_api \<Rightarrow> bool" where
  "ring_law R \<longleftrightarrow> (\<forall>n ns k. get_node R (fold (add_node R) ns (add_node R n (ring_empty R))) k \<in> insert n (set ns))"

lemma start_site_owner:
  assumes "ring_law R" "foreign_owner (start_site R cfg S) k = Some owner"
  shows "owner \<in> pc_id ` set (cfg_peers cfg)"
  using assms unfolding ring_law_def
  by (force simp: foreign_owner_def start_site_def build_ring_def Let_def split: if_splits option.splits)

text \<open>C19: in a deployed cluster every redirect leads to a configured peer. Whatever the configuration
  file holds, the owner of a foreign key is one of the configured peers (with an id other than 0),
  and the request is answered with 307 and that peer's HTTP address; the 503 for an unknown address
  cannot occur. This is for the targets \<^verbatim>\<open>/kv/\<close>\<open>k\<close> with \<open>k\<close> other than the fixed pages \<^verbatim>\<open>health\<close> and \<^verbatim>\<open>metrics\<close> and
  without a question mark, which starts the query. If the cluster mode is not \<^verbatim>\<open>sharded\<close>, no key is foreign.\<close>

theorem deployed_redirects:
  fixes R :: "'r ring_api"
  assumes "ring_law R" and "cfg = load_config A file" and "S = start_site R cfg S0"
    and "foreign_owner S k = Some owner" and "k \<noteq> lit ''health''" and "k \<noteq> lit ''metrics''"
    and "req_method rq \<noteq> OTHER_REQ" and "63 \<notin> set k" and "req_target rq = kv_target_of rq k q"
  shows "cluster_mode cfg = lit ''sharded'' \<and> owner \<noteq> 0 \<and>
    (\<exists>r. \<exists>p \<in> set (cfg_peers cfg). handle_request E S mt rq en rs = Some (Reply r, en, rs) \<and> pc_id p = owner \<and>
      status r = 307 \<and>
      location r = Some (lit ''http://'' @ pc_host p @ lit '':'' @ to_string (pc_http_port p) @ req_target rq))"
proof -
  have "owner \<in> pc_id ` set (cfg_peers cfg)" using start_site_owner assms(1,3,4) by blast
  from http_peer_table_entry [OF this] obtain p where p: "p \<in> set (cfg_peers cfg)" "pc_id p = owner"
    "map_of (http_peers S) owner = Some (pc_host p, pc_http_port p)"
    by (auto simp: assms(3) start_site_def)
  have mode: "cluster_mode cfg = lit ''sharded''"
    using assms(4) by (auto simp: assms(3) foreign_owner_def start_site_def build_ring_def split: if_splits)
  have "owner \<noteq> 0" using p(1,2) load_config_peers [of A "file"] assms(2) by (auto simp: peers_ok_def list_all_iff)
  with p mode show ?thesis
    unfolding foreign_reply [OF assms(4-9)] by (auto simp: redirect_to_owner_def plain_answer_def)
qed

text \<open>A library with one document: a sharded cluster with the peer 2 on a host \<^verbatim>\<open>h\<close>, and a ring that
  gives every key to the node added last.\<close>

datatype demo_json = Root | Cluster | Peer_list | Peer

definition demo_api :: "demo_json json_api" where
  "demo_api =
     \<lparr>parse_json = (\<lambda>_. Some Root),
      contains = (\<lambda>j k. j = Root \<and> k = lit ''cluster'' \<or> j = Cluster \<and> k = lit ''peers''),
      item = (\<lambda>j k. if j = Root then Cluster else Peer_list), is_array = (\<lambda>j. j = Peer_list), elements = (\<lambda>j. [Peer]),
      value_string = (\<lambda>j k d. Some (if k = lit ''mode'' then lit ''sharded'' else if k = lit ''host'' then lit ''h'' else d)),
      value_ushort = (\<lambda>j k d. Some d), value_uint = (\<lambda>j k d. Some (if k = lit ''id'' then 2 else d)),
      value_int = (\<lambda>j k d. Some d)\<rparr>"

definition demo_ring :: "u32 ring_api" where
  "demo_ring = \<lparr>ring_empty = 0, add_node = (\<lambda>n r. n), get_node = (\<lambda>r k. r)\<rparr>"

definition demo_peer :: peer_config where
  "demo_peer = \<lparr>pc_id = 2, pc_host = lit ''h'', pc_mesh_port = 9090, pc_http_port = 8080\<rparr>"

lemma demo_ring_law: "ring_law demo_ring"
proof -
  have "fold (\<lambda>n r. n) ns n \<in> insert n (set ns)" for n :: u32 and ns by (induction ns arbitrary: n) auto
  then show ?thesis by (simp add: ring_law_def demo_ring_def)
qed

lemma demo_config:
  "load_config demo_api (Some []) = default_config\<lparr>cluster_mode := lit ''sharded'', cfg_peers := [demo_peer]\<rparr>"
  by (simp add: load_config_def demo_api_def load_fields_def load_cluster_def load_root_peers_def assign_def
      default_config_def read_peer_def demo_peer_def lit_def)

theorem deployed_redirects_witness:
  "\<exists>r. handle_request demo_env (start_site demo_ring (load_config demo_api (Some [])) demo_site) metrics_init
       (demo_request GET_REQ [97] []) (engine_empty [] 1) [] = Some (Reply r, engine_empty [] 1, []) \<and>
     status r = 307 \<and> location r = Some (lit ''http://h:8080/kv/a'')"
proof -
  let ?S = "start_site demo_ring (load_config demo_api (Some [])) demo_site" and ?g = "demo_request GET_REQ [97] []"
  have o: "foreign_owner ?S [97] = Some 2"
    by (simp add: demo_config foreign_owner_def start_site_def build_ring_def demo_ring_def demo_peer_def
        default_config_def)
  have n: "[97] \<noteq> lit ''health''" "[97] \<noteq> lit ''metrics''" by (simp_all add: lit_def)
  have l: "lit ''http://'' @ lit ''h'' @ lit '':'' @ to_string 8080 @ kv_prefix @ [97] = lit ''http://h:8080/kv/a''"
    by (simp add: lit_def to_string_def dec_digits.simps kv_prefix_def)
  have t: "req_method ?g \<noteq> OTHER_REQ" "63 \<notin> set [97 :: byte]" "req_target ?g = kv_target_of ?g [97] []"
    by (simp_all add: demo_request_def kv_target_of_def)
  from deployed_redirects [OF demo_ring_law refl refl o n t, of demo_env metrics_init "engine_empty [] 1" "[]"]
  show ?thesis by (auto simp: demo_config demo_peer_def demo_request_def default_config_def l)
qed

text \<open>A file with an error is not replaced by the defaults: what was read before the error stays.\<close>

lemma broken_config_half_applied:
  assumes "parse_json A text = Some j" "value_string A j (lit ''address'') (lit ''0.0.0.0'') = Some a"
    "value_ushort A j (lit ''port'') 8080 = None"
  shows "load_config A (Some text) = default_config\<lparr>cfg_address := a\<rparr>"
  using assms by (simp add: load_config_def load_fields_def assign_def default_config_def)

end
