(* ===== verification/Gossip.thy ===== *)
theory Gossip
  imports Sync
begin

text \<open>
  The background thread of \<^verbatim>\<open>SyncManager\<close> (\<^verbatim>\<open>start\<close>, \<^verbatim>\<open>stop\<close> and \<^verbatim>\<open>run_loop\<close> in \<^verbatim>\<open>engine/sync_manager.hpp\<close>).
  A step of the thread is the stretch between two looks at \<^verbatim>\<open>running_\<close>: the test at the head of the
  loop, and the wake-up after two seconds of sleep. Shown: under any sequence of calls and steps
  there is at most one thread, stops return, and the process is never terminated by a thread object.
\<close>

datatype gossip_thread = No_thread | Loop_head | Asleep | Finished

text \<open>\<open>terminated\<close>: \<^verbatim>\<open>std::terminate\<close> has been called.\<close>

record gossip =
  running_flag :: bool
  bg_thread :: gossip_thread
  terminated :: bool

definition gossip_init :: gossip where
  "gossip_init = \<lparr>running_flag = False, bg_thread = No_thread, terminated = False\<rparr>"

text \<open>A \<^verbatim>\<open>std::thread\<close> is joinable from its start until it is joined, also after its function has returned.\<close>

definition joinable :: "gossip \<Rightarrow> bool" where
  "joinable g \<longleftrightarrow> bg_thread g \<noteq> No_thread"

text \<open>\<^verbatim>\<open>start\<close>: a new thread is assigned to \<^verbatim>\<open>bg_thread_\<close>, which terminates the program if that is joinable.\<close>

definition sync_start :: "gossip \<Rightarrow> gossip" where
  "sync_start g =
     (if running_flag g then g
      else
        (let g1 = g\<lparr>running_flag := True\<rparr>
         in if joinable g1 then g1\<lparr>terminated := True\<rparr> else g1\<lparr>bg_thread := Loop_head\<rparr>))"

text \<open>A step of \<^verbatim>\<open>run_loop\<close>; the flag of the result says whether it triggers gossip.\<close>

definition run_loop :: "gossip \<Rightarrow> bool \<times> gossip" where
  "run_loop g =
     (case bg_thread g of
        Loop_head \<Rightarrow> (False, g\<lparr>bg_thread := (if running_flag g then Asleep else Finished)\<rparr>)
      | Asleep \<Rightarrow> if running_flag g then (True, g\<lparr>bg_thread := Loop_head\<rparr>) else (False, g\<lparr>bg_thread := Finished\<rparr>)
      | _ \<Rightarrow> (False, g))"

text \<open>\<^verbatim>\<open>stop\<close>: the request, and the join, which waits while the thread takes its steps; \<open>None\<close> is a join that
  never returns.\<close>

definition stop_request :: "gossip \<Rightarrow> gossip" where
  "stop_request g = g\<lparr>running_flag := False\<rparr>"

partial_function (option) join_thread :: "gossip \<Rightarrow> gossip option" where
  "join_thread g =
     (if bg_thread g = Finished then Some (g\<lparr>bg_thread := No_thread\<rparr>) else join_thread (snd (run_loop g)))"

definition sync_stop :: "gossip \<Rightarrow> gossip option" where
  "sync_stop g = (let g1 = stop_request g in if joinable g1 then join_thread g1 else Some g1)"

section \<open>Calls and steps\<close>

datatype gossip_act = Start | Stop | Thread_step

text \<open>A sequence of calls and steps of the thread, with the number of times it gossips.\<close>

fun gossip_run :: "gossip_act list \<Rightarrow> gossip \<Rightarrow> (nat \<times> gossip) option" where
  "gossip_run [] g = Some (0, g)"
| "gossip_run (Start # as) g = gossip_run as (sync_start g)"
| "gossip_run (Stop # as) g = (case sync_stop g of None \<Rightarrow> None | Some g' \<Rightarrow> gossip_run as g')"
| "gossip_run (Thread_step # as) g =
     (let (t, g') = run_loop g in map_option (\<lambda>(k, h). ((if t then 1 else 0) + k, h)) (gossip_run as g'))"

text \<open>Between calls the thread is in its loop exactly while the flag is set.\<close>

definition gossip_inv :: "gossip \<Rightarrow> bool" where
  "gossip_inv g \<longleftrightarrow> \<not> terminated g \<and>
     (if running_flag g then bg_thread g \<in> {Loop_head, Asleep} else bg_thread g = No_thread)"

text \<open>With the flag cleared the thread ends within a step, so the join returns.\<close>

lemma join_thread_returns:
  assumes "\<not> running_flag g" "joinable g"
  shows "join_thread g = Some (g\<lparr>bg_thread := No_thread\<rparr>)"
proof (cases "bg_thread g = Finished")
  case True
  then show ?thesis by (simp add: join_thread.simps)
next
  case False
  then have "snd (run_loop g) = g\<lparr>bg_thread := Finished\<rparr>"
    using assms by (cases "bg_thread g") (simp_all add: run_loop_def joinable_def)
  then show ?thesis using False by (simp add: join_thread.simps [of g] join_thread.simps [of "g\<lparr>bg_thread := Finished\<rparr>"])
qed

lemma sync_stop_returns: "sync_stop g = Some (g\<lparr>running_flag := False, bg_thread := No_thread\<rparr>)"
  using join_thread_returns [of "stop_request g"]
  by (cases "joinable g") (auto simp: sync_stop_def stop_request_def joinable_def Let_def)

lemma gossip_inv_simps [simp]:
  "gossip_inv gossip_init" "gossip_inv g \<Longrightarrow> gossip_inv (sync_start g)" "gossip_inv g \<Longrightarrow> gossip_inv (snd (run_loop g))"
  "gossip_inv g \<Longrightarrow> gossip_inv (g\<lparr>running_flag := False, bg_thread := No_thread\<rparr>)"
  by (auto simp: gossip_inv_def gossip_init_def sync_start_def run_loop_def joinable_def Let_def
      split: gossip_thread.splits if_splits)

lemma running_after:
  "gossip_inv g \<Longrightarrow> running_flag (sync_start g)" "running_flag (snd (run_loop g)) = running_flag g"
  by (auto simp: gossip_inv_def sync_start_def run_loop_def joinable_def Let_def split: gossip_thread.splits)

lemma not_running_init: "running_flag gossip_init = False"
  by (simp add: gossip_init_def)

text \<open>Whether \<^verbatim>\<open>start\<close> was the last of the two calls.\<close>

fun started :: "gossip_act list \<Rightarrow> bool \<Rightarrow> bool" where
  "started [] b = b"
| "started (Start # as) b = started as True"
| "started (Stop # as) b = started as False"
| "started (Thread_step # as) b = started as b"

lemma gossip_run_inv:
  "gossip_inv g \<Longrightarrow> \<exists>k h. gossip_run as g = Some (k, h) \<and> gossip_inv h \<and> running_flag h = started as (running_flag g)"
proof (induction as arbitrary: g)
  case (Cons a as)
  then show ?case
  proof (cases a)
    case Start
    then show ?thesis using Cons.IH [of "sync_start g"] Cons.prems by (simp add: running_after)
  next
    case Stop
    then show ?thesis
      using Cons.IH [OF gossip_inv_simps(4) [OF Cons.prems]] by (simp add: sync_stop_returns)
  next
    case Thread_step
    then show ?thesis
      using Cons.IH [OF gossip_inv_simps(3) [OF Cons.prems]] by (auto simp: case_prod_beta Let_def running_after)
  qed
qed simp

lemma gossip_run_append:
  "gossip_run (as @ bs) g =
   (case gossip_run as g of None \<Rightarrow> None | Some (k, h) \<Rightarrow> map_option (map_prod ((+) k) id) (gossip_run bs h))"
proof (induction as arbitrary: g)
  case (Cons a as)
  then show ?case
    by (cases a) (auto simp: map_prod_def case_prod_beta' Let_def option.map_comp comp_def split: option.splits)
qed (simp add: map_prod_def case_prod_beta' option.map_ident)

text \<open>While the flag is set every second step gossips; while it is not, none does.\<close>

lemma steps_gossip:
  assumes "gossip_inv g"
  shows "gossip_run (replicate (2 * n) Thread_step) g = Some (if running_flag g then n else 0, g)"
proof (induction n)
  case (Suc n)
  have "g\<lparr>bg_thread := bg_thread g\<rparr> = g" by simp
  then have "gossip_run [Thread_step, Thread_step] g = Some (if running_flag g then 1 else 0, g)"
    using assms by (cases "bg_thread g") (auto simp: gossip_inv_def run_loop_def Let_def split: if_splits)
  moreover have "replicate (2 * Suc n) Thread_step = [Thread_step, Thread_step] @ replicate (2 * n) Thread_step" by simp
  ultimately show ?case using Suc by (simp only: gossip_run_append) simp
qed simp

section \<open>Properties\<close>

text \<open>C27: the life of the gossip thread under any sequence of \<^verbatim>\<open>start\<close>, \<^verbatim>\<open>stop\<close> and steps of the thread, repeated
  and superfluous calls included: every \<^verbatim>\<open>stop\<close> returns; no \<^verbatim>\<open>start\<close> assigns to a joinable thread, so
  \<^verbatim>\<open>std::terminate\<close> is never called; there is a thread exactly if the last call was \<^verbatim>\<open>start\<close>; and from
  then on it gossips once in every two steps, and never otherwise.\<close>

theorem gossip_lifecycle:
  "\<exists>k g. gossip_run as gossip_init = Some (k, g) \<and> \<not> terminated g \<and> joinable g = started as False \<and>
     gossip_run (as @ replicate (2 * n) Thread_step) gossip_init = Some (k + (if started as False then n else 0), g)"
proof -
  obtain k g where r: "gossip_run as gossip_init = Some (k, g)" "gossip_inv g" "running_flag g = started as False"
    using gossip_run_inv [OF gossip_inv_simps(1), of as] not_running_init by auto
  moreover have "joinable g = running_flag g" using r(2) by (auto simp: gossip_inv_def joinable_def split: if_splits)
  ultimately show ?thesis
    using steps_gossip [OF r(2), of n] by (auto simp: gossip_run_append gossip_inv_def)
qed

end
