(* ===== verification/Node.thy ===== *)
theory Node
  imports Config Gossip Wal_Startup
begin

text \<open>
  The process that \<^verbatim>\<open>main.cpp\<close> starts: engine, mesh, metrics, HTTP server with its pool, and gossip
  thread in one state, and one event per completion or timer that the executors deliver. Here are
  the start-up of \<^verbatim>\<open>main\<close> with its failure branches, the counters of the mesh and of
  anti-entropy, and the shutdown. The main result is an invariant of the whole process.
\<close>

section \<open>Sending with its counters\<close>

text \<open>\<^verbatim>\<open>Mesh::send\<close> counts the payload of a frame it has taken.\<close>

definition counted_send :: "u32 \<times> Lane \<times> bytes \<Rightarrow> mesh \<times> metrics \<Rightarrow> mesh \<times> metrics" where
  "counted_send msg s =
     (case msg of (to, lane, payload) \<Rightarrow> case s of (m, mt) \<Rightarrow>
        let (ok, m') = mesh_send to lane payload m
        in (m', if ok then increment_mesh_bytes (lit (lane_to_string (lane_code lane))) (word_of_nat (length payload)) True mt
                else mt))"

text \<open>The sync manager counts each opening message and each divergent bucket, sent or not.\<close>

definition count_sync :: "u32 \<times> Lane \<times> bytes \<Rightarrow> metrics \<Rightarrow> metrics" where
  "count_sync msg mt =
     (case msg of (to, lane, payload) \<Rightarrow>
        if payload ! 0 = msg_code SYNC_INIT then increment_sync_ops (lit ''sync_init'') mt
        else if payload ! 0 = msg_code SYNC_REQ_BUCKET then increment_sync_ops (lit ''divergent_bucket'') mt
        else mt)"

definition send_all :: "sends \<Rightarrow> mesh \<times> metrics \<Rightarrow> mesh \<times> metrics" where
  "send_all out s = fold (\<lambda>msg (m, mt). counted_send msg (m, count_sync msg mt)) out s"

text \<open>A repaired key is counted when the message on the control lane holds a mutation and the engine
  did not throw.\<close>

definition count_repair :: "('b, 'w) env \<Rightarrow> u32 \<Rightarrow> bytes \<Rightarrow> ('b, 'w) engine \<Rightarrow> metrics \<Rightarrow> metrics" where
  "count_repair E lane payload en mt =
     (if lane = lane_code Control \<and> 5 \<le> length payload \<and> payload ! 0 = msg_code SYNC_PUT_VAL then
        (case put_val_mutation E payload of
           None \<Rightarrow> mt
         | Some m \<Rightarrow> if fst (apply_mutation E m en) then increment_keys_repaired mt else mt)
      else mt)"

section \<open>The process\<close>

datatype phase = Serving | Stopped | Crashed

text \<open>\<open>mesh_workers\<close> counts the joinable threads of \<^verbatim>\<open>mesh_pool\<close>; \<open>workers_joined\<close>: \<^verbatim>\<open>http_server::run\<close> has joined
  those of its pool.\<close>

record ('b, 'w) process =
  proc_engine :: "('b, 'w) engine"
  proc_mesh :: mesh
  proc_metrics :: metrics
  proc_pool :: pool
  proc_listener :: listener
  proc_gossip :: gossip
  open_sessions :: nat
  mesh_workers :: nat
  workers_joined :: bool
  proc_phase :: phase

text \<open>
  The events: a completed accept, one round on an open connection (with the clock readings it
  sees), a frame read by the mesh, a step of the gossip thread (with the peer it draws; a node that
  is no peer stands for an empty table), a run of the pool manager, a thread that takes an exit
  handler, a completed write and an expired delay of the mesh, and a signal.
\<close>

datatype node_event =
    Accepted bool
  | Round exchange "int list"
  | Incoming u32 bytes
  | Gossip_step u32
  | Manager int int
  | Pill
  | Mesh_written bool u32
  | Mesh_timer nat
  | Stop_signal

text \<open>Whether the connection is read again after a round.\<close>

definition stays_open :: "exchange \<Rightarrow> reply list \<Rightarrow> bool" where
  "stays_open x l = (case l of [Reply r] \<Rightarrow> ex_sent_ok x \<and> keep_alive r | _ \<Rightarrow> False)"

definition on_connection :: "bool \<Rightarrow> ('b, 'w) process \<Rightarrow> ('b, 'w) process" where
  "on_connection ec p =
     (let p1 = p\<lparr>proc_listener := on_accept ec (proc_listener p)\<rparr> in
      if accepting (proc_listener p) \<and> \<not> ec
      then p1\<lparr>proc_metrics := increment_active_connections (proc_metrics p), open_sessions := open_sessions p + 1\<rparr>
      else p1)"

definition on_round :: "('b, 'w) env \<Rightarrow> site \<Rightarrow> exchange \<Rightarrow> int list \<Rightarrow> ('b, 'w) process \<Rightarrow> ('b, 'w) process option" where
  "on_round E S x rs p =
     (if open_sessions p = 0 then None
      else
        (case session_loop E S [x] (proc_metrics p) (proc_engine p) rs of
           None \<Rightarrow> None
         | Some (l, mt, en, _) \<Rightarrow>
             Some (if Escaped \<in> set l then p\<lparr>proc_engine := en, proc_metrics := mt, proc_phase := Crashed\<rparr>
                   else if stays_open x l then p\<lparr>proc_engine := en, proc_metrics := mt\<rparr>
                   else p\<lparr>proc_engine := en, proc_metrics := decrement_active_connections mt,
                          open_sessions := open_sessions p - 1\<rparr>)))"

definition on_frame :: "('b, 'w) env \<Rightarrow> u32 \<Rightarrow> bytes \<Rightarrow> ('b, 'w) process \<Rightarrow> ('b, 'w) process option" where
  "on_frame E lane payload p =
     (let en = proc_engine p in
      case on_message E (my_id (proc_mesh p)) lane payload en of
        None \<Rightarrow> None
      | Some (out, en') \<Rightarrow>
          (let (m, mt) = send_all out (proc_mesh p, count_repair E lane payload en (proc_metrics p))
           in Some (p\<lparr>proc_engine := en', proc_mesh := m,
                      proc_metrics := increment_mesh_bytes (lit (lane_to_string lane)) (word_of_nat (length payload)) False mt\<rparr>)))"

definition on_gossip :: "u32 \<Rightarrow> ('b, 'w) process \<Rightarrow> ('b, 'w) process" where
  "on_gossip target p =
     (let (triggers, g) = run_loop (proc_gossip p); p1 = p\<lparr>proc_gossip := g\<rparr> in
      if triggers then
        (let (out, en) = trigger_gossip (my_id (proc_mesh p)) (if active_peer (proc_mesh p) target then [target] else []) 0
               (proc_engine p);
             (m, mt) = send_all out (proc_mesh p, proc_metrics p)
         in p1\<lparr>proc_engine := en, proc_mesh := m, proc_metrics := mt\<rparr>)
      else p1)"

definition on_manager :: "int \<Rightarrow> int \<Rightarrow> ('b, 'w) process \<Rightarrow> ('b, 'w) process" where
  "on_manager now now2 p =
     (let pool = manager_loop now now2 (get_active_connections (proc_metrics p)) (proc_pool p)
      in p\<lparr>proc_pool := pool, proc_metrics := set_thread_count (n_threads pool) (proc_metrics p)\<rparr>)"

text \<open>A signal stops the server, whose \<^verbatim>\<open>run\<close> joins its threads; \<^verbatim>\<open>main\<close> then stops the gossip thread, stops and joins
  the mesh threads and flushes the log.\<close>

definition on_stop :: "('w \<Rightarrow> bool \<times> 'w) \<Rightarrow> ('b, 'w) process \<Rightarrow> ('b, 'w) process option" where
  "on_stop do_flush p =
     (case sync_stop (proc_gossip p) of
        None \<Rightarrow> None
      | Some g \<Rightarrow>
          Some (p\<lparr>workers_joined := True, proc_gossip := g, mesh_workers := 0, proc_phase := Stopped,
                  proc_engine := (proc_engine p)\<lparr>wal := snd (do_flush (wal (proc_engine p)))\<rparr>\<rparr>))"

text \<open>One event in a serving process. \<open>None\<close>: the event cannot occur, a request still waits for the
  clock, or the message has undefined behaviour.\<close>

fun node_event_step :: "('b, 'w) env \<Rightarrow> site \<Rightarrow> ('w \<Rightarrow> bool \<times> 'w) \<Rightarrow> node_event \<Rightarrow> ('b, 'w) process \<Rightarrow>
    ('b, 'w) process option" where
  "node_event_step E S do_flush (Accepted ec) p = Some (on_connection ec p)"
| "node_event_step E S do_flush (Round x rs) p = on_round E S x rs p"
| "node_event_step E S do_flush (Incoming lane payload) p = on_frame E lane payload p"
| "node_event_step E S do_flush (Gossip_step target) p = Some (on_gossip target p)"
| "node_event_step E S do_flush (Manager now now2) p = Some (on_manager now now2 p)"
| "node_event_step E S do_flush Pill p =
     (if 0 < pills (proc_pool p) then Some (p\<lparr>proc_pool := pill_taken (proc_pool p)\<rparr>) else None)"
| "node_event_step E S do_flush (Mesh_written ec q) p = Some (p\<lparr>proc_mesh := mesh_write_done ec q (proc_mesh p)\<rparr>)"
| "node_event_step E S do_flush (Mesh_timer i) p = Some (p\<lparr>proc_mesh := timer_fires i (proc_mesh p)\<rparr>)"
| "node_event_step E S do_flush Stop_signal p = on_stop do_flush p"

definition node_step :: "('b, 'w) env \<Rightarrow> site \<Rightarrow> ('w \<Rightarrow> bool \<times> 'w) \<Rightarrow> node_event \<Rightarrow> ('b, 'w) process \<Rightarrow>
    ('b, 'w) process option" where
  "node_step E S do_flush ev p = (if proc_phase p = Serving then node_event_step E S do_flush ev p else None)"

fun node_run :: "('b, 'w) env \<Rightarrow> site \<Rightarrow> ('w \<Rightarrow> bool \<times> 'w) \<Rightarrow> node_event list \<Rightarrow> ('b, 'w) process \<Rightarrow>
    ('b, 'w) process option" where
  "node_run E S do_flush [] p = Some p"
| "node_run E S do_flush (ev # evs) p =
     (case node_step E S do_flush ev p of None \<Rightarrow> None | Some p' \<Rightarrow> node_run E S do_flush evs p')"

section \<open>Start-up\<close>

text \<open>\<^verbatim>\<open>http_server::run\<close> accepts, arms the timer of the manager, fills the pool and serves.\<close>

definition server_run :: "('b, 'w) process \<Rightarrow> ('b, 'w) process" where
  "server_run p = p\<lparr>proc_listener := (proc_listener p)\<lparr>accepting := True\<rparr>, proc_pool := pool_start (proc_pool p), proc_phase := Serving\<rparr>"

definition start_process :: "(peer_config \<Rightarrow> bool) \<Rightarrow> int \<Rightarrow> config \<Rightarrow> ('b, 'w) engine \<Rightarrow> ('b, 'w) process" where
  "start_process connects now cfg en = server_run
     \<lparr>proc_engine = en, proc_mesh = start_mesh connects cfg, proc_metrics = metrics_init,
      proc_pool = pool_new (cfg_min_threads cfg) (cfg_max_threads cfg) now,
      proc_listener = \<lparr>accepting = False, sessions = 0\<rparr>, proc_gossip = sync_start gossip_init,
      open_sessions = 0, mesh_workers = nat (cfg_mesh_threads cfg), workers_joined = False, proc_phase = Stopped\<rparr>"

lemma server_run_fields [simp]:
  "proc_engine (server_run p) = proc_engine p" "proc_mesh (server_run p) = proc_mesh p" "proc_metrics (server_run p) = proc_metrics p"
  "proc_gossip (server_run p) = proc_gossip p" "open_sessions (server_run p) = open_sessions p" "proc_phase (server_run p) = Serving"
  "proc_pool (server_run p) = pool_start (proc_pool p)" "proc_listener (server_run p) = (proc_listener p)\<lparr>accepting := True\<rparr>"
  by (simp_all add: server_run_def)

text \<open>
  Leaving the block of \<^verbatim>\<open>main\<close>. The locals are destroyed in the reverse order of their construction, by an
  exception or at the end. The destructor of a \<^verbatim>\<open>std::thread\<close> that is still joinable calls
  \<^verbatim>\<open>std::terminate\<close>: this concerns the member of the sync manager, which has no destructor of its own,
  the \<open>mesh_joinable\<close> threads of \<^verbatim>\<open>mesh_pool\<close> and the \<open>pool_joinable\<close> threads of the server.
\<close>

datatype main_local =
    Engine_local | Io_context_local | Mesh_local | Sync_local | Mesh_pool_local | Http_peers_local | Ring_local | Server_local

definition destroyed :: "gossip \<Rightarrow> nat \<Rightarrow> nat \<Rightarrow> main_local \<Rightarrow> bool" where
  "destroyed g mesh_joinable pool_joinable x =
     (case x of
        Sync_local \<Rightarrow> \<not> joinable g
      | Mesh_pool_local \<Rightarrow> mesh_joinable = 0
      | Server_local \<Rightarrow> pool_joinable = 0
      | _ \<Rightarrow> True)"

text \<open>How the process ends when the block is left: with \<open>code\<close>, or aborted while the locals are destroyed.\<close>

datatype 'p boot_result = Exit_code int | Aborted | Started 'p

definition leave_block :: "int \<Rightarrow> gossip \<Rightarrow> nat \<Rightarrow> nat \<Rightarrow> main_local list \<Rightarrow> 'p boot_result" where
  "leave_block code g mesh_joinable pool_joinable scope =
     (if list_all (destroyed g mesh_joinable pool_joinable) (rev scope) then Exit_code code else Aborted)"

text \<open>
  The start of \<^verbatim>\<open>main\<close>. The constructors of the engine, the mesh and the server may throw; the \<^verbatim>\<open>catch\<close>
  returns 1 if unwinding gets there. Connecting to a peer has a handler of its own.
\<close>

definition boot :: "('b, 'w) env \<Rightarrow> 'j json_api \<Rightarrow> ('r \<Rightarrow> nat \<Rightarrow> bytes option \<times> 'r) \<Rightarrow> ('r, 'w) wal_os \<Rightarrow>
    bytes option \<Rightarrow> bool \<Rightarrow> (peer_config \<Rightarrow> bool) \<Rightarrow> bool \<Rightarrow> int \<Rightarrow> ('b, 'w) process boot_result option" where
  "boot E A rd os file mesh_bound connects http_bound now =
     (let cfg = load_config A file in
      case engine_start E rd os (cfg_node_id cfg) of
        None \<Rightarrow> None
      | Some (Inl e) \<Rightarrow> Some (leave_block 1 gossip_init 0 0 [])
      | Some (Inr en) \<Rightarrow>
          Some (let scope = [Engine_local, Io_context_local] in
            if \<not> mesh_bound then leave_block 1 gossip_init 0 0 scope
            else
              (let scope = scope @ [Mesh_local, Sync_local, Mesh_pool_local, Http_peers_local, Ring_local];
                   g = sync_start gossip_init
               in if \<not> http_bound then leave_block 1 g (nat (cfg_mesh_threads cfg)) 0 scope
                  else Started (start_process connects now cfg en))))"

text \<open>The end of \<^verbatim>\<open>main\<close>, after the server has returned and the cleanup is done.\<close>

definition main_end :: "('b, 'w) process \<Rightarrow> ('b, 'w) process boot_result" where
  "main_end p = leave_block 0 (proc_gossip p) (mesh_workers p) (if workers_joined p then 0 else nat (pool_size (proc_pool p)))
     [Engine_local, Io_context_local, Mesh_local, Sync_local, Mesh_pool_local, Http_peers_local, Ring_local, Server_local]"

section \<open>The engine under requests and messages\<close>

definition engine_inv :: "('b, 'w) env \<Rightarrow> u32 \<Rightarrow> ('b, 'w) engine \<Rightarrow> bool" where
  "engine_inv E n en \<longleftrightarrow> store_inv E (db en) \<and> hlc_node_id (eclock en) = n"

lemmas store_invs = store_inv_put store_inv_edit store_inv_del

lemma engine_inv_op:
  assumes "engine_inv E n en" "run_op E op en rs = Some (ok, en', rs')"
  shows "engine_inv E n en'"
  using assms
  by (cases op)
    (auto simp: engine_inv_def put_def patch_int_def patch_str_def del_def apply_mutation_def Let_def
      apply_patch_int_def apply_patch_str_def case_prod_beta store_invs dest: hlc_now_node
      split: option.splits if_splits)

lemma engine_inv_mutation: "engine_inv E n en \<Longrightarrow> engine_inv E n (snd (apply_mutation E m en))"
  using engine_inv_op [of E n en "Mutate m" "[]"] by (simp add: case_prod_beta Let_def)

text \<open>A request runs at most one operation of the engine.\<close>

lemma handle_request_op:
  assumes "handle_request E S mt rq en rs = Some (r, en', rs')"
  shows "en' = en \<or> (\<exists>op ok. run_op E op en rs = Some (ok, en', rs'))"
proof -
  have "handle_put E S rq k en rs = Some (r, en', rs') \<Longrightarrow> ?thesis" for k
    by (auto simp: handle_put_def split: option.splits intro!: exI [of _ "Put k (req_body rq)"])
  moreover have "handle_delete E S rq k en rs = Some (r, en', rs') \<Longrightarrow> ?thesis" for k
    by (auto simp: handle_delete_def split: option.splits intro!: exI [of _ "Del k"])
  moreover have i: "patched rq (patch_int E k f v en rs) = Some (r, en', rs') \<Longrightarrow> ?thesis" for k f v
    by (auto simp: patched_def split: option.splits intro!: exI [of _ "Patch_int k f v"])
  moreover have s: "patched rq (patch_str E k f v en rs) = Some (r, en', rs') \<Longrightarrow> ?thesis" for k f v
    by (auto simp: patched_def split: option.splits intro!: exI [of _ "Patch_str k f v"])
  moreover have "handle_post E S rq en rs = Some (r, en', rs') \<Longrightarrow> ?thesis"
    using i s by (auto simp: handle_post_def Let_def split: option.splits if_splits sum.splits)
  ultimately show ?thesis using assms by (auto simp: handle_request_def Let_def split: if_splits)
qed

text \<open>One round on a connection, in the three ways it can end.\<close>

lemma one_round_cases:
  assumes "session_loop E S [x] mt en rs = Some (l, mt', en', rs')"
  obtains "l = []" "mt' = record_bytes_received (ex_in x) mt" "en' = en"
  | rq where "ex_read x = Got rq" "l = [Escaped]" "mt' = record_bytes_received (ex_in x) mt"
      "handle_request E S (record_bytes_received (ex_in x) mt) rq en rs = Some (Escaped, en', rs')"
  | rq r where "ex_read x = Got rq" "l = [Reply r]" "mt' = answered x r (record_bytes_received (ex_in x) mt)"
      "handle_request E S (record_bytes_received (ex_in x) mt) rq en rs = Some (Reply r, en', rs')"
  using assms
  by (auto simp: Let_def split: read_event.splits option.splits reply.splits prod.splits if_splits)

lemma engine_inv_round:
  assumes "session_loop E S [x] mt en rs = Some (l, mt', en', rs')" "engine_inv E n en"
  shows "engine_inv E n en'"
  using assms(1)
  by (cases rule: one_round_cases) (use assms(2) in \<open>auto dest!: handle_request_op intro: engine_inv_op\<close>)

text \<open>Asking for the root only brings the tree up to date.\<close>

lemma root_hash_engine:
  "store_inv E (db en) \<Longrightarrow> get_merkle_root_hash en =
     (ref_root (leaves (tree (db en))), en\<lparr>db := (db en)\<lparr>tree := merkle_exact (leaves (tree (db en)))\<rparr>\<rparr>)"
  by (simp add: get_merkle_root_hash_def store_inv_def get_root_hash_exact)

lemma engine_inv_root: "engine_inv E n en \<Longrightarrow> engine_inv E n (snd (get_merkle_root_hash en))"
  using root_hash_engine [of E en]
  by (simp add: engine_inv_def) (simp add: store_inv_def merkle_exact_inv leaves_length)

text \<open>A message leaves the engine alone, asks for the root, or is a mutation.\<close>

lemma on_message_cases:
  assumes "on_message E me lane pay en = Some (out, en')"
  obtains "en' = en" | "en' = snd (get_merkle_root_hash en)"
  | m where "lane = lane_code Control" "5 \<le> length pay" "pay ! 0 = msg_code SYNC_PUT_VAL"
      "put_val_mutation E pay = Some m" "en' = snd (apply_mutation E m en)"
  using assms
  by (auto simp: on_message_def handle_message_def on_sync_init_def on_put_val_def Let_def case_prod_beta
      split: if_splits option.splits)

lemma engine_inv_message:
  assumes "on_message E me lane pay en = Some (out, en')" "engine_inv E n en"
  shows "engine_inv E n en'"
  using assms(1)
  by (cases rule: on_message_cases) (use assms(2) in \<open>auto intro: engine_inv_root engine_inv_mutation\<close>)

lemma trigger_gossip_cases:
  assumes "trigger_gossip me ps pick en = (out, en')"
  obtains "en' = en" | "en' = snd (get_merkle_root_hash en)"
  using assms by (auto simp: trigger_gossip_def send_sync_init_def Let_def case_prod_beta split: if_splits)

section \<open>The mesh\<close>

text \<open>The queue and the bytes on the wire consist of whole frames, and a write is pending only if there
  is something to write.\<close>

definition is_frame :: "bytes \<Rightarrow> bool" where
  "is_frame f \<longleftrightarrow> (\<exists>l p. f = frame_bytes l p)"

definition conn_wf :: "u32 \<Rightarrow> conn \<Rightarrow> bool" where
  "conn_wf n c \<longleftrightarrow> (\<forall>f \<in> set (outbox c). is_frame f) \<and> (\<exists>ms. socket_out c = put32 n @ frames ms) \<and>
     (in_flight c \<longrightarrow> outbox c \<noteq> [])"

definition mesh_wf :: "mesh \<Rightarrow> bool" where
  "mesh_wf m \<longleftrightarrow> (\<forall>q c. peers m q = Some c \<longrightarrow> conn_wf (my_id m) c) \<and> (\<forall>(q, f) \<in> set (delayed m). is_frame f)"

lemma is_frame_bytes [simp]: "is_frame (frame_bytes l p)"
  by (auto simp: is_frame_def)

lemma conn_wf_start: "conn_wf n (conn_start n)"
  by (auto simp: conn_wf_def conn_start_def intro!: exI [of _ "[]"])

lemma conn_wf_send: "conn_wf n c \<Longrightarrow> is_frame f \<Longrightarrow> conn_wf n (conn_send f c)"
  by (auto simp: conn_wf_def conn_send_def do_write_def Let_def)

lemma conn_wf_written:
  assumes "conn_wf n c" "in_flight c"
  shows "conn_wf n (write_done ec c)"
proof (cases ec)
  case False
  obtain f fs where o: "outbox c = f # fs" using assms by (cases "outbox c") (auto simp: conn_wf_def)
  then obtain l p where f: "f = frame_bytes l p" using assms(1) by (auto simp: conn_wf_def is_frame_def)
  obtain ms where "socket_out c = put32 n @ frames ms" using assms(1) by (auto simp: conn_wf_def)
  then have "\<exists>ms. socket_out c @ f = put32 n @ frames ms"
    by (intro exI [of _ "ms @ [(l, p)]"]) (simp add: f)
  with assms(1) o False show ?thesis
    unfolding conn_wf_def by (simp add: write_done_def do_write_def Let_def)
qed (use assms in \<open>auto simp: conn_wf_def write_done_def\<close>)

lemma mesh_wf_init: "mesh_wf (mesh_init n)"
  by (simp add: mesh_wf_def mesh_init_def)

lemma mesh_wf_connect: "mesh_wf m \<Longrightarrow> mesh_wf (mesh_connect q m) \<and> my_id (mesh_connect q m) = my_id m"
  by (auto simp: mesh_wf_def mesh_connect_def conn_wf_start)

lemma mesh_wf_send:
  "mesh_wf m \<Longrightarrow> mesh_wf (snd (mesh_send q l p m)) \<and> my_id (snd (mesh_send q l p m)) = my_id m"
  by (auto simp: mesh_wf_def mesh_send_def Let_def conn_wf_send split: option.splits)

lemma mesh_wf_timer: "mesh_wf m \<Longrightarrow> mesh_wf (timer_fires i m) \<and> my_id (timer_fires i m) = my_id m"
proof -
  assume m: "mesh_wf m"
  have "is_frame (snd (delayed m ! i))" if "i < length (delayed m)"
    using m nth_mem [OF that] by (auto simp: mesh_wf_def)
  with m show ?thesis
    by (auto simp: mesh_wf_def timer_fires_def Let_def conn_wf_send dest: in_set_takeD in_set_dropD
        split: option.splits prod.splits)
qed

lemma mesh_wf_written: "mesh_wf m \<Longrightarrow> mesh_wf (mesh_write_done ec q m) \<and> my_id (mesh_write_done ec q m) = my_id m"
  by (auto simp: mesh_wf_def mesh_write_done_def conn_wf_written split: option.splits)

lemma mesh_wf_start: "mesh_wf (start_mesh connects cfg) \<and> my_id (start_mesh connects cfg) = cfg_node_id cfg"
proof -
  have "mesh_wf m \<Longrightarrow> mesh_wf (fold (\<lambda>p m. if connects p then mesh_connect (pc_id p) m else m) ps m) \<and>
      my_id (fold (\<lambda>p m. if connects p then mesh_connect (pc_id p) m else m) ps m) = my_id m" for ps m
    by (induction ps arbitrary: m) (auto simp: mesh_wf_connect)
  from this [OF mesh_wf_init] show ?thesis by (simp add: start_mesh_def mesh_init_def)
qed

text \<open>Sending keeps the mesh and the metrics in order, and the counts of connections.\<close>

definition link_ok :: "u32 \<Rightarrow> 64 word \<Rightarrow> mesh \<times> metrics \<Rightarrow> bool" where
  "link_ok n k s \<longleftrightarrow> mesh_wf (fst s) \<and> my_id (fst s) = n \<and> metrics_inv (snd s) \<and> active_connections (snd s) = k"

lemma metrics_inv_recorders [simp]:
  "metrics_inv mt \<Longrightarrow> metrics_inv (increment_mesh_bytes l n d mt)" "metrics_inv mt \<Longrightarrow> metrics_inv (increment_sync_ops t mt)"
  "metrics_inv mt \<Longrightarrow> metrics_inv (increment_keys_repaired mt)" "metrics_inv mt \<Longrightarrow> metrics_inv (record_bytes_received n mt)"
  "metrics_inv mt \<Longrightarrow> metrics_inv (increment_active_connections mt)"
  "metrics_inv mt \<Longrightarrow> metrics_inv (decrement_active_connections mt)"
  "metrics_inv mt \<Longrightarrow> metrics_inv (answered x r mt)" "metrics_inv mt \<Longrightarrow> metrics_inv (set_thread_count k mt)"
  by (auto simp: metrics_inv_def recorders answered_def scoped_metric_def set_thread_count_def)

lemma active_recorders [simp]:
  "active_connections (increment_mesh_bytes l n d mt) = active_connections mt"
  "active_connections (increment_sync_ops t mt) = active_connections mt"
  "active_connections (increment_keys_repaired mt) = active_connections mt"
  "active_connections (set_thread_count k mt) = active_connections mt"
  by (simp_all add: recorders set_thread_count_def)

lemma link_ok_send: "link_ok n k (m, mt) \<Longrightarrow> link_ok n k (counted_send msg (m, count_sync msg mt))"
  using mesh_wf_send [of m "fst msg" "fst (snd msg)" "snd (snd msg)"]
  by (cases msg) (auto simp: link_ok_def counted_send_def count_sync_def Let_def case_prod_beta)

lemma link_ok_send_all: "link_ok n k s \<Longrightarrow> link_ok n k (send_all out s)"
  unfolding send_all_def by (induction out arbitrary: s) (auto simp: case_prod_beta link_ok_send)

lemma count_repair_ok:
  "metrics_inv mt \<Longrightarrow> metrics_inv (count_repair E l p en mt) \<and>
   active_connections (count_repair E l p en mt) = active_connections mt"
  by (auto simp: count_repair_def split: option.splits)

section \<open>The invariant of the process\<close>

definition node_inv :: "('b, 'w) env \<Rightarrow> u32 \<Rightarrow> ('b, 'w) process \<Rightarrow> bool" where
  "node_inv E n p \<longleftrightarrow> engine_inv E n (proc_engine p) \<and>
     link_ok n (of_nat (open_sessions p)) (proc_mesh p, proc_metrics p) \<and> pool_inv (proc_pool p) \<and>
     gossip_inv (proc_gossip p) \<and> (proc_phase p = Stopped \<longrightarrow> bg_thread (proc_gossip p) = No_thread)"

lemma node_inv_round:
  assumes "node_inv E n p" "on_round E S x rs p = Some p'"
  shows "node_inv E n p'"
proof -
  obtain l mt en rs' where r: "session_loop E S [x] (proc_metrics p) (proc_engine p) rs = Some (l, mt, en, rs')"
    and o: "open_sessions p \<noteq> 0"
    and p': "p' = (if Escaped \<in> set l then p\<lparr>proc_engine := en, proc_metrics := mt, proc_phase := Crashed\<rparr>
                   else if stays_open x l then p\<lparr>proc_engine := en, proc_metrics := mt\<rparr>
                   else p\<lparr>proc_engine := en, proc_metrics := decrement_active_connections mt,
                          open_sessions := open_sessions p - 1\<rparr>)"
    using assms(2) by (auto simp: on_round_def split: if_splits option.splits)
  have "metrics_inv mt \<and> active_connections mt = active_connections (proc_metrics p)"
    using r by (cases rule: one_round_cases) (use assms(1) in \<open>auto simp: node_inv_def link_ok_def session_counters\<close>)
  moreover have "engine_inv E n en" using engine_inv_round [OF r] assms(1) by (simp add: node_inv_def)
  moreover have "(of_nat (open_sessions p) :: 64 word) - 1 = of_nat (open_sessions p - 1)"
    using o by (cases "open_sessions p") simp_all
  ultimately show ?thesis
    using assms(1) by (auto simp: p' node_inv_def link_ok_def decrement_active_connections_def metrics_inv_def)
qed

lemma node_inv_frame:
  assumes "node_inv E n p" "on_frame E lane pay p = Some p'"
  shows "node_inv E n p'"
proof -
  obtain out en where m: "on_message E (my_id (proc_mesh p)) lane pay (proc_engine p) = Some (out, en)"
    using assms(2) by (auto simp: on_frame_def Let_def split: option.splits)
  let ?s = "send_all out (proc_mesh p, count_repair E lane pay (proc_engine p) (proc_metrics p))"
  have "link_ok n (of_nat (open_sessions p)) ?s"
    using assms(1) by (intro link_ok_send_all) (auto simp: node_inv_def link_ok_def count_repair_ok)
  moreover have "engine_inv E n en" using engine_inv_message [OF m] assms(1) by (simp add: node_inv_def)
  moreover have "p' = p\<lparr>proc_engine := en, proc_mesh := fst ?s, proc_metrics :=
      increment_mesh_bytes (lit (lane_to_string lane)) (word_of_nat (length pay)) False (snd ?s)\<rparr>"
    using assms(2) m by (simp add: on_frame_def Let_def case_prod_beta)
  ultimately show ?thesis using assms(1) by (simp add: node_inv_def link_ok_def)
qed

lemma node_inv_gossip:
  assumes "node_inv E n p"
  shows "node_inv E n (on_gossip t p)"
proof -
  obtain b g where g: "run_loop (proc_gossip p) = (b, g)" by force
  have gi: "gossip_inv g" using gossip_inv_simps(3) [of "proc_gossip p"] assms g by (simp add: node_inv_def)
  have st: "bg_thread (proc_gossip p) = No_thread \<Longrightarrow> bg_thread g = No_thread \<and> \<not> b"
    using g by (auto simp: run_loop_def)
  let ?ps = "if active_peer (proc_mesh p) t then [t] else []"
  obtain out en where o: "trigger_gossip (my_id (proc_mesh p)) ?ps 0 (proc_engine p) = (out, en)" by force
  have "engine_inv E n en"
    using o by (cases rule: trigger_gossip_cases) (use assms in \<open>auto simp: node_inv_def engine_inv_root\<close>)
  moreover have "link_ok n (of_nat (open_sessions p)) (send_all out (proc_mesh p, proc_metrics p))"
    using assms by (intro link_ok_send_all) (simp add: node_inv_def)
  ultimately show ?thesis
    using assms gi st g o by (auto simp: on_gossip_def Let_def case_prod_beta node_inv_def)
qed

lemma node_inv_stop:
  assumes "node_inv E n p" "on_stop fl p = Some p'"
  shows "node_inv E n p'"
  using assms gossip_inv_simps(4) [of "proc_gossip p"]
  by (auto simp: on_stop_def sync_stop_returns node_inv_def engine_inv_def)

lemma node_inv_step:
  assumes "node_inv E n p" "node_step E S fl ev p = Some p'"
  shows "node_inv E n p'"
proof -
  have ev: "node_event_step E S fl ev p = Some p'" using assms(2) by (simp add: node_step_def split: if_splits)
  show ?thesis
  proof (cases ev)
    case (Accepted ec)
    with ev assms(1) show ?thesis
      by (auto simp: on_connection_def Let_def node_inv_def link_ok_def)
         (auto simp: increment_active_connections_def)
  next
    case (Manager now now2)
    with ev assms(1) show ?thesis by (auto simp: on_manager_def Let_def node_inv_def link_ok_def manager_inv)
  next
    case Pill
    with ev assms(1) pool_step_inv [OF pool_step.pill, of "proc_pool p"] show ?thesis
      by (auto simp: node_inv_def split: if_splits)
  next
    case (Mesh_written ec q)
    with ev assms(1) show ?thesis by (auto simp: node_inv_def link_ok_def mesh_wf_written)
  next
    case (Mesh_timer i)
    with ev assms(1) show ?thesis by (auto simp: node_inv_def link_ok_def mesh_wf_timer)
  qed (use ev assms(1) node_inv_round node_inv_frame node_inv_gossip node_inv_stop in auto)
qed

lemma node_inv_run: "node_inv E n p \<Longrightarrow> node_run E S fl evs p = Some p' \<Longrightarrow> node_inv E n p'"
  by (induction evs arbitrary: p) (auto split: option.splits dest: node_inv_step)

lemma node_inv_start:
  assumes "engine_inv E (cfg_node_id cfg) en"
  shows "node_inv E (cfg_node_id cfg) (start_process connects now cfg en)"
  using assms mesh_wf_start [of connects cfg] pool_inv_start
  by (simp add: start_process_def node_inv_def link_ok_def) (simp add: metrics_init_def)

lemma engine_start_inv:
  assumes "engine_start E rd os n = Some (Inr en)"
  shows "engine_inv E n en"
  using assms store_inv_replays [OF store_inv_init]
  by (auto simp: engine_start_def engine_inv_def hlc_init_def split: if_splits option.splits sum.splits)

lemma boot_started:
  assumes "boot E A rd os file mb connects hb now = Some (Started p)"
  obtains en where "engine_start E rd os (cfg_node_id (load_config A file)) = Some (Inr en)"
    "p = start_process connects now (load_config A file) en"
  using assms by (auto simp: boot_def leave_block_def Let_def split: option.splits sum.splits if_splits)

lemma node_run_append:
  "node_run E S fl (as @ bs) p = (case node_run E S fl as p of None \<Rightarrow> None | Some p' \<Rightarrow> node_run E S fl bs p')"
  by (induction as arbitrary: p) (auto split: option.splits)

text \<open>After the cleanup nothing joinable is left.\<close>

lemma stop_ends_main:
  assumes "proc_phase p = Serving"
  shows "\<exists>p'. node_step E S fl Stop_signal p = Some p' \<and> main_end p' = Exit_code 0"
  using assms by (simp add: node_step_def on_stop_def sync_stop_returns main_end_def leave_block_def destroyed_def joinable_def)

text \<open>When the HTTP server cannot be created the gossip thread is running, however many mesh threads there are.\<close>

lemma unwound_with_gossip: "Sync_local \<in> set ls \<Longrightarrow> leave_block c (sync_start gossip_init) j k ls = Aborted"
  by (auto simp: leave_block_def list_all_iff destroyed_def sync_start_def gossip_init_def joinable_def Let_def
      intro!: bexI [of _ Sync_local])

section \<open>Properties\<close>

text \<open>C6: the process is well formed at all times. Whatever configuration it was started with and
  whatever happens to it (connections, requests of any kind, frames from the mesh, gossip, runs of
  the pool manager, completed and failed writes, a signal), in every state it reaches: the shards and
  the Merkle tree are consistent; the clock and the mesh carry the configured node id; everything
  queued or written on a mesh connection is a sequence of whole frames behind the node id; the
  gauge of active connections is the number of open ones; and the thread pool is within its limits
  with at least one running thread.\<close>

theorem node_well_formed:
  assumes "boot E A rd os file mb connects hb now = Some (Started p0)" and "node_run E S fl evs p0 = Some p"
    and "n = cfg_node_id (load_config A file)"
  shows "store_inv E (db (proc_engine p)) \<and> hlc_node_id (eclock (proc_engine p)) = n \<and>
    my_id (proc_mesh p) = n \<and> mesh_wf (proc_mesh p) \<and>
    metrics_inv (proc_metrics p) \<and> active_connections (proc_metrics p) = of_nat (open_sessions p) \<and>
    min_threads (proc_pool p) \<le> n_threads (proc_pool p) \<and> n_threads (proc_pool p) \<le> max_threads (proc_pool p) \<and>
    1 \<le> running (proc_pool p)"
proof -
  obtain en where en: "engine_start E rd os n = Some (Inr en)" "p0 = start_process connects now (load_config A file) en"
    using assms(1,3) by (auto elim: boot_started)
  have "node_inv E n p0" using node_inv_start engine_start_inv [OF en(1)] assms(3) en(2) by blast
  from node_inv_run [OF this assms(2)] show ?thesis
    by (simp add: node_inv_def link_ok_def engine_inv_def pool_inv_def)
qed

text \<open>A node whose log is empty and whose connections all fail.\<close>

definition demo_os :: "(bytes \<times> nat, bytes) wal_os" where
  "demo_os = \<lparr>opened = True, file_size = Some 0, reader = None, writer = Some [], seek_end = Some\<rparr>"

lemma demo_boot:
  "boot demo_env demo_api storage_read demo_os (Some []) True (\<lambda>_. True) True 0 =
   Some (Started (start_process (\<lambda>_. True) 0 (load_config demo_api (Some [])) (engine_empty [] 1)))"
  by (simp add: boot_def Let_def engine_start_def demo_os_def recovered_calls_def open_writer_def demo_config
      default_config_def engine_empty_def)

theorem node_well_formed_witness:
  "\<exists>p. node_run demo_env demo_site (\<lambda>w. (True, w)) [Accepted False, Gossip_step 2, Gossip_step 2]
      (start_process (\<lambda>_. True) 0 (load_config demo_api (Some [])) (engine_empty [] 1)) = Some p \<and>
    active_connections (proc_metrics p) = 1 \<and> mesh_wf (proc_mesh p)"
proof -
  let ?p0 = "start_process (\<lambda>_. True) 0 (load_config demo_api (Some [])) (engine_empty [] 1) :: (demo_buf, bytes) process"
  let ?evs = "[Accepted False, Gossip_step 2, Gossip_step 2]"
  have ph: "proc_phase (on_gossip t q) = proc_phase q" "open_sessions (on_gossip t q) = open_sessions q"
    for t and q :: "(demo_buf, bytes) process"
    by (simp_all add: on_gossip_def Let_def case_prod_beta)
  obtain p where p: "node_run demo_env demo_site (\<lambda>w. (True, w)) ?evs ?p0 = Some p" and o: "open_sessions p = 1"
    by (simp add: node_step_def start_process_def on_connection_def Let_def ph)
  from node_well_formed [OF demo_boot p refl] p o show ?thesis by auto
qed

text \<open>C18: how the process can end. On a file that holds a prefix of a log, within the limits of the format: if the
  file cannot be opened or measured, if there is no writer or the mesh port is taken, \<^verbatim>\<open>main\<close> catches the error and
  returns 1. If only the HTTP server cannot be created, destroying the running gossip thread aborts the
  process, whatever the configuration. Otherwise the process serves, with exactly the complete batches of the
  log replayed, or with an empty store if the reader of the log could not be created; and whatever happens to
  it then, a signal that reaches it while it serves ends it with exit code 0.\<close>

theorem boot_outcomes:
  assumes "\<forall>b \<in> set bs. fits_batch b" and "length (log_bytes bs) < 2 ^ 64" and "f = take k (log_bytes bs)"
    and "file_size os = None \<or> file_size os = Some (length f)" and "reader os = None \<or> reader os = Some (f, 0)"
    and "cfg = load_config A file"
    and "p0 = start_process connects now cfg
       \<lparr>db = (if reader os = None then store_init else fold (replay E) (log_calls (complete_prefix k bs)) store_init),
        wal = (case seek_end os (the (writer os)) of Some w \<Rightarrow> w | None \<Rightarrow> the (writer os)),
        eclock = hlc_init (cfg_node_id cfg)\<rparr>"
  shows "boot E A storage_read os file mb connects hb now = Some
      (if \<not> opened os \<or> file_size os = None \<or> writer os = None \<or> \<not> mb then Exit_code 1
       else if \<not> hb then Aborted else Started p0) \<and>
    (\<forall>evs p. node_run E S fl evs p0 = Some p \<and> proc_phase p = Serving \<longrightarrow>
       (\<exists>p'. node_run E S fl (evs @ [Stop_signal]) p0 = Some p' \<and> main_end p' = Exit_code 0))"
proof
  show "boot E A storage_read os file mb connects hb now = Some
      (if \<not> opened os \<or> file_size os = None \<or> writer os = None \<or> \<not> mb then Exit_code 1
       else if \<not> hb then Aborted else Started p0)"
    using engine_start_branches [OF assms(1-5), of E "cfg_node_id cfg"] assms(6,7)
    by (simp add: boot_def Let_def unwound_with_gossip) (simp add: leave_block_def destroyed_def)
  show "\<forall>evs p. node_run E S fl evs p0 = Some p \<and> proc_phase p = Serving \<longrightarrow>
       (\<exists>p'. node_run E S fl (evs @ [Stop_signal]) p0 = Some p' \<and> main_end p' = Exit_code 0)"
    using stop_ends_main [of _ E S fl] by (fastforce simp: node_run_append)
qed

theorem boot_outcomes_witness:
  "boot demo_env demo_api storage_read
     \<lparr>opened = True, file_size = Some (length (log_bytes [[]])), reader = Some (log_bytes [[]], 0), writer = Some [],
      seek_end = Some\<rparr> (Some []) True (\<lambda>_. True) False 0 = Some Aborted"
proof -
  let ?os = "\<lparr>opened = True, file_size = Some (length (log_bytes [[]])), reader = Some (log_bytes [[]], 0), writer = Some [],
      seek_end = Some\<rparr>"
  have "\<forall>b \<in> set [[]]. fits_batch b" "length (log_bytes [[]]) < 2 ^ 64"
    by (simp_all add: fits_batch_def batch_bytes_def log_bytes_def batch_record_def)
  from boot_outcomes [OF this refl, of ?os "length (log_bytes [[]])" _ demo_api "Some []" _ "\<lambda>_. True" 0 demo_env True False]
  show ?thesis by simp
qed

end
