(* ===== verification/Restart.thy ===== *)
theory Restart
  imports Node
begin

text \<open>
  Durability of the whole process: the log of a serving node always holds what its documents
  are, through HTTP requests, messages and gossip, so that a stopped node comes back with the
  same documents and the same Merkle root. The tree of a running node may be ahead of a replayed
  one in what it has already rehashed, so stores are compared by their documents and leaves.
\<close>

section \<open>Stores with the same documents\<close>

definition db_like :: "'b store \<Rightarrow> 'b store \<Rightarrow> bool" where
  "db_like st st' \<longleftrightarrow> shards st = shards st' \<and> leaves (tree st) = leaves (tree st')"

lemma db_like_refl [simp]: "db_like st st"
  by (simp add: db_like_def)

lemma db_like_trans: "db_like a b \<Longrightarrow> db_like b c \<Longrightarrow> db_like a c"
  by (simp add: db_like_def)

lemma db_like_find: "db_like st st' \<Longrightarrow> find_blob E k st = find_blob E k st'"
  by (simp add: db_like_def find_blob_def)

lemma db_like_set: "db_like st st' \<Longrightarrow> db_like (set_blob E k b st) (set_blob E k b st')"
  by (simp add: db_like_def set_blob_def Let_def)

lemma db_like_delta: "db_like st st' \<Longrightarrow> db_like (delta k d st) (delta k d st')"
  by (simp add: db_like_def delta_def apply_delta_def Let_def)

lemma db_like_put: "db_like st st' \<Longrightarrow> db_like (apply_put E k b st) (apply_put E k b st')"
  by (simp add: apply_put_def Let_def db_like_find [of st st'] db_like_delta db_like_set)

lemma db_like_edit: "db_like st st' \<Longrightarrow> db_like (snd (apply_edit E k ed st)) (snd (apply_edit E k ed st'))"
  by (simp add: apply_edit_def Let_def db_like_find [of st st'] db_like_delta db_like_set case_prod_beta)

lemma db_like_replay: "db_like st st' \<Longrightarrow> db_like (replay E c st) (replay E c st')"
  by (cases c) (simp add: replay_def apply_patch_int_def apply_patch_str_def apply_del_def db_like_put
      db_like_edit split: option.split sum.split)

lemma db_like_replays: "db_like st st' \<Longrightarrow> db_like (fold (replay E) cs st) (fold (replay E) cs st')"
  by (induction cs arbitrary: st st') (simp_all add: db_like_replay)

lemma db_like_root: "store_inv E (db en) \<Longrightarrow> db_like (db (snd (get_merkle_root_hash en))) (db en)"
  by (simp add: root_hash_engine db_like_def merkle_exact_def)

section \<open>The log of a running engine\<close>

definition durable :: "('b, 'w) env \<Rightarrow> ('w \<Rightarrow> bytes) \<Rightarrow> ('b, 'w) engine \<Rightarrow> bool" where
  "durable E log_of en \<longleftrightarrow> int64_range (max_wall_time (eclock en)) \<and>
     (\<exists>bs. (\<forall>b \<in> set bs. fits_batch b) \<and> log_of (wal en) = log_bytes bs \<and>
       db_like (db en) (fold (replay E) (log_calls bs) store_init))"

lemma durable_batch:
  assumes "wal_appends E log_of" "durable E log_of en" "logs_batch E en en' b" "int64_range (max_wall_time (eclock en'))"
  shows "durable E log_of en'"
proof -
  obtain bs where bs: "\<forall>b \<in> set bs. fits_batch b" "log_of (wal en) = log_bytes bs"
    "db_like (db en) (fold (replay E) (log_calls bs) store_init)"
    using assms(2) by (auto simp: durable_def)
  have "db_like (db en') (fold (replay E) (log_calls (bs @ [b])) store_init)"
    using assms(3) db_like_replays [OF bs(3), of E "map op_call b"] by (simp add: logs_batch_def log_calls_def)
  moreover have "log_of (wal en') = log_bytes (bs @ [b])" "fits_batch b"
    using assms(1,3) bs(2)
    by (simp_all add: logs_batch_def wal_appends_def wal_append_batch_def wal_append_def log_bytes_def batch_record_def)
  ultimately show ?thesis using bs(1) assms(4) unfolding durable_def by (intro conjI exI [of _ "bs @ [b]"]) auto
qed

lemma durable_op:
  assumes "wal_appends E log_of" "durable E log_of en" "run_op E op en rs = Some (True, en', rs')"
    "loggable op" "\<forall>r \<in> set rs. int64_range r"
  shows "durable E log_of en'"
proof -
  have "clock_range (eclock en) rs" using assms(2,5) by (simp add: clock_range_def durable_def)
  from run_op_logs [OF assms(3,4) this] durable_batch [OF assms(1,2)] assms(2) show ?thesis
    by (auto simp: clock_range_def)
qed

lemma durable_root:
  "store_inv E (db en) \<Longrightarrow> durable E log_of en \<Longrightarrow> durable E log_of (snd (get_merkle_root_hash en))"
  using db_like_root [of E en] by (auto simp: durable_def root_hash_engine [of E en] intro: db_like_trans)

lemma durable_mutation:
  assumes "wal_appends E log_of" "durable E log_of en" "loggable (Mutate m)"
  shows "durable E log_of (snd (apply_mutation E m en))"
proof (cases "local_ts E (mut_key m) (db en)")
  case None
  then show ?thesis using assms(2) by (simp add: apply_mutation_def)
next
  case (Some ts)
  then have "fst (apply_mutation E m en)" by (simp add: apply_mutation_def Let_def)
  then have "run_op E (Mutate m) en [] = Some (True, snd (apply_mutation E m en), [])" by (simp add: case_prod_beta)
  from durable_op [OF assms(1,2) this assms(3)] show ?thesis by simp
qed

section \<open>Requests and the log\<close>

text \<open>Parameters are pieces of the query.\<close>

lemma parse_query_piece:
  "parse_query_from q res k = Some v \<Longrightarrow> res k = Some v \<or> set v \<subseteq> set q \<and> length v \<le> length q"
proof (induction q res rule: parse_query_from.induct)
  case (1 q res)
  show ?case
  proof (cases "61 \<in> set q")
    case True
    let ?rest = "drop (Suc (length (takeWhile (\<lambda>b. b \<noteq> 61) q))) q"
    let ?v = "takeWhile (\<lambda>b. b \<noteq> 38) ?rest"
    have "set ?v \<subseteq> set q" "length ?v \<le> length q"
      using set_takeWhileD set_drop_subset [of _ q] length_takeWhile_le [of "\<lambda>b. b \<noteq> 38" ?rest]
      by (fastforce, simp)
    moreover have "set (drop (Suc (length ?v)) ?rest) \<subseteq> set q" "length (drop (Suc (length ?v)) ?rest) \<le> length q"
      by (auto dest: in_set_dropD)
    moreover have "parse_query_from (drop (Suc (length ?v)) ?rest) (res(takeWhile (\<lambda>b. b \<noteq> 61) q \<mapsto> ?v)) k = Some v"
      using 1(2) True by (subst (asm) parse_query_from.simps) (simp add: Let_def)
    ultimately show ?thesis
      using 1(1) [OF True refl refl refl] by (fastforce split: if_splits)
  qed (use 1(2) in \<open>simp add: parse_query_from.simps\<close>)
qed

lemma param_piece: "set (param (parse_query q) k) \<subseteq> set q \<and> length (param (parse_query q) k) \<le> length q"
  using parse_query_piece [of q Map.empty k] by (auto simp: param_def parse_query_def split: option.splits)

lemma stoll_range: "stoll v = Inr i \<Longrightarrow> int64_range i"
  by (auto simp: stoll_def Let_def case_prod_beta split: if_splits)

text \<open>Requests within the limits of the log format: a target that fits a key, a body below two
  gigabytes, and no colon in a POST (see the findings on long keys and on colons).\<close>

definition plain_request :: "request \<Rightarrow> bool" where
  "plain_request rq \<longleftrightarrow> length (req_target rq) < 65000 \<and> short (req_body rq) \<and>
     (req_method rq = POST_REQ \<longrightarrow> 58 \<notin> set (req_target rq))"

lemma handle_post_loggable:
  assumes "handle_post E S rq en rs = Some (Reply r, en', rs')" "length (req_target rq) < 65000"
    "58 \<notin> set (req_target rq)"
  shows "en' = en \<or> (\<exists>op. loggable op \<and> run_op E op en rs = Some (True, en', rs'))"
proof -
  define before where "before = takeWhile (\<lambda>b. b \<noteq> 63) (req_target rq)"
  define q where "q = drop (Suc (length before)) (req_target rq)"
  have k: "length (drop 4 before) + 5 < 65536"
    using length_takeWhile_le [of "\<lambda>b. b \<noteq> 63" "req_target rq"] assms(2) by (simp add: before_def)
  have q: "58 \<notin> set q" "length q < 65000" using assms(2,3) by (auto simp: q_def dest: in_set_dropD)
  have f: "58 \<notin> set (param (parse_query q) n)" "length (param (parse_query q) n) < 65000" for n
    using param_piece [of q n] q by auto
  have i: "loggable (Patch_int (drop 4 before) (param (parse_query q) n) i)" if "stoll v = Inr i" for n v i
    using k f [of n] stoll_range [OF that] by (simp add: short_def)
  have t: "loggable (Patch_str (drop 4 before) (param (parse_query q) n) (param (parse_query q) n'))" for n n'
    using k f [of n] f [of n'] by (simp add: short_def)
  have pi: "?thesis" if "patched rq (patch_int E a g v en rs) = Some (Reply r, en', rs')" "loggable (Patch_int a g v)" for a g v
    using that by (auto simp: patched_def intro!: exI [of _ "Patch_int a g v"] split: option.splits if_splits)
  have ps: "?thesis" if "patched rq (patch_str E a g v en rs) = Some (Reply r, en', rs')" "loggable (Patch_str a g v)" for a g v
    using that by (auto simp: patched_def intro!: exI [of _ "Patch_str a g v"] split: option.splits if_splits)
  show ?thesis
    using assms(1) pi [OF _ i] ps [OF _ t]
    by (auto simp: handle_post_def Let_def before_def [symmetric] q_def [symmetric] simp del: loggable.simps
        split: option.splits if_splits sum.splits)
qed

lemma handle_request_loggable:
  assumes "handle_request E S mt rq en rs = Some (Reply r, en', rs')" "plain_request rq"
  shows "en' = en \<or> (\<exists>op. loggable op \<and> run_op E op en rs = Some (True, en', rs'))"
proof -
  have k: "length (drop 4 (req_target rq)) + 5 < 65536" using assms(2) by (auto simp: plain_request_def)
  have ok: "put E a b en rs = Some (ok, x) \<Longrightarrow> ok" "del E a en rs = Some (ok, x) \<Longrightarrow> ok" for a b ok x
    by (auto simp: put_def del_def Let_def split: option.splits)
  have "?thesis" if "handle_put E S rq (drop 4 (req_target rq)) en rs = Some (Reply r, en', rs')"
    using that k assms(2) ok(1) [of "drop 4 (req_target rq)" "req_body rq"]
    by (auto simp: handle_put_def plain_request_def split: option.splits
        intro!: exI [of _ "Put (drop 4 (req_target rq)) (req_body rq)"])
  moreover have "?thesis" if "handle_delete E S rq (drop 4 (req_target rq)) en rs = Some (Reply r, en', rs')"
    using that k ok(2) [of "drop 4 (req_target rq)"]
    by (auto simp: handle_delete_def split: option.splits intro!: exI [of _ "Del (drop 4 (req_target rq))"])
  ultimately show ?thesis
    using assms handle_post_loggable [of E S rq en rs r en' rs']
    by (auto simp: handle_request_def plain_request_def Let_def split: if_splits)
qed

section \<open>The log of a running process\<close>

text \<open>Events within the limits of the format; clock readings are 64-bit.\<close>

definition event_ok :: "('b, 'w) env \<Rightarrow> node_event \<Rightarrow> bool" where
  "event_ok E ev =
     (case ev of
        Round x rs \<Rightarrow> list_all int64_range rs \<and> (case ex_read x of Got rq \<Rightarrow> plain_request rq | _ \<Rightarrow> True)
      | Incoming lane payload \<Rightarrow> (case put_val_mutation E payload of Some m \<Rightarrow> loggable (Mutate m) | None \<Rightarrow> True)
      | _ \<Rightarrow> True)"

definition flush_keeps :: "('w \<Rightarrow> bytes) \<Rightarrow> ('w \<Rightarrow> bool \<times> 'w) \<Rightarrow> bool" where
  "flush_keeps log_of do_flush \<longleftrightarrow> (\<forall>w. log_of (snd (do_flush w)) = log_of w)"

lemma durable_round:
  assumes "wal_appends E log_of" "durable E log_of (proc_engine p)" "on_round E S x rs p = Some p'"
    "event_ok E (Round x rs)" "proc_phase p' \<noteq> Crashed"
  shows "durable E log_of (proc_engine p')"
proof -
  obtain l mt en rs' where r: "session_loop E S [x] (proc_metrics p) (proc_engine p) rs = Some (l, mt, en, rs')"
    and p': "proc_engine p' = en" "Escaped \<notin> set l"
    using assms(3,5) by (auto simp: on_round_def split: if_splits option.splits)
  from r have "durable E log_of en"
  proof (cases rule: one_round_cases)
    case 1
    then show ?thesis using assms(2) by simp
  next
    case (2 rq)
    then show ?thesis using p'(2) by simp
  next
    case (3 rq rep)
    then have "plain_request rq" "\<forall>i \<in> set rs. int64_range i"
      using assms(4) by (auto simp: event_ok_def list_all_iff)
    with handle_request_loggable [OF 3(4)] durable_op [OF assms(1,2)] assms(2) show ?thesis by auto
  qed
  then show ?thesis using p'(1) by simp
qed

lemma durable_frame:
  assumes "wal_appends E log_of" "durable E log_of (proc_engine p)" "store_inv E (db (proc_engine p))"
    "on_frame E lane pay p = Some p'" "event_ok E (Incoming lane pay)"
  shows "durable E log_of (proc_engine p')"
proof -
  obtain out en where m: "on_message E (my_id (proc_mesh p)) lane pay (proc_engine p) = Some (out, en)"
    using assms(4) by (auto simp: on_frame_def Let_def split: option.splits)
  have "durable E log_of en"
    using m by (cases rule: on_message_cases)
      (use assms in \<open>auto simp: event_ok_def intro: durable_root durable_mutation\<close>)
  moreover have "proc_engine p' = en" using assms(4) m by (auto simp: on_frame_def Let_def case_prod_beta)
  ultimately show ?thesis by simp
qed

lemma durable_gossip:
  assumes "durable E log_of (proc_engine p)" "store_inv E (db (proc_engine p))"
  shows "durable E log_of (proc_engine (on_gossip t p))"
proof -
  have "durable E log_of (snd (trigger_gossip n ps k (proc_engine p)))" for n ps k
    using durable_root [OF assms(2,1)] assms(1)
    by (simp add: trigger_gossip_def send_sync_init_def Let_def case_prod_beta)
  then show ?thesis using assms(1) by (simp add: on_gossip_def Let_def case_prod_beta)
qed

lemma durable_step:
  assumes "wal_appends E log_of" "flush_keeps log_of fl" "node_inv E n p" "durable E log_of (proc_engine p)"
    "node_step E S fl ev p = Some p'" "event_ok E ev" "proc_phase p' \<noteq> Crashed"
  shows "durable E log_of (proc_engine p')"
proof -
  have ev: "node_event_step E S fl ev p = Some p'" using assms(5) by (simp add: node_step_def split: if_splits)
  have inv: "store_inv E (db (proc_engine p))" using assms(3) by (simp add: node_inv_def engine_inv_def)
  show ?thesis
  proof (cases ev)
    case (Round x rs)
    with ev assms durable_round show ?thesis by auto
  next
    case (Incoming lane pay)
    with ev assms inv durable_frame show ?thesis by auto
  next
    case Stop_signal
    with ev assms(2,4) show ?thesis
      by (auto simp: on_stop_def durable_def flush_keeps_def split: option.splits)
  qed (use ev assms(4) inv durable_gossip in
      \<open>auto simp: on_connection_def on_manager_def Let_def split: if_splits\<close>)
qed

lemma node_step_serving: "node_step E S fl ev p = Some p' \<Longrightarrow> proc_phase p = Serving"
  by (simp add: node_step_def split: if_splits)

lemma durable_run:
  assumes "wal_appends E log_of" "flush_keeps log_of fl"
  shows "node_run E S fl evs p = Some p' \<Longrightarrow> node_inv E n p \<Longrightarrow> durable E log_of (proc_engine p) \<Longrightarrow>
    list_all (event_ok E) evs \<Longrightarrow> proc_phase p' \<noteq> Crashed \<Longrightarrow> durable E log_of (proc_engine p')"
proof (induction evs arbitrary: p)
  case (Cons ev evs)
  then obtain p1 where p1: "node_step E S fl ev p = Some p1" "node_run E S fl evs p1 = Some p'"
    by (auto split: option.splits)
  have "proc_phase p1 \<noteq> Crashed"
    using p1(2) Cons.prems(5) by (cases evs) (auto dest: node_step_serving split: option.splits)
  with durable_step [OF assms Cons.prems(2,3) p1(1)] Cons.prems(4) have "durable E log_of (proc_engine p1)" by simp
  from Cons.IH [OF p1(2) node_inv_step [OF Cons.prems(2) p1(1)] this] Cons.prems(4,5) show ?case by simp
qed simp

section \<open>Properties\<close>

text \<open>A log file with the given contents, opened without errors; the writer stands at its end.\<close>

definition log_file :: "('w \<Rightarrow> bytes) \<Rightarrow> bytes \<Rightarrow> (bytes \<times> nat, 'w) wal_os \<Rightarrow> bool" where
  "log_file log_of f os \<longleftrightarrow> opened os \<and> file_size os = Some (length f) \<and> reader os = Some (f, 0) \<and>
     (\<exists>w. writer os = Some w \<and> log_of (case seek_end os w of Some w' \<Rightarrow> w' | None \<Rightarrow> w) = f)"

lemma complete_log: "complete_prefix (length (log_bytes bs)) bs = bs"
  using complete_prefix_append [of bs "length (log_bytes bs)" "[]"] by simp

lemma log_file_start:
  assumes "log_file log_of (log_bytes bs) os" "\<forall>b \<in> set bs. fits_batch b" "length (log_bytes bs) < 2 ^ 64"
  obtains en where "engine_start E storage_read os n = Some (Inr en)" "log_of (wal en) = log_bytes bs"
    "db en = fold (replay E) (log_calls bs) store_init" "eclock en = hlc_init n"
proof -
  have o: "opened os" "file_size os = Some (length (log_bytes bs))" "reader os = Some (log_bytes bs, 0)" "writer os \<noteq> None"
    "log_of (case seek_end os (the (writer os)) of Some w' \<Rightarrow> w' | None \<Rightarrow> the (writer os)) = log_bytes bs"
    using assms(1) by (auto simp: log_file_def split: option.splits)
  show ?thesis
    using engine_start_branches [OF assms(2,3) refl, of os "length (log_bytes bs)" E n] o that
    by (simp add: complete_log)
qed

lemma durable_start:
  assumes "log_of (wal en) = log_bytes bs" "\<forall>b \<in> set bs. fits_batch b" "eclock en = hlc_init n"
    "db en = fold (replay E) (log_calls bs) store_init"
  shows "durable E log_of en"
  using assms by (auto simp: durable_def hlc_init_def intro!: exI [of _ bs])

text \<open>C2: a node comes back with its documents. Start a process on a log, let it serve any mixture of
  HTTP requests, messages, gossip, resizing and mesh traffic, and stop it with a signal, or look
  at it at any other moment as long as no exception has ended it. A process started on the log it
  has written then serves the same document for every key, has the same Merkle root, and
  continues the same log. (Requests and messages stay within the limits of the log format.)\<close>

theorem restart_preserves_documents:
  fixes E :: "('b, 'w) env"
  assumes "wal_appends E log_of" and "flush_keeps log_of fl"
    and "log_file log_of (log_bytes bs) os" and "\<forall>b \<in> set bs. fits_batch b" and "length (log_bytes bs) < 2 ^ 64"
    and "boot E A storage_read os file True connects True now = Some (Started p0)"
    and "node_run E S fl evs p0 = Some p" and "list_all (event_ok E) evs" and "proc_phase p \<noteq> Crashed"
    and "f = log_of (wal (proc_engine p))" and "length f < 2 ^ 64" and "log_file log_of f os'"
  shows "\<exists>q. boot E A storage_read os' file True connects' True now' = Some (Started q) \<and>
    get E k (db (proc_engine q)) = get E k (db (proc_engine p)) \<and>
    fst (get_merkle_root_hash (proc_engine q)) = fst (get_merkle_root_hash (proc_engine p)) \<and>
    log_of (wal (proc_engine q)) = f"
proof -
  define cfg where "cfg = load_config A file"
  obtain en0 where en0: "engine_start E storage_read os (cfg_node_id cfg) = Some (Inr en0)"
    "p0 = start_process connects now cfg en0"
    using assms(6) by (auto simp: cfg_def elim: boot_started)
  obtain e where "engine_start E storage_read os (cfg_node_id cfg) = Some (Inr e)" "durable E log_of e"
    using log_file_start [OF assms(3-5), of E "cfg_node_id cfg"] durable_start assms(4) by metis
  with en0 have d0: "durable E log_of (proc_engine p0)" by (simp add: start_process_def)
  have inv0: "node_inv E (cfg_node_id cfg) p0"
    using node_inv_start engine_start_inv [OF en0(1)] en0(2) by blast
  have inv: "store_inv E (db (proc_engine p))"
    using node_inv_run [OF inv0 assms(7)] by (simp add: node_inv_def engine_inv_def)
  obtain cs where cs: "\<forall>b \<in> set cs. fits_batch b" "f = log_bytes cs"
    "db_like (db (proc_engine p)) (fold (replay E) (log_calls cs) store_init)"
    using durable_run [OF assms(1,2,7) inv0 d0 assms(8,9)] assms(10) by (auto simp: durable_def)
  obtain en where en: "engine_start E storage_read os' (cfg_node_id cfg) = Some (Inr en)" "log_of (wal en) = f"
    "db en = fold (replay E) (log_calls cs) store_init"
    using log_file_start [of log_of cs os' E "cfg_node_id cfg"] assms(11,12) cs(1,2) by metis
  let ?q = "start_process connects' now' cfg en"
  have like: "db_like (db (proc_engine ?q)) (db (proc_engine p))"
    using cs(3) en(3) by (simp add: db_like_def start_process_def)
  have invq: "store_inv E (db (proc_engine ?q))"
    using engine_start_inv [OF en(1)] by (simp add: engine_inv_def start_process_def)
  have "boot E A storage_read os' file True connects' True now' = Some (Started ?q)"
    using en(1) by (simp add: boot_def cfg_def Let_def)
  moreover have "get E k (db (proc_engine ?q)) = get E k (db (proc_engine p))"
    by (simp add: get_def db_like_find [OF like, of E k])
  moreover have "fst (get_merkle_root_hash (proc_engine ?q)) = fst (get_merkle_root_hash (proc_engine p))"
    using root_hash_engine [OF invq] root_hash_engine [OF inv] like by (simp add: db_like_def)
  moreover have "log_of (wal (proc_engine ?q)) = f" using en(2) by (simp add: start_process_def)
  ultimately show ?thesis by blast
qed

definition demo_round :: "exchange" where
  "demo_round = \<lparr>ex_read = Got (demo_request PUT_REQ [97] [49]), ex_in = 9, ex_out = 9, ex_sent_ok = True, ex_time = 0\<rparr>"

definition demo_file :: "bytes \<Rightarrow> (bytes \<times> nat, bytes) wal_os" where
  "demo_file f = \<lparr>opened = True, file_size = Some (length f), reader = Some (f, 0), writer = Some f, seek_end = Some\<rparr>"

lemma demo_file_log: "log_file (\<lambda>w. w) f (demo_file f)"
  by (simp add: log_file_def demo_file_def)

theorem restart_preserves_documents_witness:
  "\<exists>p q. node_run demo_env demo_site (\<lambda>w. (True, w)) [Accepted False, Round demo_round [5], Stop_signal]
       (start_process (\<lambda>_. True) 0 (load_config demo_api (Some [])) (engine_empty [] 1)) = Some p \<and>
     boot demo_env demo_api storage_read (demo_file (wal (proc_engine p))) (Some []) True (\<lambda>_. False) True 7 = Some (Started q) \<and>
     buf_data demo_env (get demo_env [97] (db (proc_engine q))) = [49]"
proof -
  let ?en = "engine_empty [] 1 :: (demo_buf, bytes) engine" and ?fl = "\<lambda>w :: bytes. (True, w)"
  let ?p0 = "start_process (\<lambda>_. True) 0 (load_config demo_api (Some [])) ?en"
  let ?evs = "[Accepted False, Round demo_round [5], Stop_signal]"
  have now: "hlc_now (eclock ?en) [5] = Some (Timestamp 5 0 1, (hlc_init 1)\<lparr>max_wall_time := 5\<rparr>, [])"
    by (simp add: hlc_now_def hlc_init_def hlc_stamp_def engine_empty_def Let_def)
  have "store_inv demo_env (db ?en)" by (simp add: engine_empty_def store_inv_init)
  from put_returns [OF this now, of "[97]" "[49]"] obtain en1 where
    put: "put demo_env [97] [49] ?en [5] = Some (True, en1, [])" "find_blob demo_env [97] (db en1) = Some (overwrite demo_env [49])"
    by blast
  have len: "length (wal en1) < 2 ^ 64"
    using put(1) now by (auto simp: put_def Let_def wal_append_batch_def wal_append_def demo_env_def engine_empty_def
        record_bytes_def batch_bytes_def batch_op_bytes_def meta_json_def meta_key_def lit_def to_string_def
        dec_digits.simps)
  have req: "handle_request demo_env demo_site mt (demo_request PUT_REQ [97] [49]) ?en [5] =
      Some (Reply (answer (demo_request PUT_REQ [97] [49]) 200 []), en1, [])" for mt
    by (subst handle_put_route [where k = "[97]"])
      (simp_all add: demo_request_def handle_put_def foreign_owner_def demo_site_def put(1))
  obtain p where run: "node_run demo_env demo_site ?fl ?evs ?p0 = Some p" and p: "proc_phase p = Stopped" "proc_engine p = en1"
    using req
    by (simp add: node_step_def start_process_def on_connection_def on_accept_def on_round_def demo_round_def Let_def on_stop_def
        stays_open_def answer_def demo_request_def sync_stop_returns)
  have fl: "flush_keeps (\<lambda>w. w) ?fl" by (simp add: flush_keeps_def)
  have boot0: "boot demo_env demo_api storage_read (demo_file (log_bytes [])) (Some []) True (\<lambda>_. True) True 0 = Some (Started ?p0)"
    by (simp add: boot_def Let_def engine_start_def demo_file_def recovered_calls_def open_writer_def demo_config
        default_config_def engine_empty_def log_bytes_def)
  have ok: "list_all (event_ok demo_env) ?evs"
    by (simp add: event_ok_def demo_round_def plain_request_def demo_request_def short_def)
  obtain q where q: "boot demo_env demo_api storage_read (demo_file (wal en1)) (Some []) True (\<lambda>_. False) True 7 = Some (Started q)"
    "get demo_env [97] (db (proc_engine q)) = get demo_env [97] (db en1)"
    using restart_preserves_documents [OF demo_appends fl demo_file_log _ _ boot0 run ok _ refl _ demo_file_log, of "\<lambda>_. False" 7 "[97]"]
      len p by (auto simp: log_bytes_def)
  have "buf_data demo_env (get demo_env [97] (db en1)) = [49]"
    using put(2) by (simp add: get_def) code_simp
  with q run p show ?thesis by auto
qed

end
