(* ===== verification/Cluster.thy ===== *)
theory Cluster
  imports Node
begin

text \<open>
  Several processes and the sockets between them. A connection that node \<open>i\<close> opened to node \<open>j\<close> has two
  ends: the \<^verbatim>\<open>Connection\<close> in the peer table of \<open>i\<close>, which reads as soon as it has sent its id, and the one
  that \<open>j\<close> would create for the accepted socket. Here is \<^verbatim>\<open>Mesh::do_accept\<close>, and what follows from it
  for a deployed cluster.
\<close>

section \<open>Accepting mesh connections\<close>

record mesh_acceptor =
  armed :: bool
  backing_off :: bool

text \<open>\<^verbatim>\<open>Mesh::do_accept\<close> starts an \<^verbatim>\<open>async_accept\<close>; \<^verbatim>\<open>listen\<close>, called once in \<^verbatim>\<open>main\<close>, is the first of them.\<close>

definition do_accept :: "mesh_acceptor \<Rightarrow> mesh_acceptor" where
  "do_accept a = a\<lparr>armed := True\<rparr>"

definition mesh_listen :: "mesh_acceptor \<Rightarrow> mesh_acceptor" where
  "mesh_listen a = do_accept a"

text \<open>
  The completion handler of \<^verbatim>\<open>async_accept\<close>: without an error it does nothing with the socket, which is
  closed when the handler returns, and accepts again; after an error it first waits. The table \<open>inb\<close> of
  connections kept for accepted sockets is therefore returned as it was.
\<close>

definition mesh_on_accept :: "bool \<Rightarrow> u32 \<Rightarrow> mesh_acceptor \<Rightarrow> (u32 \<Rightarrow> conn option) \<Rightarrow>
    mesh_acceptor \<times> (u32 \<Rightarrow> conn option)" where
  "mesh_on_accept ec from a inb =
     (if \<not> ec then (do_accept a, inb)
      else (a\<lparr>armed := False, backing_off := True\<rparr>, inb))"

definition accept_timer :: "mesh_acceptor \<Rightarrow> mesh_acceptor" where
  "accept_timer a = (if backing_off a then do_accept (a\<lparr>backing_off := False\<rparr>) else a)"

section \<open>The cluster\<close>

record ('b, 'w) cluster =
  members :: "u32 \<Rightarrow> ('b, 'w) process"
  acceptors :: "u32 \<Rightarrow> mesh_acceptor"
  inbound :: "u32 \<Rightarrow> u32 \<Rightarrow> conn option"

text \<open>
  The events: one of the process itself (anything but a frame), an accept at \<open>j\<close> of a connection from
  \<open>i\<close>, the expiry of the wait at \<open>j\<close>, and a frame read at the accepting or at the opening end of the
  connection from \<open>i\<close> to \<open>j\<close>, the \<open>k\<close>th of those in the byte stream.
\<close>

datatype cluster_event =
    Local u32 node_event
  | Accept_mesh u32 u32 bool
  | Accept_timer u32
  | Read_accepted u32 u32 nat
  | Read_connected u32 u32 nat

fun is_incoming :: "node_event \<Rightarrow> bool" where
  "is_incoming (Incoming l p) = True"
| "is_incoming ev = False"

definition member_step :: "('b, 'w) env \<Rightarrow> (u32 \<Rightarrow> site) \<Rightarrow> ('w \<Rightarrow> bool \<times> 'w) \<Rightarrow> u32 \<Rightarrow> node_event \<Rightarrow>
    ('b, 'w) cluster \<Rightarrow> ('b, 'w) cluster option" where
  "member_step E Ss fl n ev c =
     map_option (\<lambda>p. c\<lparr>members := (members c)(n := p)\<rparr>) (node_step E (Ss n) fl ev (members c n))"

definition frame_at :: "bytes \<Rightarrow> nat \<Rightarrow> (u32 \<times> bytes) option" where
  "frame_at s k = (if k < length (read_loop s) then Some (read_loop s ! k) else None)"

fun cluster_step :: "('b, 'w) env \<Rightarrow> (u32 \<Rightarrow> site) \<Rightarrow> ('w \<Rightarrow> bool \<times> 'w) \<Rightarrow> cluster_event \<Rightarrow>
    ('b, 'w) cluster \<Rightarrow> ('b, 'w) cluster option" where
  "cluster_step E Ss fl (Local n ev) c = (if is_incoming ev then None else member_step E Ss fl n ev c)"
| "cluster_step E Ss fl (Accept_mesh j i ec) c =
     (if armed (acceptors c j) \<and> (ec \<or> active_peer (proc_mesh (members c i)) j) then
        (let (a, inb) = mesh_on_accept ec i (acceptors c j) (inbound c j)
         in Some (c\<lparr>acceptors := (acceptors c)(j := a), inbound := (inbound c)(j := inb)\<rparr>))
      else None)"
| "cluster_step E Ss fl (Accept_timer j) c = Some (c\<lparr>acceptors := (acceptors c)(j := accept_timer (acceptors c j))\<rparr>)"
| "cluster_step E Ss fl (Read_accepted j i k) c =
     (case (inbound c j i, peers (proc_mesh (members c i)) j) of
        (Some _, Some out) \<Rightarrow>
          (case frame_at (drop 4 (socket_out out)) k of
             Some (lane, payload) \<Rightarrow> member_step E Ss fl j (Incoming lane payload) c
           | None \<Rightarrow> None)
      | _ \<Rightarrow> None)"
| "cluster_step E Ss fl (Read_connected i j k) c =
     (case inbound c j i of
        Some inn \<Rightarrow>
          (case frame_at (socket_out inn) k of
             Some (lane, payload) \<Rightarrow> member_step E Ss fl i (Incoming lane payload) c
           | None \<Rightarrow> None)
      | None \<Rightarrow> None)"

fun cluster_run :: "('b, 'w) env \<Rightarrow> (u32 \<Rightarrow> site) \<Rightarrow> ('w \<Rightarrow> bool \<times> 'w) \<Rightarrow> cluster_event list \<Rightarrow>
    ('b, 'w) cluster \<Rightarrow> ('b, 'w) cluster option" where
  "cluster_run E Ss fl [] c = Some c"
| "cluster_run E Ss fl (ev # evs) c =
     (case cluster_step E Ss fl ev c of None \<Rightarrow> None | Some c' \<Rightarrow> cluster_run E Ss fl evs c')"

definition cluster_start :: "(u32 \<Rightarrow> ('b, 'w) process) \<Rightarrow> ('b, 'w) cluster" where
  "cluster_start ps =
     \<lparr>members = ps, acceptors = (\<lambda>_. mesh_listen \<lparr>armed = False, backing_off = False\<rparr>), inbound = (\<lambda>_ _. None)\<rparr>"

text \<open>What a node does by itself in a run of the cluster.\<close>

fun local_events :: "u32 \<Rightarrow> cluster_event list \<Rightarrow> node_event list" where
  "local_events n [] = []"
| "local_events n (Local m ev # evs) = (if m = n then ev # local_events n evs else local_events n evs)"
| "local_events n (_ # evs) = local_events n evs"

section \<open>Properties\<close>

lemma cluster_step_isolated:
  assumes "cluster_step E Ss fl ev c = Some c'" "inbound c = (\<lambda>_ _. None)"
  shows "inbound c' = (\<lambda>_ _. None) \<and>
    (case ev of
       Local m e \<Rightarrow> \<not> is_incoming e \<and> (\<exists>p. node_step E (Ss m) fl e (members c m) = Some p \<and> members c' = (members c)(m := p))
     | _ \<Rightarrow> members c' = members c)"
  using assms
  by (cases ev) (auto simp: member_step_def mesh_on_accept_def Let_def split: if_splits)

lemma cluster_run_isolated:
  "cluster_run E Ss fl evs c = Some c' \<Longrightarrow> inbound c = (\<lambda>_ _. None) \<Longrightarrow>
   inbound c' = (\<lambda>_ _. None) \<and> list_all (\<lambda>e. \<not> is_incoming e) (local_events n evs) \<and>
   node_run E (Ss n) fl (local_events n evs) (members c n) = Some (members c' n)"
proof (induction evs arbitrary: c)
  case (Cons ev evs)
  then obtain c1 where c1: "cluster_step E Ss fl ev c = Some c1" "cluster_run E Ss fl evs c1 = Some c'"
    by (auto split: option.splits)
  note st = cluster_step_isolated [OF c1(1) Cons.prems(2)]
  from Cons.IH [OF c1(2)] st show ?case by (cases ev) auto
qed simp

text \<open>C17: the nodes of a deployed cluster never hear of each other. In every run of a cluster from its
  start, however many nodes it has and whatever they send, no frame is ever handed to a node: since
  accepted sockets are dropped, each node ends in exactly the state its own events lead to, as if
  it were alone.\<close>

theorem deployed_nodes_isolated:
  assumes "cluster_run E Ss fl evs (cluster_start ps) = Some c"
  shows "list_all (\<lambda>e. \<not> is_incoming e) (local_events n evs) \<and>
    node_run E (Ss n) fl (local_events n evs) (ps n) = Some (members c n)"
  using cluster_run_isolated [OF assms, of n] by (simp add: cluster_start_def)

theorem deployed_nodes_isolated_witness:
  "\<exists>c. cluster_run demo_env (\<lambda>_. demo_site) (\<lambda>w. (True, w))
       [Local 1 (Accepted False), Accept_mesh 2 1 False, Local 2 (Accepted True)]
       (cluster_start (\<lambda>_. start_process (\<lambda>_. True) 0 (load_config demo_api (Some [])) (engine_empty [] 1))) = Some c \<and>
     node_run demo_env demo_site (\<lambda>w. (True, w)) [Accepted True]
       (start_process (\<lambda>_. True) 0 (load_config demo_api (Some [])) (engine_empty [] 1)) = Some (members c 2)"
proof -
  let ?p = "start_process (\<lambda>_. True) 0 (load_config demo_api (Some [])) (engine_empty [] 1) :: (demo_buf, bytes) process"
  let ?evs = "[Local 1 (Accepted False), Accept_mesh 2 1 False, Local 2 (Accepted True)]"
  have ph: "proc_phase ?p = Serving" "active_peer (proc_mesh ?p) 2"
    by (simp_all add: start_process_def start_mesh_peers demo_config demo_peer_def)
  have on: "proc_phase (on_connection ec q) = proc_phase q" "proc_mesh (on_connection ec q) = proc_mesh q"
    for ec and q :: "(demo_buf, bytes) process"
    by (simp_all add: on_connection_def Let_def)
  obtain c where c: "cluster_run demo_env (\<lambda>_. demo_site) (\<lambda>w. (True, w)) ?evs (cluster_start (\<lambda>_. ?p)) = Some c"
    by (simp add: member_step_def node_step_def mesh_on_accept_def cluster_start_def mesh_listen_def do_accept_def ph on Let_def)
  from deployed_nodes_isolated [OF c, of 2] c show ?thesis by auto
qed

end
