(* ===== verification/Concurrency.thy ===== *)
theory Concurrency
  imports Restart
begin

text \<open>
  Concurrent calls of the engine. HTTP and mesh threads run \<^verbatim>\<open>put\<close>, \<^verbatim>\<open>patch_int\<close>, \<^verbatim>\<open>patch_str\<close>, \<^verbatim>\<open>del\<close>,
  \<^verbatim>\<open>apply_mutation\<close> and \<^verbatim>\<open>get_merkle_root_hash\<close> of \<^verbatim>\<open>engine/store.hpp\<close> at the same time, and no lock spans a
  whole call: the clock, the log, a shard and a shard of the Merkle tree have a mutex each. Here
  one step is what a thread does under one lock, and a schedule is a list of steps of threads.
  Shown: a call that runs alone is the operation of the theory \<open>Engine\<close>; the Merkle tree is right
  whenever all threads have returned; and what calls on the same key can do.
\<close>

section \<open>The locked sections\<close>

text \<open>One change of a blob: \<^verbatim>\<open>apply_put\<close>, \<^verbatim>\<open>apply_patch_int\<close>, \<^verbatim>\<open>apply_patch_str\<close>, \<^verbatim>\<open>apply_del\<close>.\<close>

datatype change =
    Change_put bytes bytes
  | Change_int bytes bytes int
  | Change_str bytes bytes bytes
  | Change_del bytes

fun change_key :: "change \<Rightarrow> bytes" where
  "change_key (Change_put key body) = key"
| "change_key (Change_int key field val) = key"
| "change_key (Change_str key field val) = key"
| "change_key (Change_del key) = key"

fun apply_change :: "('b, 'w) env \<Rightarrow> change \<Rightarrow> 'b store \<Rightarrow> bool \<times> 'b store" where
  "apply_change E (Change_put key body) st = (True, apply_put E key body st)"
| "apply_change E (Change_int key field val) st = apply_patch_int E key field val st"
| "apply_change E (Change_str key field val) st = apply_patch_str E key field val st"
| "apply_change E (Change_del key) st = (True, apply_del E key st)"

text \<open>What runs under the lock of the shard: it returns whether it completed, the difference of the
  hashes, and the store. The tree is changed only after the lock was released.\<close>

definition locked_put :: "('b, 'w) env \<Rightarrow> bytes \<Rightarrow> bytes \<Rightarrow> 'b store \<Rightarrow> bool \<times> u64 \<times> 'b store" where
  "locked_put E key body st =
     (let old_h = (case find_blob E key st of Some b \<Rightarrow> hash_blob E (Some b) | None \<Rightarrow> 0);
          b = overwrite E body
      in (True, old_h XOR hash_blob E (Some b), set_blob E key b st))"

definition locked_edit :: "('b, 'w) env \<Rightarrow> bytes \<Rightarrow> ('b \<Rightarrow> bool \<times> 'b) \<Rightarrow> 'b store \<Rightarrow> bool \<times> u64 \<times> 'b store" where
  "locked_edit E key edit st =
     (let b = (case find_blob E key st of Some b \<Rightarrow> b | None \<Rightarrow> buf_object E);
          (ok, b') = edit b
      in (ok, hash_blob E (Some b) XOR hash_blob E (Some b'), set_blob E key b' st))"

fun locked_change :: "('b, 'w) env \<Rightarrow> change \<Rightarrow> 'b store \<Rightarrow> bool \<times> u64 \<times> 'b store" where
  "locked_change E (Change_put key body) st = locked_put E key body st"
| "locked_change E (Change_int key field val) st = locked_edit E key (set_int E field val) st"
| "locked_change E (Change_str key field val) st = locked_edit E key (set_str E field val) st"
| "locked_change E (Change_del key) st = locked_edit E key (\<lambda>_. (True, overwrite E [])) st"

text \<open>What an operation logs and then applies, given its stamp; a mutation has its own.\<close>

fun plan :: "engine_op \<Rightarrow> Timestamp \<Rightarrow> BatchOp list \<times> change list" where
  "plan (Put key body) now =
     ([\<lparr>bop = PUT, bkey = key, bvalue = body\<rparr>,
       \<lparr>bop = PUT, bkey = meta_key key, bvalue = meta_json now False\<rparr>],
      [Change_put key body, Change_put (meta_key key) (meta_json now False)])"
| "plan (Patch_int key field val) now =
     ([\<lparr>bop = PATCH_I64, bkey = key, bvalue = field @ [58] @ to_string val\<rparr>,
       \<lparr>bop = PATCH_STR, bkey = meta_key key, bvalue = field @ [58] @ ts_str now\<rparr>],
      [Change_int key field val, Change_str (meta_key key) field (ts_str now)])"
| "plan (Patch_str key field val) now =
     ([\<lparr>bop = PATCH_STR, bkey = key, bvalue = field @ [58] @ val\<rparr>,
       \<lparr>bop = PATCH_STR, bkey = meta_key key, bvalue = field @ [58] @ ts_str now\<rparr>],
      [Change_str key field val, Change_str (meta_key key) field (ts_str now)])"
| "plan (Del key) now =
     ([\<lparr>bop = DELETE_OP, bkey = key, bvalue = []\<rparr>,
       \<lparr>bop = PUT, bkey = meta_key key, bvalue = meta_json now True\<rparr>],
      [Change_del key, Change_put (meta_key key) (meta_json now True)])"
| "plan (Mutate m) now =
     ([if is_delete m then \<lparr>bop = DELETE_OP, bkey = mut_key m, bvalue = []\<rparr>
       else \<lparr>bop = PUT, bkey = mut_key m, bvalue = mut_value m\<rparr>,
       \<lparr>bop = PUT, bkey = meta_key (mut_key m), bvalue = meta_json (mut_timestamp m) (is_delete m)\<rparr>],
      [if is_delete m then Change_del (mut_key m) else Change_put (mut_key m) (mut_value m),
       Change_put (meta_key (mut_key m)) (meta_json (mut_timestamp m) (is_delete m))])"

section \<open>Threads\<close>

text \<open>
  Where a thread stands: before the clock (or, for a mutation, before reading the local stamp),
  before the log, before a shard, before the tree with the difference it must add, inside
  \<^verbatim>\<open>recompute_dirty\<close> before tree shard \<open>s\<close> (the upper levels come after the last one), and at the end.
\<close>

datatype thread =
    Ready engine_op
  | Logging "BatchOp list" "change list"
  | Applying "change list"
  | Marking bytes u64 "change list"
  | Hashing nat
  | Returned
  | Threw

definition next_change :: "change list \<Rightarrow> thread" where
  "next_change chs = (if chs = [] then Returned else Applying chs)"

text \<open>The part of \<^verbatim>\<open>recompute_dirty\<close> that runs under the mutex of one tree shard.\<close>

definition recompute_shard :: "nat \<Rightarrow> merkle \<Rightarrow> merkle" where
  "recompute_shard s t =
     (let (h, d, pd) = fold (\<lambda>i. rehash (leaves t) (s * 16 + i)) [0..<16] (l3 t, l3_dirty t, l2_dirty t)
      in t\<lparr>l3 := h, l3_dirty := d, l2_dirty := pd\<rparr>)"

definition recompute_upper :: "merkle \<Rightarrow> merkle" where
  "recompute_upper t = recompute_l0 (recompute_l1 (recompute_l2 t))"

fun thread_step :: "('b, 'w) env \<Rightarrow> int list \<Rightarrow> thread \<Rightarrow> ('b, 'w) engine \<Rightarrow> (thread \<times> ('b, 'w) engine) option" where
  "thread_step E rs (Ready (Mutate m)) en =
     (case local_ts E (mut_key m) (db en) of
        None \<Rightarrow> Some (Threw, en)
      | Some ts \<Rightarrow>
          Some (if mut_timestamp m \<le> ts then Returned
                else let (batch, chs) = plan (Mutate m) (mut_timestamp m) in Logging batch chs, en))"
| "thread_step E rs (Ready op) en =
     (case hlc_now (eclock en) rs of
        None \<Rightarrow> None
      | Some (now, c, _) \<Rightarrow> (let (batch, chs) = plan op now in Some (Logging batch chs, en\<lparr>eclock := c\<rparr>)))"
| "thread_step E rs (Logging batch chs) en =
     Some (next_change chs, en\<lparr>wal := wal_append_batch (wal_write E) batch (wal en)\<rparr>)"
| "thread_step E rs (Applying []) en = None"
| "thread_step E rs (Applying (ch # chs)) en =
     (let (ok, d, st) = locked_change E ch (db en)
      in Some (if ok then Marking (change_key ch) d chs else Threw, en\<lparr>db := st\<rparr>))"
| "thread_step E rs (Marking key d chs) en = Some (next_change chs, en\<lparr>db := delta key d (db en)\<rparr>)"
| "thread_step E rs (Hashing s) en =
     (if s < 256 then Some (Hashing (s + 1), en\<lparr>db := (db en)\<lparr>tree := recompute_shard s (tree (db en))\<rparr>\<rparr>)
      else Some (Returned, en\<lparr>db := (db en)\<lparr>tree := recompute_upper (tree (db en))\<rparr>\<rparr>))"
| "thread_step E rs Returned en = None"
| "thread_step E rs Threw en = None"

text \<open>\<^verbatim>\<open>global_mx_\<close>: a second call of \<^verbatim>\<open>get_root_hash\<close> waits for the first.\<close>

definition waits :: "thread list \<Rightarrow> thread \<Rightarrow> bool" where
  "waits ts t \<longleftrightarrow> t = Hashing 0 \<and> list_ex (\<lambda>u. case u of Hashing s \<Rightarrow> 0 < s | _ \<Rightarrow> False) ts"

fun par_step :: "('b, 'w) env \<Rightarrow> nat \<times> int list \<Rightarrow> thread list \<times> ('b, 'w) engine \<Rightarrow>
    (thread list \<times> ('b, 'w) engine) option" where
  "par_step E (i, rs) (ts, en) =
     (if i < length ts \<and> \<not> waits ts (ts ! i) then
        (case thread_step E rs (ts ! i) en of None \<Rightarrow> None | Some (t, en') \<Rightarrow> Some (ts[i := t], en'))
      else None)"

fun par_run :: "('b, 'w) env \<Rightarrow> (nat \<times> int list) list \<Rightarrow> thread list \<times> ('b, 'w) engine \<Rightarrow>
    (thread list \<times> ('b, 'w) engine) option" where
  "par_run E [] c = Some c"
| "par_run E (x # xs) c = (case par_step E x c of None \<Rightarrow> None | Some c' \<Rightarrow> par_run E xs c')"

section \<open>Invariants of all schedules\<close>

lemma par_run_invariant:
  assumes "par_run E xs (ts, en) = Some (ts', en')" "I ts en"
    and "\<And>i rs ts en t en'. (i, rs) \<in> set xs \<Longrightarrow> I ts en \<Longrightarrow> i < length ts \<Longrightarrow>
      thread_step E rs (ts ! i) en = Some (t, en') \<Longrightarrow> I (ts[i := t]) en'"
  shows "I ts' en'"
  using assms
proof (induction xs arbitrary: ts en)
  case (Cons x xs)
  obtain i rs where x: "x = (i, rs)" by fastforce
  then obtain t e where s: "i < length ts" "thread_step E rs (ts ! i) en = Some (t, e)"
    "par_run E xs (ts[i := t], e) = Some (ts', en')"
    using Cons.prems(1) by (auto split: if_splits option.splits)
  have "I (ts[i := t]) e" by (rule Cons.prems(3) [OF _ Cons.prems(2) s(1,2)]) (simp add: x)
  with s(3) show ?case using Cons.prems(3) by (rule Cons.IH) (auto simp: x)
qed simp

lemma par_run_append:
  "par_run E (xs @ ys) c = (case par_run E xs c of None \<Rightarrow> None | Some c' \<Rightarrow> par_run E ys c')"
  by (induction xs arbitrary: c) (auto split: option.splits)

text \<open>A change is its locked section followed by the update of the tree.\<close>

lemma apply_change_locked:
  "locked_change E ch st = (ok, d, st') \<Longrightarrow> apply_change E ch st = (ok, if ok then delta (change_key ch) d st' else st')"
  by (cases ch) (auto simp: locked_put_def locked_edit_def apply_put_def apply_patch_int_def apply_patch_str_def
      apply_del_def apply_edit_def Let_def split: prod.splits)

section \<open>A call that runs alone\<close>

text \<open>The remaining steps of a thread that has its plan, run without interruption.\<close>

lemma solo_changes:
  "\<exists>n. par_run E (replicate n (0, [])) ([next_change chs], en) =
     (let (ok, st) = fold (\<lambda>ch (ok, st). if ok then apply_change E ch st else (False, st)) chs (True, db en)
      in Some ([if ok then Returned else Threw], en\<lparr>db := st\<rparr>))"
proof (induction chs arbitrary: en)
  case Nil
  show ?case by (intro exI [of _ 0]) (simp add: next_change_def)
next
  case (Cons ch chs)
  obtain ok d st where l: "locked_change E ch (db en) = (ok, d, st)" by (metis prod_cases3)
  have stop: "fold (\<lambda>ch (ok, st). if ok then apply_change E ch st else (False, st)) xs (False, s) = (False, s)" for xs s
    by (induction xs) simp_all
  show ?case
  proof (cases ok)
    case True
    let ?en = "en\<lparr>db := delta (change_key ch) d st\<rparr>"
    obtain n where n: "par_run E (replicate n (0, [])) ([next_change chs], ?en) =
      (let (ok, st) = fold (\<lambda>ch (ok, st). if ok then apply_change E ch st else (False, st)) chs (True, db ?en)
      in Some ([if ok then Returned else Threw], ?en\<lparr>db := st\<rparr>))" using Cons.IH by blast
    have "par_run E (replicate (Suc (Suc n)) (0, [])) ([next_change (ch # chs)], en) =
        par_run E (replicate n (0, [])) ([next_change chs], ?en)"
      using l True by (simp add: next_change_def waits_def)
    then show ?thesis
      using n apply_change_locked [OF l] True by (intro exI [of _ "Suc (Suc n)"]) simp
  next
    case False
    have "par_run E (replicate 1 (0, [])) ([next_change (ch # chs)], en) = Some ([Threw], en\<lparr>db := st\<rparr>)"
      using l False by (simp add: next_change_def waits_def)
    then show ?thesis
      using apply_change_locked [OF l] False by (intro exI [of _ 1]) (simp add: stop)
  qed
qed

abbreviation changed :: "('b, 'w) env \<Rightarrow> change list \<Rightarrow> 'b store \<Rightarrow> bool \<times> 'b store" where
  "changed E chs st \<equiv> fold (\<lambda>ch (ok, st). if ok then apply_change E ch st else (False, st)) chs (True, st)"

lemma run_op_plan:
  assumes "run_op E op en rs = Some (ok, en', rs')"
  obtains "thread_step E rs (Ready op) en = Some (if ok then Returned else Threw, en')"
  | now e st where "thread_step E rs (Ready op) en = Some (Logging (fst (plan op now)) (snd (plan op now)), e)"
      "changed E (snd (plan op now)) (db e) = (ok, st)"
      "en' = e\<lparr>wal := wal_append_batch (wal_write E) (fst (plan op now)) (wal e), db := st\<rparr>"
proof (cases op)
  case (Put k b)
  then show ?thesis using assms that(2)
    by (auto simp: put_def Let_def split: option.splits)
next
  case (Patch_int k f v)
  then obtain now c where now: "hlc_now (eclock en) rs = Some (now, c, rs')"
    using assms by (auto simp: patch_int_def Let_def split: option.splits prod.splits)
  show ?thesis
    by (rule that(2) [of now "en\<lparr>eclock := c\<rparr>" "db en'"])
      (use assms Patch_int now in \<open>auto simp: patch_int_def Let_def split: prod.splits\<close>)
next
  case (Patch_str k f v)
  then obtain now c where now: "hlc_now (eclock en) rs = Some (now, c, rs')"
    using assms by (auto simp: patch_str_def Let_def split: option.splits prod.splits)
  show ?thesis
    by (rule that(2) [of now "en\<lparr>eclock := c\<rparr>" "db en'"])
      (use assms Patch_str now in \<open>auto simp: patch_str_def Let_def split: prod.splits\<close>)
next
  case (Del k)
  then show ?thesis using assms that(2)
    by (auto simp: del_def Let_def split: option.splits)
next
  case (Mutate m)
  then show ?thesis using assms that
    by (auto simp: apply_mutation_def Let_def split: option.splits if_splits)
qed

text \<open>The first two stamps of a fresh engine at times 5 and 6.\<close>

lemma demo_stamps:
  "hlc_now (eclock (engine_empty [] 1)) [5] = Some (Timestamp 5 0 1, (hlc_init 1)\<lparr>max_wall_time := 5\<rparr>, [])"
  "hlc_now ((hlc_init 1)\<lparr>max_wall_time := 5\<rparr>) [6] = Some (Timestamp 6 0 1, (hlc_init 1)\<lparr>max_wall_time := 6\<rparr>, [])"
  by (simp_all add: hlc_now_def hlc_init_def hlc_stamp_def engine_empty_def Let_def)



section \<open>The Merkle tree under every schedule\<close>

text \<open>Rehashing any nodes of a level keeps the level and the one above in order.\<close>

lemma rehash_ok:
  assumes "level_ok ch h d" "level_ok h g pd" "i < length h" "rehash ch i (h, d, pd) = (h', d', pd')"
  shows "level_ok ch h' d' \<and> level_ok h' g pd' \<and> length h' = length h"
proof (cases "d ! i")
  case True
  then have e: "h' = h[i := block_hash ch i]" "d' = d[i := False]" "pd' = pd[i div 16 := True]"
    using assms(4) by (auto simp: rehash_def)
  have "block_hash h j = block_hash h' j" if "j \<noteq> i div 16" for j
    by (rule block_hash_cong) (use that in \<open>auto simp: e\<close>)
  then show ?thesis
    using assms(1-3) unfolding e level_ok_def length_list_update
    by (metis nth_list_update_eq nth_list_update_neq)
qed (use assms in \<open>auto simp: rehash_def\<close>)

lemma fold_rehash_ok:
  assumes "level_ok ch h d" "level_ok h g pd" "\<forall>i \<in> set js. i < length h"
    "fold (rehash ch) js (h, d, pd) = (h', d', pd')"
  shows "level_ok ch h' d' \<and> level_ok h' g pd' \<and> length h' = length h"
  using assms
proof (induction js arbitrary: h d pd)
  case (Cons j js)
  obtain h1 d1 pd1 where r: "rehash ch j (h, d, pd) = (h1, d1, pd1)" by (metis prod_cases3)
  from rehash_ok [OF Cons.prems(1,2) _ r] Cons.prems(3)
  have "level_ok ch h1 d1 \<and> level_ok h1 g pd1 \<and> length h1 = length h" by simp
  with Cons.IH [of h1 d1 pd1] Cons.prems(3,4) r show ?case by simp
qed simp

lemma recompute_shard_inv:
  assumes "merkle_inv t" "s < 256"
  shows "merkle_inv (recompute_shard s t) \<and> leaves (recompute_shard s t) = leaves t"
proof -
  obtain h d pd where f: "fold (rehash (leaves t)) (map (\<lambda>i. s * 16 + i) [0..<16]) (l3 t, l3_dirty t, l2_dirty t) = (h, d, pd)"
    by (metis prod_cases3)
  have "\<forall>i \<in> set (map (\<lambda>i. s * 16 + i) [0..<16]). i < length (l3 t)"
    using assms by (auto simp: merkle_inv_def)
  from fold_rehash_ok [OF _ _ this f, of "l2 t"] assms(1) f show ?thesis
    by (simp add: recompute_shard_def merkle_inv_def fold_map comp_def)
qed

lemma recompute_l2_inv: "merkle_inv t \<Longrightarrow> merkle_inv (recompute_l2 t) \<and> leaves (recompute_l2 t) = leaves t"
  using fold_rehash_ok [of "l3 t" "l2 t" "l2_dirty t" "l1 t" "l1_dirty t" "[0..<256]"]
  by (auto simp: recompute_l2_def merkle_inv_def split: prod.splits)

lemma recompute_l1_inv: "merkle_inv t \<Longrightarrow> merkle_inv (recompute_l1 t) \<and> leaves (recompute_l1 t) = leaves t"
  using fold_rehash_ok [of "l2 t" "l1 t" "l1_dirty t" "l0 t" "l0_dirty t" "[0..<16]"]
  by (auto simp: recompute_l1_def merkle_inv_def split: prod.splits)

lemma recompute_l0_inv: "merkle_inv t \<Longrightarrow> merkle_inv (recompute_l0 t) \<and> leaves (recompute_l0 t) = leaves t"
  by (auto simp: recompute_l0_def merkle_inv_def level_ok_def nth_list_update)

lemma recompute_upper_inv: "merkle_inv t \<Longrightarrow> merkle_inv (recompute_upper t) \<and> leaves (recompute_upper t) = leaves t"
  using recompute_l2_inv [of t] recompute_l1_inv [of "recompute_l2 t"] recompute_l0_inv [of "recompute_l1 (recompute_l2 t)"]
  by (simp add: recompute_upper_def)

text \<open>A call of \<^verbatim>\<open>get_root_hash\<close> that runs alone is \<open>recompute_dirty\<close>.\<close>

lemma recompute_shards: "recompute_l3 t = fold recompute_shard [0..<256] t"
proof -
  have "fold recompute_shard xs t =
     (let (h, d, pd) = fold (\<lambda>s. fold (\<lambda>i. rehash (leaves t) (s * 16 + i)) [0..<16]) xs (l3 t, l3_dirty t, l2_dirty t)
      in t\<lparr>l3 := h, l3_dirty := d, l2_dirty := pd\<rparr>)" for xs
    by (induction xs arbitrary: t) (auto simp: recompute_shard_def Let_def split: prod.splits)
  then show ?thesis by (simp only: recompute_l3_def)
qed

text \<open>A locked section moves the drift of its bucket by the difference that it still has to mark.\<close>

fun edits :: "change \<Rightarrow> bool" where
  "edits (Change_put key body) = False"
| "edits ch = True"

lemma locked_change_store:
  assumes "store_inv E st" "locked_change E ch st = (ok, d, st')"
  shows "store_inv E st'" "\<exists>b. st' = set_blob E (change_key ch) b st"
    "b < 65536 \<Longrightarrow> edits ch \<Longrightarrow> find_blob E (change_key ch) st \<noteq> None \<Longrightarrow>
       drift E b st' = drift E b st XOR (if bucket_idx (change_key ch) = b then d else 0)"
    "b < 65536 \<Longrightarrow> \<not> edits ch \<Longrightarrow>
       drift E b st' = drift E b st XOR (if bucket_idx (change_key ch) = b then d else 0)"
  using assms
  by (cases ch; auto simp: locked_put_def locked_edit_def Let_def blobs.inv_upd drift_set_blob hash_blob_def
      split: prod.splits option.splits; fail)+

text \<open>The changes a thread may still make, and the invariant: the leaf of a bucket is off its digest by
  exactly the differences that threads have yet to mark.\<close>

fun thread_changes :: "thread \<Rightarrow> change set" where
  "thread_changes (Ready op) = (\<Union>now. set (snd (plan op now)))"
| "thread_changes (Logging batch chs) = set chs"
| "thread_changes (Applying chs) = set chs"
| "thread_changes (Marking key d chs) = set chs"
| "thread_changes t = {}"

fun unmarked :: "nat \<Rightarrow> thread \<Rightarrow> u64" where
  "unmarked b (Marking key d chs) = (if bucket_idx key = b then d else 0)"
| "unmarked b t = 0"

definition present :: "('b, 'w) env \<Rightarrow> 'b store \<Rightarrow> thread \<Rightarrow> bool" where
  "present E st t \<longleftrightarrow> (\<forall>ch \<in> thread_changes t. edits ch \<longrightarrow> find_blob E (change_key ch) st \<noteq> None)"

definition tree_inv :: "('b, 'w) env \<Rightarrow> thread list \<Rightarrow> ('b, 'w) engine \<Rightarrow> bool" where
  "tree_inv E ts en \<longleftrightarrow> store_inv E (db en) \<and> (\<forall>t \<in> set ts. present E (db en) t) \<and>
     (Threw \<notin> set ts \<longrightarrow> (\<forall>b < 65536. drift E b (db en) = xor_sum (map (unmarked b) ts)))"

lemma next_change_simps [simp]:
  "thread_changes (next_change chs) = set chs" "unmarked b (next_change chs) = 0" "next_change chs \<noteq> Threw"
  by (simp_all add: next_change_def)

text \<open>One step, seen from the store: nothing, one locked section, one mark, or one part of a rehash.\<close>

lemma thread_step_cases:
  assumes "thread_step E rs t en = Some (t', en')"
  obtains "db en' = db en" "thread_changes t' \<subseteq> thread_changes t" "\<And>b. unmarked b t = 0" "\<And>b. unmarked b t' = 0"
  | ch chs ok d st where "t = Applying (ch # chs)" "locked_change E ch (db en) = (ok, d, st)"
      "en' = en\<lparr>db := st\<rparr>" "t' = (if ok then Marking (change_key ch) d chs else Threw)"
  | key d chs where "t = Marking key d chs" "t' = next_change chs" "en' = en\<lparr>db := delta key d (db en)\<rparr>"
  | f where "db en' = (db en)\<lparr>tree := f (tree (db en))\<rparr>" "\<And>m. merkle_inv m \<Longrightarrow> merkle_inv (f m) \<and> leaves (f m) = leaves m"
      "thread_changes t' = {}" "\<And>b. unmarked b t = 0" "\<And>b. unmarked b t' = 0"
proof (cases t)
  case (Ready op)
  have "db en' = db en" "thread_changes t' \<subseteq> thread_changes t" "unmarked b t = 0" "unmarked b t' = 0" for b
    using assms Ready by (cases op; auto split: option.splits if_splits prod.splits)+
  then show ?thesis by (rule that(1))
next
  case (Logging batch chs)
  then show ?thesis using assms by (intro that(1)) auto
next
  case (Applying chs)
  then show ?thesis using assms that(2) by (cases chs) (auto split: prod.splits)
next
  case (Marking key d chs)
  then show ?thesis using assms by (intro that(3)) auto
next
  case (Hashing s)
  show ?thesis
    by (rule that(4) [of "if s < 256 then recompute_shard s else recompute_upper"])
      (use assms Hashing in \<open>auto simp: recompute_shard_inv recompute_upper_inv split: if_splits\<close>)
qed (use assms in auto)

lemma present_mono:
  "present E st t \<Longrightarrow> thread_changes t' \<subseteq> thread_changes t \<Longrightarrow>
   (\<And>k. find_blob E k st \<noteq> None \<Longrightarrow> find_blob E k st' \<noteq> None) \<Longrightarrow> present E st' t'"
  unfolding present_def by blast

lemma thread_step_store:
  assumes "thread_step E rs t en = Some (t', en')" "store_inv E (db en)" "present E (db en) t"
  shows "store_inv E (db en') \<and> thread_changes t' \<subseteq> thread_changes t \<and>
    (\<forall>k. find_blob E k (db en) \<noteq> None \<longrightarrow> find_blob E k (db en') \<noteq> None) \<and>
    (t' \<noteq> Threw \<longrightarrow> (\<forall>b < 65536. drift E b (db en') = drift E b (db en) XOR (unmarked b t XOR unmarked b t')))"
  using assms(1)
proof (cases rule: thread_step_cases)
  case (2 ch chs ok d st)
  note l = locked_change_store [OF assms(2) 2(2)]
  have "edits ch \<longrightarrow> find_blob E (change_key ch) (db en) \<noteq> None" using assms(3) 2(1) by (simp add: present_def)
  with l(3,4) have "drift E b st = drift E b (db en) XOR (if bucket_idx (change_key ch) = b then d else 0)"
    if "b < 65536" for b using that by blast
  moreover obtain x where "st = set_blob E (change_key ch) x (db en)" using l(2) by blast
  ultimately show ?thesis using 2 l(1) assms(2) by (auto simp: blobs.find_upd)
next
  case (3 key d chs)
  then show ?thesis using assms(2) by (auto simp: store_inv_delta drift_delta)
next
  case (4 f)
  then show ?thesis using assms(2)
    by (auto simp: store_inv_def find_blob_def drift_def bucket_digest_def get_bucket_keys_def)
qed (use assms(2) in auto)

lemma tree_inv_step:
  assumes "tree_inv E ts en" "i < length ts" "thread_step E rs (ts ! i) en = Some (t, en')"
  shows "tree_inv E (ts[i := t]) en'"
proof -
  have p: "present E (db en) (ts ! i)" "store_inv E (db en)" "\<forall>u \<in> set ts. present E (db en) u"
    using assms(1,2) by (auto simp: tree_inv_def)
  note s = thread_step_store [OF assms(3) p(2,1)]
  have "present E (db en') u" if "u \<in> set (ts[i := t])" for u
  proof -
    have "u = t \<or> u \<in> set ts" using set_update_subset_insert that by fastforce
    then show ?thesis using s p present_mono [of E "db en" u u "db en'"] present_mono [of E "db en" "ts ! i" t "db en'"] by auto
  qed
  moreover have "drift E b (db en') = xor_sum (map (unmarked b) (ts[i := t]))"
    if b: "b < 65536" and n: "Threw \<notin> set (ts[i := t])" for b
  proof -
    have t: "t \<noteq> Threw" using n assms(2) by (metis set_update_memI)
    have "ts ! i \<noteq> Threw" using assms(3) by auto
    with n have "Threw \<notin> set ts" by (metis in_set_conv_nth length_list_update nth_list_update_neq)
    with assms(1) b have "drift E b (db en) = xor_sum (map (unmarked b) ts)" by (simp add: tree_inv_def)
    then show ?thesis
      using s t b assms(2) by (simp add: map_update xor_sum_list_update)
  qed
  ultimately show ?thesis using s by (simp add: tree_inv_def)
qed

text \<open>A call before its first step.\<close>

definition is_call :: "thread \<Rightarrow> bool" where
  "is_call t \<longleftrightarrow> t = Hashing 0 \<or> (\<exists>op. t = Ready op)"

lemma tree_inv_calls:
  assumes "store_inv E (db en)" "\<forall>b < 65536. drift E b (db en) = 0" "\<forall>t \<in> set ts. is_call t \<and> present E (db en) t"
  shows "tree_inv E ts en"
proof -
  have "xor_sum (map (unmarked b) xs) = 0" if "\<forall>t \<in> set xs. is_call t" for b xs
    using that by (induction xs) (auto simp: is_call_def)
  with assms show ?thesis by (auto simp: tree_inv_def)
qed

text \<open>C7: the Merkle tree under concurrency. Let any number of threads write (deletions and patches of
  keys that exist) and ask for root hashes, in any interleaving of their locked sections. When all
  have returned, every leaf is the exclusive or of the hashes in its bucket and the next root hash
  is that of the tree computed from scratch, although a shard's lock is released before the tree
  is told and rehashing runs between the updates.\<close>

theorem tree_right_when_quiet:
  assumes "store_inv E (db en)" and "\<forall>b < 65536. drift E b (db en) = 0"
    and "\<forall>t \<in> set ts. is_call t \<and> present E (db en) t"
    and "par_run E xs (ts, en) = Some (ts', en')" and "set ts' \<subseteq> {Returned}"
  shows "leaves (tree (db en')) = map (\<lambda>b. bucket_digest E b (db en')) [0..<65536] \<and>
    fst (get_merkle_root_hash en') = ref_root (map (\<lambda>b. bucket_digest E b (db en')) [0..<65536])"
proof -
  have inv: "tree_inv E ts' en'"
    by (rule par_run_invariant [OF assms(4), of "tree_inv E"]) (use tree_inv_calls [OF assms(1-3)] tree_inv_step in auto)
  have "xor_sum (map (unmarked b) zs) = 0" if "set zs \<subseteq> {Returned}" for b zs
    using that by (induction zs) auto
  with inv assms(5) have "drift E b (db en') = 0" if "b < 65536" for b
    using that by (auto simp: tree_inv_def)
  then have "leaves (tree (db en')) ! b = bucket_digest E b (db en')" if "b < 65536" for b
    using that leaf_drift [of "db en'" b E] by simp
  moreover have s: "store_inv E (db en')" using inv by (simp add: tree_inv_def)
  then have "length (leaves (tree (db en'))) = 65536" by (simp add: store_inv_def leaves_length)
  ultimately have "leaves (tree (db en')) = map (\<lambda>b. bucket_digest E b (db en')) [0..<65536]"
    by (intro nth_equalityI) simp_all
  with root_hash_engine [OF s] show ?thesis by simp
qed

section \<open>Two writes of one key\<close>

text \<open>Both take their stamps and log in one order, and reach the shard in the other.\<close>

definition crossed :: "int list \<Rightarrow> int list \<Rightarrow> (nat \<times> int list) list" where
  "crossed rs rs' = [(0, rs), (1, rs'), (0, []), (1, [])] @ replicate 4 (1, []) @ replicate 4 (0, [])"

lemma locked_change_put: "locked_change E (Change_put k v) st = (True, fst (snd (locked_put E k v st)), snd (snd (locked_put E k v st)))"
  by (simp add: locked_put_def Let_def)

lemma crossed_puts:
  assumes "hlc_now (eclock en) rs = Some (now, c, r)" "hlc_now c rs' = Some (now', c', r')"
  shows "par_run E (crossed rs rs') ([Ready (Put K a), Ready (Put K' b)], en) = Some ([Returned, Returned],
    \<lparr>db = apply_put E (meta_key K) (meta_json now False) (apply_put E K a
        (apply_put E (meta_key K') (meta_json now' False) (apply_put E K' b (db en)))),
     wal = wal_append_batch (wal_write E) (fst (plan (Put K' b) now')) (wal_append_batch (wal_write E) (fst (plan (Put K a) now)) (wal en)),
     eclock = c'\<rparr>)"
  using assms
  by (simp add: crossed_def numeral_eq_Suc waits_def next_change_def locked_put_def apply_put_def Let_def)

lemma crossed_mutations:
  assumes "local_ts E (mut_key m) (db en) = Some t" "mut_key m' = mut_key m" "t < mut_timestamp m" "t < mut_timestamp m'"
  shows "par_run E (crossed [] []) ([Ready (Mutate m), Ready (Mutate m')], en) = Some ([Returned, Returned],
    en\<lparr>wal := wal_append_batch (wal_write E) (fst (plan (Mutate m') (mut_timestamp m')))
        (wal_append_batch (wal_write E) (fst (plan (Mutate m) (mut_timestamp m))) (wal en)),
      db := fold (\<lambda>ch st. snd (apply_change E ch st))
        (snd (plan (Mutate m') (mut_timestamp m')) @ snd (plan (Mutate m) (mut_timestamp m))) (db en)\<rparr>)"
  using assms
  by (cases "is_delete m"; cases "is_delete m'")
    (simp_all add: crossed_def numeral_eq_Suc waits_def next_change_def locked_put_def locked_edit_def apply_put_def
      apply_del_def apply_edit_def Let_def flip: not_less)

text \<open>C36: two puts of one key can be logged in one order and stored in the other, because no lock spans the
  append to the log and the change of the shard. Both calls return; the node serves the first
  document, with the first stamp, and after a restart from its log the second.\<close>

theorem crossed_puts_unlike_log:
  assumes "wal_appends E log_of" and "replayed E log_of en bs" and "loggable (Put K a)" and "loggable (Put K b)"
    and "clock_range (eclock en) (rs @ rs')"
    and "hlc_now (eclock en) rs = Some (now, c, [])" and "hlc_now c rs' = Some (now', c', [])"
    and "length (log_bytes (bs @ [fst (plan (Put K a) now), fst (plan (Put K b) now')])) < 2 ^ 64"
  shows "\<exists>en' f en2. par_run E (crossed rs rs') ([Ready (Put K a), Ready (Put K b)], en) = Some ([Returned, Returned], en') \<and>
    f = log_of (wal en') \<and> engine_new E storage_read (length f) (f, 0) w node = Some en2 \<and>
    get E K (db en') = overwrite E a \<and> get E K (db en2) = overwrite E b"
proof -
  have st: "store_inv E (db en)" using assms(2) store_inv_replays [OF store_inv_init] by (simp add: replayed_def)
  have "clock_range (eclock en) rs" using assms(5) by (auto simp: clock_range_def)
  with clock_range_now [OF assms(6)] have "clock_range c []" "int64_range (wall_time now)" by blast+
  moreover from this(1) have "clock_range c rs'" using assms(5) by (auto simp: clock_range_def)
  with clock_range_now [OF assms(7)] have "int64_range (wall_time now')" by blast
  ultimately have fits: "fits_batch (fst (plan (Put K a) now))" "fits_batch (fst (plan (Put K b) now'))"
    using assms(3,4) length_meta_json [of now False] length_meta_json [of now' False] by (auto simp: short_def intro!: fits_two)
  let ?bs = "bs @ [fst (plan (Put K a) now), fst (plan (Put K b) now')]"
  obtain en' where en': "par_run E (crossed rs rs') ([Ready (Put K a), Ready (Put K b)], en) = Some ([Returned, Returned], en')"
    "find_blob E K (db en') = Some (overwrite E a)" "log_of (wal en') = log_bytes ?bs"
    using crossed_puts [OF assms(6,7), of E K a K b] st assms(1,2)
    by (simp add: find_put store_inv_put replayed_def wal_appends_def wal_append_batch_def wal_append_def log_bytes_def
        batch_record_def)
  have "engine_new E storage_read (length (log_bytes ?bs)) (log_bytes ?bs, 0) w node =
      Some \<lparr>db = fold (replay E) (log_calls ?bs) store_init, wal = w, eclock = hlc_init node\<rparr>"
    using engine_new_cut [where n = "length (log_bytes ?bs)", OF _ assms(8)] assms(2) fits by (simp add: replayed_def complete_log)
  moreover have "find_blob E K (fold (replay E) (log_calls ?bs) store_init) = Some (overwrite E b)"
    using assms(2) st by (simp add: log_calls_def replayed_def replay_put find_put store_inv_put)
  ultimately show ?thesis using en' by (auto simp: get_def)
qed

theorem crossed_puts_unlike_log_witness:
  "\<exists>en' f en2. par_run demo_env (crossed [5] [6]) ([Ready (Put [97] [49]), Ready (Put [97] [50])], engine_empty [] 1) =
     Some ([Returned, Returned], en') \<and> f = wal en' \<and> engine_new demo_env storage_read (length f) (f, 0) [] 1 = Some en2 \<and>
     get demo_env [97] (db en') = overwrite demo_env [49] \<and> get demo_env [97] (db en2) = overwrite demo_env [50]"
proof -
  have l: "length (log_bytes ([] @ [fst (plan (Put [97] [49]) (Timestamp 5 0 1)), fst (plan (Put [97] [50]) (Timestamp 6 0 1))])) < 2 ^ 64"
    using length_meta_json [of "Timestamp 5 0 1" False] length_meta_json [of "Timestamp 6 0 1" False]
    by (simp add: log_bytes_def batch_record_def batch_bytes_def batch_op_bytes_def)
  have r: "clock_range (eclock (engine_empty [] 1)) ([5] @ [6])" "replayed demo_env (\<lambda>w. w) (engine_empty [] 1) []"
    "loggable (Put [97] [49])" "loggable (Put [97] [50])"
    by (simp_all add: clock_range_def engine_empty_def hlc_init_def replayed_empty short_def replayed_def log_bytes_def log_calls_def)
  show ?thesis by (rule crossed_puts_unlike_log [OF demo_appends r(2-4,1) demo_stamps l])
qed

text \<open>C37: last writer wins is lost when two mutations of one key arrive on two threads: both pass the
  comparison with the stored stamp before either is applied, and the older one can be applied
  last. The node then keeps the older document and stamp, while either order of the two
  calls alone keeps the newer.\<close>

theorem racing_mutations_keep_older:
  assumes "reg_inv E K en" and "mut_good E K m" and "mut_good E K m'" and "mut_key m = K" and "mut_key m' = K"
    and "reg_stamp E K en < mut_timestamp m" and "mut_timestamp m < mut_timestamp m'"
  shows "\<exists>en'. par_run E (crossed [] []) ([Ready (Mutate m), Ready (Mutate m')], en) = Some ([Returned, Returned], en') \<and>
    get E K (db en') = mut_buf E m \<and> reg_stamp E K en' = mut_timestamp m \<and>
    get E K (db (fold (\<lambda>x e. snd (apply_mutation E x e)) [m, m'] en)) = mut_buf E m' \<and>
    get E K (db (fold (\<lambda>x e. snd (apply_mutation E x e)) [m', m] en)) = mut_buf E m'"
proof -
  obtain t where t: "local_ts E (mut_key m) (db en) = Some t" "t < mut_timestamp m" "t < mut_timestamp m'"
    using assms by (auto simp: reg_inv_def reg_stamp_def)
  have st: "store_inv E (db en)" using assms(1) by (simp add: reg_inv_def)
  obtain en' where en': "par_run E (crossed [] []) ([Ready (Mutate m), Ready (Mutate m')], en) = Some ([Returned, Returned], en')"
    "db en' = fold (\<lambda>ch st. snd (apply_change E ch st))
      (snd (plan (Mutate m') (mut_timestamp m')) @ snd (plan (Mutate m) (mut_timestamp m))) (db en)"
    using crossed_mutations [OF t(1) _ t(2,3)] assms(4,5) by fastforce
  have "find_blob E K (db en') = Some (mut_buf E m)"
    "find_blob E (meta_key K) (db en') = Some (overwrite E (meta_json (mut_timestamp m) (is_delete m)))"
    using st assms(4,5) by (simp_all add: en'(2) find_put find_del store_inv_put store_inv_del mut_buf_def)
  moreover from this(2) have "local_ts E K (db en') = Some (mut_timestamp m)"
    using assms(2) by (intro local_ts_meta) (auto simp: mut_good_def)
  moreover have "find_blob E K (db (fold (\<lambda>x e. snd (apply_mutation E x e)) [m, m'] en)) = Some (mut_buf E m')"
    "find_blob E K (db (fold (\<lambda>x e. snd (apply_mutation E x e)) [m', m] en)) = Some (mut_buf E m')"
    using reg.app_newer [OF assms(1,2,4,6)] reg.app_newer [OF assms(1,3,5)] assms
      reg.app_newer [OF reg.inv_app [OF assms(1,2)] assms(3,5)] reg.app_stale [OF reg.inv_app [OF assms(1,3)] assms(2,4)]
    by auto
  ultimately show ?thesis using en'(1) by (intro exI [of _ en']) (simp add: get_def reg_stamp_def)
qed

theorem racing_mutations_keep_older_witness:
  "\<exists>en'. par_run demo_env (crossed [] []) ([Ready (Mutate (mut_demo 5 [49])), Ready (Mutate (mut_demo 6 [50]))], engine_empty [] 1) =
     Some ([Returned, Returned], en') \<and> get demo_env [97] (db en') = mut_buf demo_env (mut_demo 5 [49])"
proof -
  have g: "mut_good demo_env [97] (mut_demo 5 [49])" "mut_good demo_env [97] (mut_demo 6 [50])" by code_simp+
  have k: "mut_key (mut_demo 5 [49]) = [97]" "mut_key (mut_demo 6 [50]) = [97]"
    "mut_timestamp (mut_demo 5 [49]) < mut_timestamp (mut_demo 6 [50])" by code_simp+
  have "reg_stamp demo_env [97] (engine_empty [] 1) < mut_timestamp (mut_demo 5 [49])"
    by (simp add: reg_stamp_def demo_local_ts_empty mut_demo_def timestamp_order)
  from racing_mutations_keep_older [OF demo_reg_inv g k(1,2) this k(3)] show ?thesis by blast
qed

theorem tree_right_when_quiet_witness:
  "\<exists>en'. par_run demo_env (crossed [5] [6]) ([Ready (Put [97] [49]), Ready (Put [97] [50])], engine_empty [] 1) =
     Some ([Returned, Returned], en') \<and>
     fst (get_merkle_root_hash en') = ref_root (map (\<lambda>b. bucket_digest demo_env b (db en')) [0..<65536])"
proof -
  have a: "store_inv demo_env (db (engine_empty [] 1))" by (simp add: engine_empty_def store_inv_init)
  have b: "\<forall>b < 65536. drift demo_env b (db (engine_empty [] 1)) = 0"
    by (simp add: engine_empty_def drift_def store_init_def merkle_init_def Let_def bucket_digest_def get_bucket_keys_def)
  have c: "\<forall>t \<in> set [Ready (Put [97] [49]), Ready (Put [97] [50])]. is_call t \<and> present demo_env (db (engine_empty [] 1)) t"
    by (simp add: is_call_def present_def)
  obtain en' where r: "par_run demo_env (crossed [5] [6]) ([Ready (Put [97] [49]), Ready (Put [97] [50])], engine_empty [] 1) =
      Some ([Returned, Returned], en')" using crossed_puts [OF demo_stamps] by blast
  have "set [Returned, Returned] \<subseteq> {Returned}" by simp
  from tree_right_when_quiet [OF a b c r this] r show ?thesis by blast
qed

end
