(* ===== verification/Disjoint_Writes.thy ===== *)
theory Disjoint_Writes
  imports Concurrency
begin

text \<open>
  Concurrent calls of the engine on different keys, over the locked sections of the theory
  \<open>Concurrency\<close>. Two results hold for every schedule: the log replays to the store, and the
  documents are those of the same calls run one after another.
\<close>

section \<open>Writes of different keys and the log\<close>

text \<open>The blob a change leaves under its key.\<close>

fun change_blob :: "('b, 'w) env \<Rightarrow> change \<Rightarrow> 'b option \<Rightarrow> 'b" where
  "change_blob E (Change_put key body) o1 = overwrite E body"
| "change_blob E (Change_int key field val) o1 = snd (set_int E field val (case o1 of Some b \<Rightarrow> b | None \<Rightarrow> buf_object E))"
| "change_blob E (Change_str key field val) o1 = snd (set_str E field val (case o1 of Some b \<Rightarrow> b | None \<Rightarrow> buf_object E))"
| "change_blob E (Change_del key) o1 = overwrite E []"

definition effect :: "('b, 'w) env \<Rightarrow> bytes \<Rightarrow> change list \<Rightarrow> 'b option \<Rightarrow> 'b option" where
  "effect E k chs = fold (\<lambda>ch o1. if change_key ch = k then Some (change_blob E ch o1) else o1) chs"

lemma effect_simps [simp]:
  "effect E k [] o1 = o1" "effect E k (chs @ chs') o1 = effect E k chs' (effect E k chs o1)"
  "effect E k (ch # chs) o1 = effect E k chs (if change_key ch = k then Some (change_blob E ch o1) else o1)"
  by (simp_all add: effect_def)

lemma effect_other: "k \<notin> change_key ` set chs \<Longrightarrow> effect E k chs o1 = o1"
  by (induction chs) auto

lemma find_change:
  "store_inv E st \<Longrightarrow> find_blob E k (snd (apply_change E ch st)) = effect E k [ch] (find_blob E k st)"
  by (cases ch) (auto simp: find_put find_del apply_patch_int_def apply_patch_str_def find_edit edit_base_def split: option.splits)

lemma find_locked:
  assumes "store_inv E st" "locked_change E ch st = (ok, d, st')"
  shows "find_blob E k st' = effect E k [ch] (find_blob E k st)"
  using find_change [OF assms(1), of k ch] apply_change_locked [OF assms(2)] by (auto split: if_splits)

lemma store_inv_change: "store_inv E st \<Longrightarrow> store_inv E (snd (apply_change E ch st))"
  by (cases ch) (auto simp: store_inv_put store_inv_del apply_patch_int_def apply_patch_str_def store_inv_edit)

lemma find_changes:
  "store_inv E st \<Longrightarrow> find_blob E k (fold (\<lambda>ch st. snd (apply_change E ch st)) chs st) = effect E k chs (find_blob E k st)"
  by (induction chs arbitrary: st) (simp_all add: store_inv_change find_change)

text \<open>The log of a plan replays to its changes, and fits the format.\<close>

definition faithful :: "('b, 'w) env \<Rightarrow> BatchOp list \<times> change list \<Rightarrow> bool" where
  "faithful E p \<longleftrightarrow> fits_batch (fst p) \<and>
     (\<forall>st. fold (replay E) (map op_call (fst p)) st = fold (\<lambda>ch st. snd (apply_change E ch st)) (snd p) st)"

lemma plan_faithful:
  assumes "loggable op" "int64_range (wall_time now)"
  shows "faithful E (plan op now)"
proof (cases op)
  case (Put k b)
  then show ?thesis using assms length_meta_json [of now False]
    by (auto simp: faithful_def replay_put short_def intro!: fits_two)
next
  case (Patch_int k f v)
  then have v: "- (2 ^ 63) \<le> v" "v < 2 ^ 63" and f: "58 \<notin> set f" using assms(1) by simp_all
  from Patch_int show ?thesis
    using assms length_to_string [of v] length_ts_str [of now] replay_patch_int [OF f v, of E] replay_patch_str [OF f, of E]
    by (auto simp: faithful_def short_def intro!: fits_two)
next
  case (Patch_str k f v)
  then have f: "58 \<notin> set f" using assms(1) by simp
  from Patch_str show ?thesis
    using assms length_ts_str [of now] replay_patch_str [OF f, of E]
    by (auto simp: faithful_def short_def intro!: fits_two)
next
  case (Del k)
  then show ?thesis using assms length_meta_json [of now True]
    by (auto simp: faithful_def replay_put replay_del intro!: fits_two)
next
  case (Mutate m)
  then show ?thesis using assms length_meta_json [of "mut_timestamp m" "is_delete m"]
    by (auto simp: faithful_def replay_put replay_del short_def intro!: fits_two)
qed

text \<open>The keys of a call; the changes of a thread that are in the log and not yet in the store.\<close>

fun op_key :: "engine_op \<Rightarrow> bytes" where
  "op_key (Put key body) = key"
| "op_key (Patch_int key field val) = key"
| "op_key (Patch_str key field val) = key"
| "op_key (Del key) = key"
| "op_key (Mutate m) = mut_key m"

fun call_keys :: "thread \<Rightarrow> bytes set" where
  "call_keys (Ready op) = {op_key op, meta_key (op_key op)}"
| "call_keys t = {}"

fun logged :: "thread \<Rightarrow> change list" where
  "logged (Applying chs) = chs"
| "logged (Marking key d chs) = chs"
| "logged t = []"

fun thread_ok :: "('b, 'w) env \<Rightarrow> thread \<Rightarrow> bool" where
  "thread_ok E (Ready op) = loggable op"
| "thread_ok E (Logging batch chs) = faithful E (batch, chs)"
| "thread_ok E t = True"

lemma call_changes: "is_call t \<Longrightarrow> change_key ` thread_changes t \<subseteq> call_keys t"
proof -
  have "change_key ` set (snd (plan op now)) \<subseteq> call_keys (Ready op)" for op now by (cases op) auto
  then show "is_call t \<Longrightarrow> change_key ` thread_changes t \<subseteq> call_keys t" by (fastforce simp: is_call_def)
qed

lemma logged_next [simp]: "logged (next_change chs) = chs"
  by (simp add: next_change_def)

lemma thread_step_keeps:
  assumes "thread_step E rs t en = Some (t', en')" "store_inv E (db en)"
  shows "store_inv E (db en') \<and> thread_changes t' \<subseteq> thread_changes t"
  using assms(1)
proof (cases rule: thread_step_cases)
  case (2 ch chs ok d st)
  then show ?thesis using locked_change_store(1) [OF assms(2) 2(2)] by auto
next
  case (4 f)
  then show ?thesis using assms(2) by (auto simp: store_inv_def)
qed (use assms(2) in \<open>auto simp: store_inv_delta\<close>)

text \<open>Threads that own disjoint keys: on a key of the thread \<open>i\<close> only its changes have an effect.\<close>

definition owned :: "(nat \<Rightarrow> bytes set) \<Rightarrow> thread list \<Rightarrow> bool" where
  "owned own ts \<longleftrightarrow> (\<forall>j < length ts. change_key ` thread_changes (ts ! j) \<subseteq> own j) \<and>
     (\<forall>i < length ts. \<forall>j < length ts. i \<noteq> j \<longrightarrow> own i \<inter> own j = {})"

lemma owned_step:
  assumes "owned own ts" "i < length ts" "thread_step E rs (ts ! i) en = Some (t, en')" "store_inv E (db en)"
  shows "owned own (ts[i := t])"
proof -
  have "change_key ` thread_changes t \<subseteq> own i"
    using thread_step_keeps [OF assms(3,4)] assms(1,2) by (fastforce simp: owned_def)
  with assms(1,2) show ?thesis by (auto simp: owned_def nth_list_update)
qed

text \<open>
  What the two invariants below need of the changes that are still to come: they are among the
  changes the thread may make. On a key of the thread \<open>i\<close> only its changes have an effect.
\<close>

locale pending_changes =
  fixes pend :: "thread \<Rightarrow> change list"
  assumes pend_changes: "set (pend t) \<subseteq> thread_changes t"
begin

lemma effect_concat_owner:
  assumes "i < length ts" "\<And>j. j < length ts \<Longrightarrow> j \<noteq> i \<Longrightarrow> k \<notin> change_key ` set (pend (ts ! j))"
  shows "effect E k (concat (map pend ts)) o1 = effect E k (pend (ts ! i)) o1"
proof -
  have "k \<notin> change_key ` set (pend u)" if "u \<in> set (take i ts)" for u
  proof -
    from that obtain n where "n < i" "n < length ts" "u = ts ! n" by (auto simp: in_set_conv_nth [of u])
    then show ?thesis using assms(2) [of n] by simp
  qed
  moreover have "k \<notin> change_key ` set (pend u)" if "u \<in> set (drop (Suc i) ts)" for u
  proof -
    from that obtain n where "n < length ts - Suc i" "u = ts ! (Suc i + n)" by (auto simp: in_set_conv_nth [of u])
    then show ?thesis using assms(2) [of "Suc i + n"] by simp
  qed
  ultimately have "k \<notin> change_key ` set (concat (map pend (take i ts)))" "k \<notin> change_key ` set (concat (map pend (drop (Suc i) ts)))"
    by auto
  then show ?thesis
    by (subst id_take_nth_drop [OF assms(1)]) (simp add: effect_other)
qed

lemma effect_concat_update:
  assumes "i < length ts" "k \<notin> change_key ` set (pend (ts ! i))" "k \<notin> change_key ` set (pend t)"
  shows "effect E k (concat (map pend (ts[i := t]))) o1 = effect E k (concat (map pend ts)) o1"
proof -
  have "effect E k (concat (map pend ts)) o1 = effect E k (concat (map pend (take i ts @ ts ! i # drop (Suc i) ts))) o1"
    using id_take_nth_drop [OF assms(1)] by simp
  with assms show ?thesis by (simp add: upd_conv_take_nth_drop effect_other)
qed

lemma pend_owned: "owned own ts \<Longrightarrow> i < length ts \<Longrightarrow> change_key ` set (pend (ts ! i)) \<subseteq> own i"
  using pend_changes [of "ts ! i"] unfolding owned_def by blast

lemma effect_owned:
  assumes "owned own ts" "i < length ts" "k \<in> own i"
  shows "effect E k (concat (map pend ts)) o1 = effect E k (pend (ts ! i)) o1"
proof (rule effect_concat_owner [OF assms(2)])
  fix j assume j: "j < length ts" "j \<noteq> i"
  have "change_key ` set (pend (ts ! j)) \<subseteq> own j" "own i \<inter> own j = {}"
    using pend_owned [OF assms(1) j(1)] assms(1,2) j by (auto simp: owned_def)
  with assms(3) show "k \<notin> change_key ` set (pend (ts ! j))" by auto
qed

lemma effect_update:
  assumes "owned own ts" "i < length ts" "owned own (ts[i := t])"
  shows "effect E k (concat (map pend (ts[i := t]))) o1 =
    (if k \<in> own i then effect E k (pend t) o1 else effect E k (concat (map pend ts)) o1)"
proof (cases "k \<in> own i")
  case True
  then show ?thesis using effect_owned [OF assms(3), of i k E] assms(2) by simp
next
  case False
  then have "k \<notin> change_key ` set (pend (ts ! i))" "k \<notin> change_key ` set (pend t)"
    using pend_owned [OF assms(1,2)] pend_owned [OF assms(3), of i] assms(2) by auto
  with False effect_concat_update [OF assms(2)] show ?thesis by simp
qed

lemma effect_foreign: "owned own ts \<Longrightarrow> i < length ts \<Longrightarrow> set chs \<subseteq> set (pend (ts ! i)) \<Longrightarrow> k \<notin> own i \<Longrightarrow>
    effect E k chs o1 = o1"
  using pend_owned [of own ts i] by (intro effect_other) blast

end

interpretation lg: pending_changes logged
proof
  show "set (logged t) \<subseteq> thread_changes t" for t by (cases t) auto
qed

text \<open>One step, seen from the log.\<close>

lemma thread_step_log:
  assumes "thread_step E rs t en = Some (t', en')" "store_inv E (db en)"
  obtains "wal en' = wal en" "logged t' = logged t" "\<And>k. find_blob E k (db en') = find_blob E k (db en)"
  | batch chs where "t = Logging batch chs" "t' = next_change chs"
      "en' = en\<lparr>wal := wal_append_batch (wal_write E) batch (wal en)\<rparr>"
  | ch chs where "t = Applying (ch # chs)" "t' = Threw \<or> logged t' = chs" "wal en' = wal en"
      "\<And>k. find_blob E k (db en') = effect E k [ch] (find_blob E k (db en))"
proof (cases t)
  case (Ready op)
  have "wal en' = wal en" "logged t' = logged t" "db en' = db en"
    using assms(1) Ready by (cases op; auto split: option.splits if_splits prod.splits)+
  then show ?thesis by (intro that(1)) simp_all
next
  case (Applying chs)
  then obtain ch cs ok d st where "chs = ch # cs" "locked_change E ch (db en) = (ok, d, st)"
    "t' = (if ok then Marking (change_key ch) d cs else Threw)" "en' = en\<lparr>db := st\<rparr>"
    using assms(1) by (cases chs) (auto split: prod.splits)
  with Applying find_locked [OF assms(2)] show ?thesis by (intro that(3)) auto
qed (use assms that in \<open>auto simp: find_blob_def split: if_splits\<close>)

lemma thread_step_ok:
  assumes "thread_step E rs t en = Some (t', en')" "thread_ok E t" "clock_range (eclock en) rs"
  shows "thread_ok E t' \<and> int64_range (max_wall_time (eclock en'))"
proof (cases t)
  case (Ready op)
  show ?thesis
  proof (cases "\<exists>m. op = Mutate m")
    case True
    then obtain m where m: "op = Mutate m" by blast
    have "int64_range (wall_time (mut_timestamp m))" using assms(2) Ready m by simp
    from plan_faithful [OF _ this, of op E] assms Ready m show ?thesis
      by (auto simp: clock_range_def simp del: plan.simps split: option.splits if_splits prod.splits)
  next
    case False
    then obtain now c q where now: "hlc_now (eclock en) rs = Some (now, c, q)"
      "t' = Logging (fst (plan op now)) (snd (plan op now))" "en' = en\<lparr>eclock := c\<rparr>"
      using assms(1) Ready by (cases op) (auto simp del: plan.simps split: option.splits prod.splits)
    from clock_range_now [OF now(1) assms(3)] plan_faithful [of op now E] assms(2) Ready now(2,3)
    show ?thesis by (auto simp: clock_range_def)
  qed
next
  case (Applying chs)
  then show ?thesis using assms by (cases chs) (auto simp: clock_range_def split: prod.splits)
qed (use assms in \<open>auto simp: clock_range_def next_change_def split: if_splits\<close>)

text \<open>The invariant: as long as nothing was thrown, the log replays to the store as it will be when the
  logged changes have been applied. \<open>own i\<close> are the keys of the thread \<open>i\<close>.\<close>

definition replays_to :: "('b, 'w) env \<Rightarrow> ('w \<Rightarrow> bytes) \<Rightarrow> thread list \<Rightarrow> ('b, 'w) engine \<Rightarrow> BatchOp list list \<Rightarrow> bool" where
  "replays_to E log_of ts en bs \<longleftrightarrow> (\<forall>b \<in> set bs. fits_batch b) \<and> log_of (wal en) = log_bytes bs \<and>
     (\<forall>k. find_blob E k (fold (replay E) (log_calls bs) store_init) =
       effect E k (concat (map logged ts)) (find_blob E k (db en)))"

definition log_inv :: "('b, 'w) env \<Rightarrow> ('w \<Rightarrow> bytes) \<Rightarrow> (nat \<Rightarrow> bytes set) \<Rightarrow> thread list \<Rightarrow> ('b, 'w) engine \<Rightarrow> bool" where
  "log_inv E log_of own ts en \<longleftrightarrow> Threw \<in> set ts \<or>
     (store_inv E (db en) \<and> int64_range (max_wall_time (eclock en)) \<and> owned own ts \<and>
      (\<forall>i < length ts. thread_ok E (ts ! i)) \<and> (\<exists>bs. replays_to E log_of ts en bs))"

lemma replays_to_step:
  assumes "wal_appends E log_of" "replays_to E log_of ts en bs" "i < length ts" "store_inv E (db en)" "owned own ts"
    and step: "thread_step E rs (ts ! i) en = Some (t, en')" "t \<noteq> Threw" "thread_ok E (ts ! i)"
  shows "\<exists>bs. replays_to E log_of (ts[i := t]) en' bs"
proof -
  note own' = owned_step [OF assms(5,3) step(1) assms(4)]
  have i: "i < length (ts[i := t])" using assms(3) by simp
  have now: "find_blob E k (fold (replay E) (log_calls bs) store_init) =
      effect E k (if k \<in> own i then logged (ts ! i) else concat (map logged ts)) (find_blob E k (db en))" for k
    using assms(2) lg.effect_owned [OF assms(5,3), of k E] by (simp add: replays_to_def)
  have goal: "replays_to E log_of (ts[i := t]) en' cs"
    if "\<forall>b \<in> set cs. fits_batch b" "log_of (wal en') = log_bytes cs"
      "\<And>k. find_blob E k (fold (replay E) (log_calls cs) store_init) =
         effect E k (if k \<in> own i then logged t else concat (map logged ts)) (find_blob E k (db en'))" for cs
    using that lg.effect_update [OF assms(5,3) own', of E] by (simp add: replays_to_def)
  have rt: "\<forall>b \<in> set bs. fits_batch b" "log_of (wal en) = log_bytes bs" using assms(2) by (simp_all add: replays_to_def)
  from step(1) assms(4) show ?thesis
  proof (cases rule: thread_step_log)
    case 1
    then have "replays_to E log_of (ts[i := t]) en' bs" using rt now by (intro goal) auto
    then show ?thesis ..
  next
    case (2 batch chs)
    have f: "faithful E (batch, chs)" using step(3) 2(1) by simp
    let ?st = "fold (replay E) (log_calls bs) store_init"
    have "find_blob E k (fold (replay E) (log_calls (bs @ [batch])) store_init) = effect E k chs (find_blob E k ?st)" for k
      using f find_changes [OF store_inv_replays [OF store_inv_init], of E k chs "log_calls bs"]
      by (simp add: faithful_def log_calls_def)
    moreover have "effect E k chs o1 = o1" if "k \<notin> own i" for k o1
      by (rule lg.effect_foreign [OF own' i _ that]) (simp add: assms(3) 2(2))
    ultimately have "replays_to E log_of (ts[i := t]) en' (bs @ [batch])"
      using rt now 2 f assms(1) by (intro goal) (auto simp: faithful_def wal_appends_def wal_append_batch_def
          wal_append_def log_bytes_def batch_record_def)
    then show ?thesis ..
  next
    case (3 ch chs)
    have "change_key ch \<in> own i" using lg.pend_owned [OF assms(5,3)] 3(1) by simp
    then have "replays_to E log_of (ts[i := t]) en' bs" using rt now 3 step(2) by (intro goal) auto
    then show ?thesis ..
  qed
qed

lemma log_inv_step:
  assumes "wal_appends E log_of" "log_inv E log_of own ts en" "i < length ts" "\<forall>r \<in> set rs. int64_range r"
    and step: "thread_step E rs (ts ! i) en = Some (t, en')"
  shows "log_inv E log_of own (ts[i := t]) en'"
proof (cases "Threw \<in> set (ts[i := t])")
  case False
  have t: "t \<noteq> Threw" using False assms(3) by (metis set_update_memI)
  have "ts ! i \<noteq> Threw" using step by auto
  with False have "Threw \<notin> set ts" by (metis in_set_conv_nth length_list_update nth_list_update_neq)
  with assms(2) obtain bs where inv: "store_inv E (db en)" "int64_range (max_wall_time (eclock en))" "owned own ts"
    "\<And>j. j < length ts \<Longrightarrow> thread_ok E (ts ! j)" "replays_to E log_of ts en bs"
    by (auto simp: log_inv_def)
  have "clock_range (eclock en) rs" using inv(2) assms(4) by (simp add: clock_range_def)
  note ok = thread_step_ok [OF step inv(4) [OF assms(3)] this]
  then have "\<forall>j < length (ts[i := t]). thread_ok E (ts[i := t] ! j)"
    using inv(4) by (metis length_list_update nth_list_update_eq nth_list_update_neq)
  with replays_to_step [OF assms(1) inv(5) assms(3) inv(1,3) step t inv(4) [OF assms(3)]]
    owned_step [OF inv(3) assms(3) step inv(1)] thread_step_keeps [OF step inv(1)]
    ok show ?thesis by (simp add: log_inv_def)
qed (simp add: log_inv_def)

text \<open>C3: concurrent calls and the log. Let calls on pairwise different keys run in any interleaving of
  their locked sections. At every moment (as long as none has thrown) the log alone determines
  the documents: an engine started on it has, for every key, what the store will hold once the
  calls that have been logged are applied; when all have returned, exactly the documents served.
  Keys, fields, stamps and the log stay within the limits of the log format.\<close>

theorem distinct_keys_recoverable:
  assumes "wal_appends E log_of" and "replayed E log_of en bs" and "int64_range (max_wall_time (eclock en))"
    and "\<forall>t \<in> set ts. is_call t \<and> thread_ok E t"
    and "\<forall>i < length ts. \<forall>j < length ts. i \<noteq> j \<longrightarrow> call_keys (ts ! i) \<inter> call_keys (ts ! j) = {}"
    and "\<forall>(i, rs) \<in> set xs. \<forall>r \<in> set rs. int64_range r"
    and "par_run E xs (ts, en) = Some (ts', en')" and "Threw \<notin> set ts'"
    and "f = log_of (wal en')" and "length f < 2 ^ 64"
  shows "\<exists>en2. engine_new E storage_read (length f) (f, 0) w node = Some en2 \<and>
    find_blob E k (db en2) = effect E k (concat (map logged ts')) (find_blob E k (db en')) \<and>
    (set ts' \<subseteq> {Returned} \<longrightarrow> get E k (db en2) = get E k (db en'))"
proof -
  define own where "own j = call_keys (ts ! j)" for j
  have "owned own ts" using assms(4,5) call_changes by (fastforce simp: owned_def own_def)
  moreover
  have "concat (map logged us) = []" if "\<forall>t \<in> set us. is_call t" for us using that by (auto simp: is_call_def)
  with assms(4) have "concat (map logged ts) = []" by blast
  with assms(2) have "replays_to E log_of ts en bs" by (simp add: replays_to_def replayed_def del: concat_eq_Nil_conv)
  moreover have "store_inv E (db en)" using assms(2) store_inv_replays [OF store_inv_init] by (simp add: replayed_def)
  ultimately have "log_inv E log_of own ts en" using assms(3,4) by (auto simp: log_inv_def)
  with assms(7) have "log_inv E log_of own ts' en'"
    by (rule par_run_invariant) (use log_inv_step [OF assms(1)] assms(6) in blast)
  with assms(8) obtain cs where cs: "\<forall>b \<in> set cs. fits_batch b" "f = log_bytes cs"
    "find_blob E k (fold (replay E) (log_calls cs) store_init) = effect E k (concat (map logged ts')) (find_blob E k (db en'))"
    using assms(9) by (auto simp: log_inv_def replays_to_def)
  have quiet: "effect E k (concat (map logged ts')) o1 = o1" if "set ts' \<subseteq> {Returned}" for o1
    by (rule effect_other) (use that in auto)
  have "engine_new E storage_read (length f) (f, 0) w node =
      Some \<lparr>db = fold (replay E) (log_calls cs) store_init, wal = w, eclock = hlc_init node\<rparr>"
    using engine_new_cut [where n = "length f", OF cs(1)] cs(2) assms(10) by (simp add: complete_log)
  with cs(3) quiet show ?thesis by (simp add: get_def)
qed

text \<open>Two puts of different keys, in a schedule that crosses them.\<close>

definition demo_calls :: "thread list" where
  "demo_calls = [Ready (Put [97] [49]), Ready (Put [98] [50])]"

lemma demo_calls_ok:
  "\<forall>t \<in> set demo_calls. is_call t"
  "\<forall>i < length demo_calls. \<forall>j < length demo_calls. i \<noteq> j \<longrightarrow> call_keys (demo_calls ! i) \<inter> call_keys (demo_calls ! j) = {}"
  by (auto simp: demo_calls_def is_call_def less_Suc_eq meta_key_def lit_def)

lemma demo_crossed:
  "\<exists>en'. par_run demo_env (crossed [5] [6]) (demo_calls, engine_empty [] 1) = Some ([Returned, Returned], en') \<and>
     length (wal en') < 2 ^ 64"
  using crossed_puts [OF demo_stamps, of demo_env "[97]" "[49]" "[98]" "[50]"] demo_appends
    length_meta_json [of "Timestamp 5 0 1" False] length_meta_json [of "Timestamp 6 0 1" False]
  by (simp add: demo_calls_def wal_appends_def wal_append_batch_def wal_append_def engine_empty_def batch_bytes_def batch_op_bytes_def)

theorem distinct_keys_recoverable_witness:
  "\<exists>en' f en2. par_run demo_env (crossed [5] [6]) (demo_calls, engine_empty [] 1) = Some ([Returned, Returned], en') \<and>
     f = wal en' \<and> engine_new demo_env storage_read (length f) (f, 0) [] 1 = Some en2 \<and>
     get demo_env [97] (db en2) = get demo_env [97] (db en')"
proof -
  obtain en' where r: "par_run demo_env (crossed [5] [6]) (demo_calls, engine_empty [] 1) = Some ([Returned, Returned], en')"
    and l: "length (wal en') < 2 ^ 64" using demo_crossed by blast
  have "replayed demo_env (\<lambda>w. w) (engine_empty [] 1) []" "int64_range (max_wall_time (eclock (engine_empty [] 1)))"
    by (simp_all add: engine_empty_def hlc_init_def replayed_def log_bytes_def log_calls_def)
  moreover have "\<forall>t \<in> set demo_calls. is_call t \<and> thread_ok demo_env t" by (simp add: demo_calls_def is_call_def short_def)
  moreover have "\<forall>(i, rs) \<in> set (crossed [5] [6]). \<forall>r \<in> set rs. int64_range r" by (simp add: crossed_def)
  moreover have "Threw \<notin> set [Returned, Returned]" by simp
  ultimately have "\<exists>en2. engine_new demo_env storage_read (length (wal en')) (wal en', 0) [] 1 = Some en2 \<and>
    get demo_env [97] (db en2) = get demo_env [97] (db en')"
    using distinct_keys_recoverable [OF demo_appends _ _ _ demo_calls_ok(2) _ r _ refl l, where ?k = "[97]"] by fastforce
  with r show ?thesis by blast
qed

section \<open>The documents of a serial run\<close>

text \<open>The same calls one after another, each with the clock readings it sees and without an exception.\<close>

fun serial :: "('b, 'w) env \<Rightarrow> (engine_op \<times> int list) list \<Rightarrow> ('b, 'w) engine \<Rightarrow> ('b, 'w) engine option" where
  "serial E [] en = Some en"
| "serial E ((op, rs) # calls) en =
     (case run_op E op en rs of Some (True, en', _) \<Rightarrow> serial E calls en' | _ \<Rightarrow> None)"

lemma serial_snoc:
  "serial E calls en = Some en1 \<Longrightarrow> run_op E op en1 rs = Some (True, en2, q) \<Longrightarrow>
   serial E (calls @ [(op, rs)]) en = Some en2"
  by (induction calls arbitrary: en) (auto split: option.splits prod.splits bool.splits)

text \<open>All changes a thread has decided on, logged or not, and whether they will complete.\<close>

fun planned :: "thread \<Rightarrow> change list" where
  "planned (Logging batch chs) = chs"
| "planned (Applying chs) = chs"
| "planned (Marking key d chs) = chs"
| "planned t = []"

interpretation pl: pending_changes planned
proof
  show "set (planned t) \<subseteq> thread_changes t" for t by (cases t) auto
qed

fun change_ok :: "('b, 'w) env \<Rightarrow> change \<Rightarrow> 'b option \<Rightarrow> bool" where
  "change_ok E (Change_int key field val) o1 = fst (set_int E field val (case o1 of Some b \<Rightarrow> b | None \<Rightarrow> buf_object E))"
| "change_ok E (Change_str key field val) o1 = fst (set_str E field val (case o1 of Some b \<Rightarrow> b | None \<Rightarrow> buf_object E))"
| "change_ok E ch o1 = True"

fun completes :: "('b, 'w) env \<Rightarrow> change list \<Rightarrow> (bytes \<Rightarrow> 'b option) \<Rightarrow> bool" where
  "completes E [] f = True"
| "completes E (ch # chs) f =
     (change_ok E ch (f (change_key ch)) \<and> completes E chs (\<lambda>k. effect E k [ch] (f k)))"

lemma completes_cong:
  "(\<And>k. k \<in> change_key ` set chs \<Longrightarrow> f k = g k) \<Longrightarrow> completes E chs f = completes E chs g"
proof (induction chs arbitrary: f g)
  case (Cons ch chs)
  have "completes E chs (\<lambda>k. effect E k [ch] (f k)) = completes E chs (\<lambda>k. effect E k [ch] (g k))"
    by (rule Cons.IH) (use Cons.prems in auto)
  with Cons.prems show ?case by simp
qed simp

lemma fst_change: "fst (apply_change E ch st) = change_ok E ch (find_blob E (change_key ch) st)"
  by (cases ch) (auto simp: apply_patch_int_def apply_patch_str_def fst_edit edit_base_def)

lemma changed_completes:
  assumes "store_inv E st"
  shows "fst (changed E chs st) = completes E chs (\<lambda>k. find_blob E k st) \<and>
    (completes E chs (\<lambda>k. find_blob E k st) \<longrightarrow> store_inv E (snd (changed E chs st)) \<and>
      find_blob E k (snd (changed E chs st)) = effect E k chs (find_blob E k st))"
  using assms
proof (induction chs arbitrary: st)
  case (Cons ch chs)
  obtain ok st' where c: "apply_change E ch st = (ok, st')" by fastforce
  have st': "store_inv E st'" "\<And>k. find_blob E k st' = effect E k [ch] (find_blob E k st)"
    using store_inv_change [OF Cons.prems, of ch] find_change [OF Cons.prems, of _ ch] c by simp_all
  have ok: "ok = change_ok E ch (find_blob E (change_key ch) st)" using fst_change [of E ch st] c by simp
  have stop: "fold (\<lambda>ch (ok, st). if ok then apply_change E ch st else (False, st)) xs (False, s) = (False, s)" for xs s
    by (induction xs) simp_all
  show ?case
  proof (cases ok)
    case True
    with Cons.IH [OF st'(1)] c ok st'(2) show ?thesis by simp
  qed (use c ok stop in simp)
qed simp

text \<open>One step, seen from the plans.\<close>

lemma thread_step_plan:
  assumes "thread_step E rs t en = Some (t', en')" "store_inv E (db en)"
  obtains op where "t = Ready op" "db en' = db en"
  | "planned t' = planned t" "\<And>k. find_blob E k (db en') = find_blob E k (db en)" "eclock en' = eclock en" "\<And>op. t \<noteq> Ready op"
      "t' \<noteq> Threw" "\<And>op. t' \<noteq> Ready op"
  | ch chs where "t = Applying (ch # chs)" "eclock en' = eclock en"
      "\<And>k. find_blob E k (db en') = effect E k [ch] (find_blob E k (db en))"
      "if change_ok E ch (find_blob E (change_key ch) (db en)) then planned t' = chs \<and> t' \<noteq> Threw \<and> (\<forall>op. t' \<noteq> Ready op) else t' = Threw"
proof (cases t)
  case (Ready op)
  have "db en' = db en"
    using assms(1) Ready by (cases op; auto split: option.splits if_splits prod.splits)+
  with Ready show ?thesis by (rule that(1))
next
  case (Applying chs)
  then obtain ch cs ok d st where c: "chs = ch # cs" "locked_change E ch (db en) = (ok, d, st)"
    "t' = (if ok then Marking (change_key ch) d cs else Threw)" "en' = en\<lparr>db := st\<rparr>"
    using assms(1) by (cases chs) (auto split: prod.splits)
  have "ok = change_ok E ch (find_blob E (change_key ch) (db en))"
    using fst_change [of E ch "db en"] apply_change_locked [OF c(2)] by simp
  with Applying c find_locked [OF assms(2) c(2)] show ?thesis by (intro that(3)) auto
qed (use assms that in \<open>auto simp: find_blob_def next_change_def split: if_splits\<close>)


text \<open>The first step of a call sees only the clock and the sidecar of its key.\<close>

lemma ready_cong:
  assumes "thread_step E rs (Ready op) en = Some (t, e)" "eclock en2 = eclock en"
    "find_blob E (meta_key (op_key op)) (db en2) = find_blob E (meta_key (op_key op)) (db en)"
  shows "\<exists>e2. thread_step E rs (Ready op) en2 = Some (t, e2) \<and> eclock e2 = eclock e \<and> db e2 = db en2"
proof (cases op)
  case (Mutate m)
  have "local_ts E (mut_key m) (db en2) = local_ts E (mut_key m) (db en)"
    by (rule local_ts_cong) (use assms(3) Mutate in simp)
  with assms(1,2) Mutate show ?thesis by (auto split: option.splits if_splits)
qed (use assms(1,2) in \<open>auto split: option.splits prod.splits\<close>)

lemma run_op_exists:
  assumes "thread_step E rs (Ready op) en = Some (t, e)"
  shows "\<exists>ok en' q. run_op E op en rs = Some (ok, en', q)"
  using assms
  by (cases op) (auto simp: put_def patch_int_def patch_str_def del_def Let_def split: option.splits prod.splits)

fun unstarted :: "thread \<Rightarrow> engine_op list" where
  "unstarted (Ready op) = [op]"
| "unstarted t = []"

definition doomed :: "('b, 'w) env \<Rightarrow> thread list \<Rightarrow> ('b, 'w) engine \<Rightarrow> bool" where
  "doomed E ts en \<longleftrightarrow> Threw \<in> set ts \<or>
     (\<exists>i < length ts. \<not> completes E (planned (ts ! i)) (\<lambda>k. find_blob E k (db en)))"

text \<open>The serial engine that a state of the threads stands for: it has run the calls that were begun.\<close>

definition stands_for :: "('b, 'w) env \<Rightarrow> ('b, 'w) engine \<Rightarrow> engine_op multiset \<Rightarrow> thread list \<Rightarrow> ('b, 'w) engine \<Rightarrow> bool" where
  "stands_for E en0 ops ts en \<longleftrightarrow> (\<exists>calls en2. serial E calls en0 = Some en2 \<and> store_inv E (db en2) \<and>
     eclock en2 = eclock en \<and> mset (map fst calls) + mset (concat (map unstarted ts)) = ops \<and>
     (\<forall>k. find_blob E k (db en2) = effect E k (concat (map planned ts)) (find_blob E k (db en))))"

lemma own_find:
  assumes "thread_step E rs (ts ! i) en = Some (t, en')" "store_inv E (db en)" "owned own ts" "i < length ts" "k \<notin> own i"
  shows "find_blob E k (db en') = find_blob E k (db en)"
  using assms(1,2)
proof (cases rule: thread_step_plan)
  case (3 ch chs)
  have "change_key ch \<in> own i" using pl.pend_owned [OF assms(3,4)] 3(1) by simp
  with assms(5) 3(3) show ?thesis by auto
qed simp_all

lemma doomed_step:
  assumes "doomed E ts en" "i < length ts" "thread_step E rs (ts ! i) en = Some (t, en')" "store_inv E (db en)" "owned own ts"
  shows "doomed E (ts[i := t]) en'"
proof -
  have n: "ts ! i \<noteq> Threw" using assms(3) by auto
  consider "Threw \<in> set ts"
    | j where "j < length ts" "j \<noteq> i" "\<not> completes E (planned (ts ! j)) (\<lambda>k. find_blob E k (db en))"
    | "\<not> completes E (planned (ts ! i)) (\<lambda>k. find_blob E k (db en))"
    using assms(1) by (auto simp: doomed_def)
  then show ?thesis
  proof cases
    case 1
    with n have "Threw \<in> set (ts[i := t])" by (metis in_set_conv_nth length_list_update nth_list_update_neq)
    then show ?thesis by (simp add: doomed_def)
  next
    case (2 j)
    have "own i \<inter> own j = {}" using assms(2,5) 2(1,2) by (simp add: owned_def)
    with pl.pend_owned [OF assms(5) 2(1)] have "change_key ` set (planned (ts ! j)) \<inter> own i = {}" by blast
    then have "completes E (planned (ts ! j)) (\<lambda>k. find_blob E k (db en')) = completes E (planned (ts ! j)) (\<lambda>k. find_blob E k (db en))"
      by (intro completes_cong own_find [OF assms(3,4,5,2)]) auto
    with 2 show ?thesis by (auto simp: doomed_def intro!: exI [of _ j])
  next
    case 3
    have "t = Threw \<or> \<not> completes E (planned t) (\<lambda>k. find_blob E k (db en'))"
      using assms(3,4)
    proof (cases rule: thread_step_plan)
      case (3 ch chs)
      then show ?thesis using \<open>\<not> completes E (planned (ts ! i)) _\<close> by (auto split: if_splits)
    qed (use 3 in auto)
    with assms(2) show ?thesis by (auto simp: doomed_def set_update_memI intro!: exI [of _ i])
  qed
qed


lemma unstarted_update:
  "i < length ts \<Longrightarrow> mset (unstarted (ts ! i)) + mset (concat (map unstarted (ts[i := t]))) =
     mset (unstarted t) + mset (concat (map unstarted ts))"
proof (induction ts arbitrary: i)
  case (Cons a ts)
  then show ?case by (cases i) (simp_all add: add.left_commute [of _ "mset (unstarted a)"])
qed simp

text \<open>A call whose plan will complete runs to the end, with the effect of its plan.\<close>

lemma ready_runs:
  assumes "thread_step E rs (Ready op) en = Some (t, e)" "store_inv E (db en)" "t \<noteq> Threw"
    "completes E (planned t) (\<lambda>k. find_blob E k (db en))"
  shows "\<exists>en' q. run_op E op en rs = Some (True, en', q) \<and> store_inv E (db en') \<and> eclock en' = eclock e \<and>
    (\<forall>k. find_blob E k (db en') = effect E k (planned t) (find_blob E k (db en)))"
proof -
  have db: "db e = db en" using assms(1,2) by (cases rule: thread_step_plan) auto
  obtain ok en' q where r: "run_op E op en rs = Some (ok, en', q)" using run_op_exists [OF assms(1)] by blast
  then have "ok \<and> store_inv E (db en') \<and> eclock en' = eclock e \<and>
      (\<forall>k. find_blob E k (db en') = effect E k (planned t) (find_blob E k (db en)))"
  proof (cases rule: run_op_plan)
    case 1
    with assms(1-3) db show ?thesis by (cases ok) auto
  next
    case (2 now e' st)
    with assms(1) have "planned t = snd (plan op now)" "e' = e" by auto
    with 2 db assms(4) changed_completes [OF assms(2), of "planned t"] show ?thesis by auto
  qed
  with r show ?thesis by auto
qed

text \<open>Beginning a call is running it in the serial engine.\<close>

lemma stands_for_ready:
  assumes "stands_for E en0 ops ts en" "i < length ts" "ts ! i = Ready op" "thread_step E rs (ts ! i) en = Some (t, en')"
    "store_inv E (db en)" "owned own ts" "\<not> doomed E (ts[i := t]) en'"
  shows "stands_for E en0 ops (ts[i := t]) en'"
proof -
  note own' = owned_step [OF assms(6,2,4,5)]
  have i: "i < length (ts[i := t])" using assms(2) by simp
  have db: "db en' = db en" using assms(4,5) by (cases rule: thread_step_plan) (use assms(3) in auto)
  obtain calls en2 where s: "serial E calls en0 = Some en2" "store_inv E (db en2)" "eclock en2 = eclock en"
    "mset (map fst calls) + mset (concat (map unstarted ts)) = ops"
    "\<And>k. find_blob E k (db en2) = effect E k (concat (map planned ts)) (find_blob E k (db en))"
    using assms(1) by (auto simp: stands_for_def)
  have mine: "find_blob E k (db en2) = find_blob E k (db en)" if "k \<in> own i" for k
    using s(5) [of k] pl.effect_owned [OF assms(6,2) that, of E] assms(3) by simp
  have "meta_key (op_key op) \<in> change_key ` thread_changes (Ready op)" by (cases op) (auto simp: image_iff)
  moreover have "change_key ` thread_changes (Ready op) \<subseteq> own i" using assms(2,3,6) unfolding owned_def by metis
  ultimately have "meta_key (op_key op) \<in> own i" by blast
  from ready_cong [of E rs op en t en' en2] assms(3,4) s(3) mine [OF this]
  obtain e2 where e2: "thread_step E rs (Ready op) en2 = Some (t, e2)" "eclock e2 = eclock en'" by auto
  have t: "t \<noteq> Threw" "completes E (planned t) (\<lambda>k. find_blob E k (db en))"
    using assms(2,7) db by (auto simp: doomed_def set_update_memI)
  moreover have "completes E (planned t) (\<lambda>k. find_blob E k (db en2)) = completes E (planned t) (\<lambda>k. find_blob E k (db en))"
    by (rule completes_cong) (use pl.pend_owned [OF own' i] assms(2) mine in auto)
  ultimately obtain en3 q where r: "run_op E op en2 rs = Some (True, en3, q)" "store_inv E (db en3)" "eclock en3 = eclock en'"
    "\<And>k. find_blob E k (db en3) = effect E k (planned t) (find_blob E k (db en2))"
    using ready_runs [OF e2(1) s(2)] e2(2) by auto
  have "find_blob E k (db en3) = effect E k (concat (map planned (ts[i := t]))) (find_blob E k (db en'))" for k
    using r(4) pl.effect_update [OF assms(6,2) own', of E k] mine [of k] s(5) [of k] db
      pl.effect_foreign [OF own' i, of "planned t" k E] assms(2) by simp
  moreover have "unstarted t = []" using e2(1) by (cases op) (auto split: option.splits if_splits)
  then have "mset (map fst (calls @ [(op, rs)])) + mset (concat (map unstarted (ts[i := t]))) = ops"
    using unstarted_update [OF assms(2), of t] assms(3) s(4) [symmetric] by simp
  ultimately show ?thesis using r(2,3) serial_snoc [OF s(1) r(1)] unfolding stands_for_def by blast
qed


text \<open>Every other step leaves the serial engine where it is.\<close>

lemma stands_for_step:
  assumes "stands_for E en0 ops ts en" "i < length ts" "thread_step E rs (ts ! i) en = Some (t, en')"
    "store_inv E (db en)" "owned own ts" "\<not> doomed E (ts[i := t]) en'"
  shows "stands_for E en0 ops (ts[i := t]) en'"
proof -
  note own' = owned_step [OF assms(5,2,3,4)]
  have t: "t \<noteq> Threw" using assms(2,6) by (auto simp: doomed_def set_update_memI)
  have keep: ?thesis
    if "eclock en' = eclock en" "unstarted (ts ! i) = []" "unstarted t = []"
      "\<And>k. effect E k (concat (map planned (ts[i := t]))) (find_blob E k (db en')) =
        effect E k (concat (map planned ts)) (find_blob E k (db en))"
    using assms(1) that unstarted_update [OF assms(2), of t] unfolding stands_for_def by auto
  from assms(3,4) show ?thesis
  proof (cases rule: thread_step_plan)
    case (1 op)
    then show ?thesis using stands_for_ready [OF assms(1,2) _ assms(3-6)] by blast
  next
    case 2
    have "map planned (ts[i := t]) = map planned ts" using 2(1) assms(2) by (simp add: map_update list_update_same_conv)
    moreover have "unstarted (ts ! i) = []" "unstarted t = []" using 2(4,6) by (cases "ts ! i"; cases t; simp)+
    ultimately show ?thesis using 2 by (intro keep) simp_all
  next
    case (3 ch chs)
    have c: "change_key ch \<in> own i" using pl.pend_owned [OF assms(5,2)] 3(1) by simp
    have p: "planned t = chs" "unstarted t = []" using 3(4) t by (cases t; auto split: if_splits)+
    show ?thesis
      using 3 c p pl.effect_update [OF assms(5,2) own', of E] pl.effect_owned [OF assms(5,2), of _ E]
      by (intro keep) auto
  qed
qed

text \<open>C4: concurrent calls on pairwise different keys are serializable. However their locked sections
  interleave, when all have returned every document and the clock are what they would be if
  the same calls had run one after another in some order, each as a whole.\<close>

theorem distinct_keys_serializable:
  assumes "store_inv E (db en)" and "\<forall>t \<in> set ts. is_call t"
    and "\<forall>i < length ts. \<forall>j < length ts. i \<noteq> j \<longrightarrow> call_keys (ts ! i) \<inter> call_keys (ts ! j) = {}"
    and "par_run E xs (ts, en) = Some (ts', en')" and "set ts' \<subseteq> {Returned}"
  shows "\<exists>calls en2. mset (map fst calls) = mset (concat (map unstarted ts)) \<and> serial E calls en = Some en2 \<and>
    eclock en2 = eclock en' \<and> (\<forall>k. get E k (db en2) = get E k (db en'))"
proof -
  define own where "own j = call_keys (ts ! j)" for j
  define ops where "ops = mset (concat (map unstarted ts))"
  let ?I = "\<lambda>us e. owned own us \<and> store_inv E (db e) \<and> (doomed E us e \<or> stands_for E en ops us e)"
  have "owned own ts" using assms(2,3) call_changes by (fastforce simp: owned_def own_def)
  moreover have "effect E k (concat (map planned ts)) o1 = o1" for k o1
    by (rule effect_other) (use assms(2) in \<open>auto simp: is_call_def\<close>)
  then have "stands_for E en ops ts en"
    unfolding stands_for_def using assms(1) by (intro exI [of _ "[]"] exI [of _ en]) (simp add: ops_def)
  ultimately have "?I ts en" using assms(1) by blast
  with assms(4) have "?I ts' en'"
    by (rule par_run_invariant) (metis owned_step thread_step_keeps doomed_step stands_for_step)
  moreover have "\<not> doomed E ts' en'"
    using assms(5) nth_mem by (fastforce simp: doomed_def)
  ultimately obtain calls en2 where c: "serial E calls en = Some en2" "eclock en2 = eclock en'"
    "mset (map fst calls) + mset (concat (map unstarted ts')) = ops"
    "\<And>k. find_blob E k (db en2) = effect E k (concat (map planned ts')) (find_blob E k (db en'))"
    by (auto simp: stands_for_def)
  have "concat (map unstarted ts') = []" using assms(5) by auto
  moreover have "effect E k (concat (map planned ts')) o1 = o1" for k o1
    by (rule effect_other) (use assms(5) in auto)
  ultimately have "mset (map fst calls) = mset (concat (map unstarted ts))" "get E k (db en2) = get E k (db en')" for k
    using c(3,4) by (simp_all add: ops_def get_def del: concat_eq_Nil_conv)
  with c(1,2) show ?thesis by blast
qed


theorem distinct_keys_serializable_witness:
  "\<exists>en' calls en2. par_run demo_env (crossed [5] [6]) (demo_calls, engine_empty [] 1) = Some ([Returned, Returned], en') \<and>
     mset (map fst calls) = {#Put [97] [49], Put [98] [50]#} \<and> serial demo_env calls (engine_empty [] 1) = Some en2 \<and>
     get demo_env [98] (db en2) = get demo_env [98] (db en')"
proof -
  obtain en' where r: "par_run demo_env (crossed [5] [6]) (demo_calls, engine_empty [] 1) = Some ([Returned, Returned], en')"
    using demo_crossed by blast
  have i: "store_inv demo_env (db (engine_empty [] 1))" by (simp add: engine_empty_def store_inv_init)
  have u: "mset (concat (map unstarted demo_calls)) = {#Put [97] [49], Put [98] [50]#}" by (simp add: demo_calls_def)
  have "set [Returned, Returned] \<subseteq> {Returned}" by simp
  from distinct_keys_serializable [OF i demo_calls_ok(1,2) r this] r u show ?thesis by auto
qed

end
