(* ===== verification/Connection.thy ===== *)
theory Connection
  imports Mesh
begin

text \<open>
  \<^verbatim>\<open>Mesh::Connection\<close> (\<^verbatim>\<open>engine/mesh.cpp\<close>) at the level of bytes: a pending \<^verbatim>\<open>async_write\<close> hands over any
  number of bytes at a time, fails, or is cancelled when the socket is closed. The theory \<open>Mesh\<close>
  treats the write of a frame as one step and starts after the write of the node id; here the write
  of the id is a pending write of its own, as in \<^verbatim>\<open>do_send_id\<close>. Shown: if no message is sent before
  the id is out, every run is one of the connections of \<open>Mesh\<close> and the peer reads the frames in order;
  if one is, two writes are pending on one socket.
\<close>

section \<open>State and handlers\<close>

text \<open>\<open>id_left\<close> and \<open>frame_left\<close> are what the pending writes of the id and of the front of \<^verbatim>\<open>outbox_\<close> have
  still to hand over, \<open>wire_out\<close> the bytes on the socket, \<open>reader\<close> the read the connection waits in.\<close>

datatype reader_state = Not_reading | Reading_id | Reading_header

record wire =
  wire_outbox :: "bytes list"
  id_left :: "bytes option"
  frame_left :: "bytes option"
  wire_out :: bytes
  reader :: reader_state
  socket_closed :: bool

definition connection_new :: wire where
  "connection_new = \<lparr>wire_outbox = [], id_left = None, frame_left = None, wire_out = [],
     reader = Not_reading, socket_closed = False\<rparr>"

definition do_send_id :: "u32 \<Rightarrow> wire \<Rightarrow> wire" where
  "do_send_id self_id c = c\<lparr>id_left := Some (put32 self_id)\<rparr>"

definition id_sent :: "bool \<Rightarrow> wire \<Rightarrow> wire" where
  "id_sent ec c = (let c' = c\<lparr>id_left := None\<rparr> in if \<not> ec then c'\<lparr>reader := Reading_header\<rparr> else c')"

definition do_read_id :: "wire \<Rightarrow> wire" where
  "do_read_id c = c\<lparr>reader := Reading_id\<rparr>"

definition connection_start :: "bool \<Rightarrow> u32 \<Rightarrow> wire \<Rightarrow> wire" where
  "connection_start is_outbound local_id c = (if is_outbound then do_send_id local_id c else do_read_id c)"

definition start_write :: "wire \<Rightarrow> wire" where
  "start_write c = c\<lparr>frame_left := Some (hd (wire_outbox c))\<rparr>"

definition wire_send :: "bytes \<Rightarrow> wire \<Rightarrow> wire" where
  "wire_send p c =
     (let write_in_progress = (wire_outbox c \<noteq> []);
          c' = c\<lparr>wire_outbox := wire_outbox c @ [p]\<rparr>
      in if \<not> write_in_progress then start_write c' else c')"

definition frame_sent :: "bool \<Rightarrow> wire \<Rightarrow> wire" where
  "frame_sent ec c =
     (let c' = c\<lparr>frame_left := None\<rparr>
      in if \<not> ec then
           (let c2 = c'\<lparr>wire_outbox := tl (wire_outbox c')\<rparr>
            in if wire_outbox c2 \<noteq> [] then start_write c2 else c2)
         else c')"

text \<open>Closing the socket cancels its pending writes, whose handlers see an error.\<close>

definition do_close :: "wire \<Rightarrow> wire" where
  "do_close c =
     (let c1 = (if id_left c \<noteq> None then id_sent True c else c);
          c2 = (if frame_left c1 \<noteq> None then frame_sent True c1 else c1)
      in c2\<lparr>socket_closed := True\<rparr>)"

section \<open>What the executor and the socket do\<close>

text \<open>A pending write hands over \<open>n\<close> of its bytes, and its handler runs once all are out; on a closed
  socket nothing is handed over.\<close>

datatype wire_event = Post_send Lane bytes | Id_bytes nat | Frame_out nat | Id_error | Frame_error | Close

fun wire_step :: "wire_event \<Rightarrow> wire \<Rightarrow> wire" where
  "wire_step (Post_send l p) c = wire_send (frame_bytes l p) c"
| "wire_step (Id_bytes n) c =
     (case id_left c of
        None \<Rightarrow> c
      | Some r \<Rightarrow>
          if socket_closed c then c
          else let c' = c\<lparr>wire_out := wire_out c @ take n r, id_left := Some (drop n r)\<rparr>
               in if length r \<le> n then id_sent False c' else c')"
| "wire_step (Frame_out n) c =
     (case frame_left c of
        None \<Rightarrow> c
      | Some r \<Rightarrow>
          if socket_closed c then c
          else let c' = c\<lparr>wire_out := wire_out c @ take n r, frame_left := Some (drop n r)\<rparr>
               in if length r \<le> n then frame_sent False c' else c')"
| "wire_step Id_error c = (if id_left c \<noteq> None then id_sent True c else c)"
| "wire_step Frame_error c = (if frame_left c \<noteq> None then frame_sent True c else c)"
| "wire_step Close c = do_close c"

definition wire_run :: "wire_event list \<Rightarrow> wire \<Rightarrow> wire" where
  "wire_run evs c = fold wire_step evs c"

definition posted :: "wire_event list \<Rightarrow> (Lane \<times> bytes) list" where
  "posted evs = concat (map (\<lambda>e. case e of Post_send l p \<Rightarrow> [(l, p)] | _ \<Rightarrow> []) evs)"

abbreviation writes_pending :: "wire \<Rightarrow> nat" where
  "writes_pending c \<equiv> (if id_left c = None then 0 else 1) + (if frame_left c = None then 0 else 1)"

lemmas wire_defs = start_write_def wire_send_def frame_sent_def id_sent_def do_close_def Let_def

lemma wire_run_simps [simp]: "wire_run [] c = c" "wire_run (e # es) c = wire_run es (wire_step e c)"
  "wire_run (es @ fs) c = wire_run fs (wire_run es c)"
  by (simp_all add: wire_run_def)

lemma posted_simps [simp]: "posted [] = []" "posted (Post_send l p # es) = (l, p) # posted es"
  "posted (Id_bytes n # es) = posted es" "posted (Frame_out n # es) = posted es" "posted (Id_error # es) = posted es"
  "posted (Frame_error # es) = posted es" "posted (Close # es) = posted es"
  by (simp_all add: posted_def)

section \<open>Simulation by the connections of Mesh\<close>

text \<open>The steps of a connection in \<open>Mesh\<close>, with failing writes.\<close>

inductive conn_moves :: "(Lane \<times> bytes) list \<Rightarrow> conn \<Rightarrow> conn \<Rightarrow> bool" where
  moves_none: "conn_moves [] a a"
| moves_send: "conn_moves ms a b \<Longrightarrow> conn_moves (ms @ [(l, p)]) a (conn_send (frame_bytes l p) b)"
| moves_done: "conn_moves ms a b \<Longrightarrow> in_flight b \<Longrightarrow> conn_moves ms a (write_done ec b)"

text \<open>\<open>part\<close> is what the peer has of the frame at the front.\<close>

definition sim :: "wire \<Rightarrow> conn \<Rightarrow> bool" where
  "sim c a \<longleftrightarrow> id_left c = None \<and> wire_outbox c = outbox a \<and> (in_flight a \<longleftrightarrow> frame_left c \<noteq> None) \<and> [] \<notin> set (outbox a) \<and>
     (\<exists>part. wire_out c = socket_out a @ part \<and>
       (case frame_left c of
          None \<Rightarrow> if outbox a = [] then part = [] else \<exists>r. r \<noteq> [] \<and> hd (outbox a) = part @ r
        | Some r \<Rightarrow> r \<noteq> [] \<and> outbox a \<noteq> [] \<and> hd (outbox a) = part @ r))"

lemma frame_bytes_nonempty: "frame_bytes l p \<noteq> []"
proof -
  have "length (frame_bytes l p) = 8 + length p" by (simp add: frame_bytes_def)
  then show ?thesis by auto
qed

lemma sim_send: "sim c a \<Longrightarrow> f \<noteq> [] \<Longrightarrow> sim (wire_send f c) (conn_send f a)"
  by (auto simp: sim_def wire_send_def start_write_def conn_send_def do_write_def Let_def split: option.splits if_splits)

lemma sim_fail:
  assumes "sim c a" "frame_left c \<noteq> None"
  shows "in_flight a" "sim (frame_sent True c) (write_done True a)"
proof -
  obtain r where "frame_left c = Some r" using assms(2) by auto
  with assms(1) show "in_flight a" "sim (frame_sent True c) (write_done True a)"
    by (auto simp: sim_def frame_sent_def write_done_def Let_def)
qed

text \<open>A write of the frame at the front that has handed over \<open>n\<close> bytes more.\<close>

lemma sim_progress:
  assumes "sim c a" "frame_left c = Some r" "n < length r"
  shows "sim (c\<lparr>wire_out := wire_out c @ take n r, frame_left := Some (drop n r)\<rparr>) a"
  using assms by (auto simp: sim_def)

lemma sim_complete:
  assumes "sim c a" "frame_left c = Some r"
  shows "sim (frame_sent False (c\<lparr>wire_out := wire_out c @ r, frame_left := Some []\<rparr>)) (write_done False a)"
  using assms
  by (cases "outbox a"; cases "tl (outbox a)")
    (auto simp: sim_def frame_sent_def write_done_def start_write_def do_write_def Let_def)

lemma sim_step:
  assumes "sim c a" "conn_moves ms (conn_start node) a"
  shows "\<exists>b. conn_moves (ms @ posted [e]) (conn_start node) b \<and> sim (wire_step e c) b"
proof -
  have idle: "id_left c = None" using assms(1) by (simp add: sim_def)
  show ?thesis
  proof (cases e)
    case (Post_send l p)
    then show ?thesis using sim_send [OF assms(1) frame_bytes_nonempty, of l p] moves_send [OF assms(2), of l p] by auto
  next
    case (Frame_out n)
    show ?thesis
    proof (cases "frame_left c")
      case None
      then show ?thesis using assms Frame_out by auto
    next
      case (Some r)
      then have fl: "in_flight a" using assms(1) by (auto simp: sim_def)
      show ?thesis
      proof (cases "socket_closed c \<or> n < length r")
        case True
        then show ?thesis using assms Frame_out Some sim_progress [OF assms(1) Some] by auto
      next
        case False
        then show ?thesis
          using sim_complete [OF assms(1) Some] moves_done [OF assms(2) fl, of False] Frame_out Some by auto
      qed
    qed
  next
    case Frame_error
    then show ?thesis using assms sim_fail [OF assms(1)] moves_done [OF assms(2), of True] by auto
  next
    case Close
    have "sim (c\<lparr>socket_closed := True\<rparr>) b = sim c b" for c b by (simp add: sim_def)
    then show ?thesis
      using assms idle Close sim_fail [OF assms(1)] moves_done [OF assms(2), of True] by (auto simp: do_close_def Let_def)
  qed (use assms idle in auto)
qed

lemma sim_run:
  assumes "sim c a" "conn_moves ms (conn_start node) a"
  shows "\<exists>b. conn_moves (ms @ posted evs) (conn_start node) b \<and> sim (wire_run evs c) b"
  using assms
proof (induction evs arbitrary: ms c a)
  case (Cons e evs)
  then obtain b where b: "conn_moves (ms @ posted [e]) (conn_start node) b" "sim (wire_step e c) b"
    using sim_step by blast
  have "posted [e] @ posted evs = posted (e # evs)" by (simp add: posted_def)
  with Cons.IH [OF b(2,1)] show ?case by auto
qed auto

section \<open>What the peer reads\<close>

text \<open>The queue invariant of \<open>Mesh\<close> without failures keeps a write pending while frames wait; with them
  it keeps the bytes.\<close>

lemma conn_moves_bytes:
  assumes "conn_moves ms (conn_start node) a"
  shows "\<exists>k \<le> length ms. k + length (outbox a) = length ms \<and> (in_flight a \<longrightarrow> outbox a \<noteq> []) \<and>
    socket_out a = put32 node @ frames (take k ms) \<and> outbox a = map (\<lambda>(l, p). frame_bytes l p) (drop k ms)"
  using assms
proof (induction ms "conn_start node" a rule: conn_moves.induct)
  case moves_none
  then show ?case by (simp add: conn_start_def)
next
  case (moves_send ms b l p)
  then obtain k where "k \<le> length ms" "k + length (outbox b) = length ms"
    "socket_out b = put32 node @ frames (take k ms)" "outbox b = map (\<lambda>(l, p). frame_bytes l p) (drop k ms)"
    by blast
  then show ?case by (intro exI [of _ k]) (simp add: conn_send_def do_write_def Let_def)
next
  case (moves_done ms b ec)
  then obtain k where k: "k \<le> length ms" "k + length (outbox b) = length ms" "outbox b \<noteq> []"
    "socket_out b = put32 node @ frames (take k ms)" "outbox b = map (\<lambda>(l, p). frame_bytes l p) (drop k ms)"
    by blast
  show ?case
  proof (cases ec)
    case True
    with k show ?thesis by (intro exI [of _ k]) (simp add: write_done_def)
  next
    case False
    have "k < length ms" using k(2,3) by (cases "outbox b") auto
    then have d: "drop k ms = ms ! k # drop (Suc k) ms" "take (Suc k) ms = take k ms @ [ms ! k]"
      by (simp_all add: Cons_nth_drop_Suc take_Suc_conv_app_nth)
    show ?thesis
      using False k \<open>k < length ms\<close>
      by (intro exI [of _ "Suc k"]) (auto simp: write_done_def do_write_def Let_def d)
  qed
qed

text \<open>Until the id is out, and as long as nothing was sent, only its bytes are on the socket.\<close>

definition greeting :: "u32 \<Rightarrow> wire \<Rightarrow> bool" where
  "greeting node c \<longleftrightarrow> wire_outbox c = [] \<and> frame_left c = None \<and>
     (case id_left c of
        Some r \<Rightarrow> reader c = Not_reading \<and> wire_out c @ r = put32 node
      | None \<Rightarrow> reader c = Reading_header \<longrightarrow> wire_out c = put32 node)"

lemma greeting_run:
  "greeting node c \<Longrightarrow> posted evs = [] \<Longrightarrow> greeting node (wire_run evs c)"
proof (induction evs arbitrary: c)
  case (Cons e evs)
  then have p: "posted evs = []" by (cases e) auto
  have "greeting node (wire_step e c)"
    using Cons.prems by (cases e) (auto simp: greeting_def id_sent_def do_close_def Let_def split: option.splits)
  from Cons.IH [OF this p] show ?case by simp
qed simp

lemma greeting_start: "greeting node (connection_start True node connection_new)"
  by (simp add: greeting_def connection_start_def do_send_id_def connection_new_def)

lemma greeting_done: "greeting node c \<Longrightarrow> reader c = Reading_header \<Longrightarrow> sim c (conn_start node)"
  by (auto simp: greeting_def sim_def conn_start_def split: option.splits)

lemma sim_reads:
  assumes "sim c a" "conn_moves ms (conn_start node) a" "\<forall>(l, p) \<in> set ms. length p < 4294967296"
  shows "read_stream (wire_out c) =
    Some (node, map (\<lambda>(l, p). (lane_code l, p)) (take (length ms - length (wire_outbox c)) ms))"
proof -
  obtain k where k: "k \<le> length ms" "k + length (outbox a) = length ms"
    "socket_out a = put32 node @ frames (take k ms)" "outbox a = map (\<lambda>(l, p). frame_bytes l p) (drop k ms)"
    using conn_moves_bytes [OF assms(2)] by blast
  obtain part where part: "wire_out c = socket_out a @ part" "outbox a = [] \<longrightarrow> part = []"
    "outbox a \<noteq> [] \<longrightarrow> (\<exists>r. r \<noteq> [] \<and> hd (outbox a) = part @ r)"
    using assms(1) by (auto simp: sim_def split: option.splits if_splits)
  have small: "\<forall>(l, p) \<in> set (take k ms). length p < 4294967296" using assms(3) by (auto dest: in_set_takeD)
  have n: "length ms - length (wire_outbox c) = k" using k(2) assms(1) by (simp add: sim_def)
  have "\<exists>l p. length p < 4294967296 \<and> (\<exists>j < length (frame_bytes l p). part = take j (frame_bytes l p))"
  proof (cases "outbox a")
    case Nil
    then show ?thesis using part(2) by (intro exI [of _ Control] exI [of _ "[]"] conjI exI [of _ 0]) (auto simp: frame_bytes_def)
  next
    case (Cons f fs)
    then have "k < length ms" using k(2) by simp
    then obtain l p where lp: "ms ! k = (l, p)" "length p < 4294967296"
      using assms(3) nth_mem by (metis (no_types, lifting) case_prodE)
    have "f = frame_bytes l p"
      using k(4) Cons lp(1) \<open>k < length ms\<close> by (simp add: Cons_nth_drop_Suc [symmetric])
    moreover obtain r where "r \<noteq> []" "f = part @ r" using part(3) Cons by auto
    ultimately have "length part < length (frame_bytes l p)" "part = take (length part) (frame_bytes l p)"
      by (simp_all flip: \<open>f = frame_bytes l p\<close>)
    with lp(2) show ?thesis by blast
  qed
  then obtain l p j where "length p < 4294967296" "j < length (frame_bytes l p)" "part = take j (frame_bytes l p)" by blast
  from frame_at_end [OF small this(1,2), of node] this(3) k(3) part(1) n show ?thesis by simp
qed

section \<open>Properties\<close>

text \<open>C25: once the write of the node id has succeeded before any message was posted, whatever follows
  (messages, writes that hand over any number of bytes at a time, failing writes, closing) is a run
  of the connection that writes whole frames, with the same queue and at most one write pending,
  and the peer reads the id and exactly the messages that have left the queue, in order; the
  piece of a frame at the end never yields a message.\<close>

theorem connection_refines_queue:
  assumes "c0 = wire_run pre (connection_start True node connection_new)" and "posted pre = []"
    and "reader c0 = Reading_header" and "c = wire_run evs c0" and "\<forall>(l, p) \<in> set (posted evs). length p < 4294967296"
  shows "(\<exists>a. conn_moves (posted evs) (conn_start node) a \<and> wire_outbox c = outbox a \<and>
      (in_flight a \<longleftrightarrow> writes_pending c = 1) \<and> writes_pending c \<le> 1) \<and>
    read_stream (wire_out c) =
      Some (node, map (\<lambda>(l, p). (lane_code l, p)) (take (length (posted evs) - length (wire_outbox c)) (posted evs)))"
proof -
  have "greeting node c0" using greeting_run [OF greeting_start assms(2)] assms(1) by simp
  from sim_run [OF greeting_done [OF this assms(3)] moves_none, of evs]
  obtain a where a: "conn_moves (posted evs) (conn_start node) a" "sim c a" using assms(4) by auto
  have "wire_outbox c = outbox a" "in_flight a \<longleftrightarrow> writes_pending c = 1" "writes_pending c \<le> 1"
    using a(2) by (auto simp: sim_def)
  with a(1) sim_reads [OF a(2,1) assms(5)] show ?thesis by blast
qed

theorem connection_refines_queue_witness:
  "read_stream (wire_out (wire_run [Post_send Control [7], Post_send Heavy [9], Frame_out 3, Frame_out 6, Frame_out 5, Frame_error]
     (wire_run [Id_bytes 1, Id_bytes 3] (connection_start True 5 connection_new)))) = Some (5, [(0, [7])])"
proof -
  let ?c0 = "wire_run [Id_bytes 1, Id_bytes 3] (connection_start True 5 connection_new)"
  let ?evs = "[Post_send Control [7], Post_send Heavy [9], Frame_out 3, Frame_out 6, Frame_out 5, Frame_error]"
  have "reader ?c0 = Reading_header" "length (wire_outbox (wire_run ?evs ?c0)) = 1" by code_simp+
  moreover have "\<forall>(l, p) \<in> set (posted ?evs). length p < 4294967296" by simp
  ultimately show ?thesis
    using connection_refines_queue [of ?c0 "[Id_bytes 1, Id_bytes 3]" 5 "wire_run ?evs ?c0" ?evs, OF refl _ _ refl] by simp
qed

text \<open>A message sent right after \<^verbatim>\<open>connect\<close>: the queue is empty, so \<^verbatim>\<open>send\<close> starts a write while the one of
  the id is pending. A program may not have two such writes on one socket; their bytes can
  mix, and then the peer reads another id.\<close>

theorem send_before_id_overlaps:
  "writes_pending (wire_run [Post_send l p] (connection_start True node connection_new)) = 2"
  "read_stream (wire_out (wire_run [Post_send Control [], Id_bytes 1, Frame_out 8, Id_bytes 3]
     (connection_start True 256 connection_new))) = Some (0, [])"
  subgoal by (simp add: wire_defs connection_start_def do_send_id_def connection_new_def)
  subgoal by code_simp
  done

end
