(* ===== verification/Bench_Ycsb.thy ===== *)
theory Bench_Ycsb
  imports Decimal
begin

text \<open>
  The load generator \<^verbatim>\<open>tests_cpp/bench_ycsb.cpp\<close>: its arguments and host list, the load phase, the
  workers, the totals it reports and the whole program. The cluster client and the documents are libraries outside
  the repository and enter as a record of functions on a client state; random draws are inputs.
  Shown: the host list reads back what it was written from, and what the reported numbers mean.
\<close>

section \<open>Keys, records and hosts\<close>

definition FIELD_LENGTH :: nat where "FIELD_LENGTH = 100"
definition FIELD_COUNT :: nat where "FIELD_COUNT = 10"
definition READ_PERCENTAGE :: nat where "READ_PERCENTAGE = 50"

definition charset :: bytes where
  "charset = lit ''0123456789ABCDEFGHIJKLMNOPQRSTUVWXYZabcdefghijklmnopqrstuvwxyz''"

text \<open>The draws are numbers from 0 to the last index of the character set.\<close>

definition random_string :: "nat \<Rightarrow> nat list \<Rightarrow> bytes" where
  "random_string len draws = map (\<lambda>i. charset ! (draws ! i)) [0..<len]"

definition build_key :: "int \<Rightarrow> bytes" where
  "build_key key_id = lit ''user'' @ to_string key_id"

definition build_record :: "int \<Rightarrow> nat list list \<Rightarrow> (bytes \<times> (int + bytes)) list" where
  "build_record key_id draws =
     (lit ''id'', Inl key_id) #
     map (\<lambda>i. (lit ''field'' @ to_string (int i), Inr (random_string FIELD_LENGTH (draws ! i)))) [0..<FIELD_COUNT]"

record Host =
  host_address :: bytes
  host_port :: int

text \<open>\<^verbatim>\<open>std::stoi\<close>: the reading of \<^verbatim>\<open>stoll\<close> within 32 bits.\<close>

definition stoi :: "bytes \<Rightarrow> stoll_error + int" where
  "stoi bs =
     (case stoll bs of
        Inl e \<Rightarrow> Inl e
      | Inr v \<Rightarrow> if - (2 ^ 31) \<le> v \<and> v < 2 ^ 31 then Inr v else Inl Out_of_range)"

lemma parse_hosts_shorter:
  "dropWhile P arg \<noteq> [] \<Longrightarrow> length (drop (n + 1) (dropWhile P arg)) < length arg"
  using length_dropWhile_le [of P arg] by (cases "dropWhile P arg") auto

function parse_hosts :: "bytes \<Rightarrow> stoll_error + Host list" where
  "parse_hosts arg =
     (let rest = dropWhile (\<lambda>b. b = 44) arg in
      if rest = [] then Inr []
      else
        (let token = takeWhile (\<lambda>b. b \<noteq> 44) rest;
             arg' = drop (length token + 1) rest
         in case split_colon token of
              None \<Rightarrow> parse_hosts arg'
            | Some (address, port) \<Rightarrow>
                (case stoi port of
                   Inl e \<Rightarrow> Inl e
                 | Inr p \<Rightarrow>
                     (case parse_hosts arg' of
                        Inl e \<Rightarrow> Inl e
                      | Inr hs \<Rightarrow> Inr (\<lparr>host_address = address, host_port = p\<rparr> # hs)))))"
  by pat_completeness auto

termination
  by (relation "measure length")
    (use parse_hosts_shorter [where P = "\<lambda>b. b = 44"] in \<open>auto simp del: length_drop dropWhile_eq_Nil_conv\<close>)

declare parse_hosts.simps [simp del]

section \<open>The client\<close>

text \<open>A call returns a value, reports an error, or throws.\<close>

datatype 'r outcome = Value 'r | Failed | Raised

record ('c, 'd) smart_client =
  connect :: "Host \<Rightarrow> 'c \<Rightarrow> bool \<times> 'c"
  client_put :: "bytes \<Rightarrow> (bytes \<times> (int + bytes)) list \<Rightarrow> 'c \<Rightarrow> bool \<times> 'c"
  client_get :: "bytes \<Rightarrow> 'c \<Rightarrow> 'd outcome \<times> 'c"
  client_patch_str :: "bytes \<Rightarrow> bytes \<Rightarrow> bytes \<Rightarrow> 'c \<Rightarrow> unit outcome \<times> 'c"
  read_field :: "'d \<Rightarrow> bytes \<Rightarrow> bytes option"

text \<open>The load phase: the number of failed puts, or nothing if it could not connect. Without a host the
  first element of an empty vector is read, which is undefined (\<open>None\<close>).\<close>

fun load_loop :: "('c, 'd) smart_client \<Rightarrow> nat list list list \<Rightarrow> int \<Rightarrow> nat \<Rightarrow> 'c \<Rightarrow> nat \<times> 'c" where
  "load_loop C [] i n c = (n, c)"
| "load_loop C (draws # rest) i n c =
     (let (ok, c') = client_put C (build_key i) (build_record i draws) c
      in load_loop C rest (i + 1) (if ok then n else n + 1) c')"

definition load_phase :: "('c, 'd) smart_client \<Rightarrow> nat list list list \<Rightarrow> Host list \<Rightarrow> 'c \<Rightarrow> (nat option \<times> 'c) option" where
  "load_phase C draws hosts c =
     (case hosts of
        [] \<Rightarrow> None
      | h # _ \<Rightarrow>
          (let (ok, c1) = connect C h c
           in if \<not> ok then Some (None, c1)
              else let (n, c2) = load_loop C draws 0 0 c1 in Some (Some n, c2)))"

section \<open>Workers\<close>

record ThreadResult =
  reads :: int
  updates :: int
  errors :: int

definition no_result :: ThreadResult where
  "no_result = \<lparr>reads = 0, updates = 0, errors = 0\<rparr>"

text \<open>One operation with its draws: a key, a number below 100, and the text for an update. The flag says
  whether the loop goes on; an exception of the client ends it.\<close>

definition one_op :: "('c, 'd) smart_client \<Rightarrow> int \<times> nat \<times> nat list \<Rightarrow> ThreadResult \<Rightarrow> 'c \<Rightarrow>
    bool \<times> ThreadResult \<times> 'c" where
  "one_op C x res c =
     (case x of (key_id, op, draws) \<Rightarrow>
        if op < READ_PERCENTAGE then
          (case client_get C (build_key key_id) c of
             (Value d, c') \<Rightarrow>
               (let res1 = (case read_field C d (lit ''field0'') of
                              Some s \<Rightarrow> if s = [] then res\<lparr>errors := errors res + 1\<rparr> else res
                            | None \<Rightarrow> res\<lparr>errors := errors res + 1\<rparr>)
                in (True, res1\<lparr>reads := reads res1 + 1\<rparr>, c'))
           | (Failed, c') \<Rightarrow> (True, res\<lparr>errors := errors res + 1\<rparr>, c')
           | (Raised, c') \<Rightarrow> (False, res\<lparr>errors := errors res + 1\<rparr>, c'))
        else
          (case client_patch_str C (build_key key_id) (lit ''field0'') (random_string FIELD_LENGTH draws) c of
             (Value _, c') \<Rightarrow> (True, res\<lparr>updates := updates res + 1\<rparr>, c')
           | (Failed, c') \<Rightarrow> (True, res\<lparr>errors := errors res + 1, updates := updates res + 1\<rparr>, c')
           | (Raised, c') \<Rightarrow> (False, res\<lparr>errors := errors res + 1\<rparr>, c')))"

fun worker_loop :: "('c, 'd) smart_client \<Rightarrow> (int \<times> nat \<times> nat list) list \<Rightarrow> ThreadResult \<Rightarrow> 'c \<Rightarrow> ThreadResult \<times> 'c" where
  "worker_loop C [] res c = (res, c)"
| "worker_loop C (x # xs) res c =
     (case one_op C x res c of (go, res', c') \<Rightarrow> if go then worker_loop C xs res' c' else (res', c'))"

text \<open>The draws of a worker are as many as its operations.\<close>

definition run_worker :: "('c, 'd) smart_client \<Rightarrow> nat \<Rightarrow> int \<Rightarrow> (int \<times> nat \<times> nat list) list \<Rightarrow> Host list \<Rightarrow> 'c \<Rightarrow>
    ThreadResult \<times> 'c" where
  "run_worker C thread_id ops xs hosts c =
     (let (ok, c1) = connect C (hosts ! (thread_id mod length hosts)) c
      in if \<not> ok then (no_result\<lparr>errors := ops\<rparr>, c1) else worker_loop C xs no_result c1)"

section \<open>Totals\<close>

text \<open>The share of each thread. Zero threads divide by zero (\<open>None\<close>); a negative number is no size of a
  vector, which throws.\<close>

datatype bench_error = Length_error

definition ops_per_thread :: "int \<Rightarrow> int \<Rightarrow> (bench_error + int) option" where
  "ops_per_thread operation_count threads =
     (if threads = 0 then None
      else if threads < 0 then Some (Inl Length_error)
      else Some (Inr (if operation_count < 0 then - ((- operation_count) div threads) else operation_count div threads)))"

definition totals :: "ThreadResult list \<Rightarrow> ThreadResult" where
  "totals rs = \<lparr>reads = sum_list (map reads rs), updates = sum_list (map updates rs), errors = sum_list (map errors rs)\<rparr>"

definition total_ops :: "ThreadResult \<Rightarrow> int" where
  "total_ops t = reads t + updates t"

section \<open>Arguments\<close>

record bench_args =
  arg_threads :: int
  arg_ops :: int
  arg_records :: int
  arg_skip_load :: bool
  arg_hosts :: "Host list"

definition default_args :: bench_args where
  "default_args = \<lparr>arg_threads = 1, arg_ops = 1000, arg_records = 10000, arg_skip_load = False, arg_hosts = []\<rparr>"

fun parse_args :: "bytes list \<Rightarrow> bench_args \<Rightarrow> stoll_error + bench_args" where
  "parse_args [] a = Inr a"
| "parse_args [x] a = Inr (if x = lit ''--skip-load'' then a\<lparr>arg_skip_load := True\<rparr> else a)"
| "parse_args (x # y # rest) a =
     (if x = lit ''--threads'' then (case stoi y of Inl e \<Rightarrow> Inl e | Inr v \<Rightarrow> parse_args rest (a\<lparr>arg_threads := v\<rparr>))
      else if x = lit ''--ops'' then (case stoi y of Inl e \<Rightarrow> Inl e | Inr v \<Rightarrow> parse_args rest (a\<lparr>arg_ops := v\<rparr>))
      else if x = lit ''--records'' then (case stoi y of Inl e \<Rightarrow> Inl e | Inr v \<Rightarrow> parse_args rest (a\<lparr>arg_records := v\<rparr>))
      else if x = lit ''--skip-load'' then parse_args (y # rest) (a\<lparr>arg_skip_load := True\<rparr>)
      else if x = lit ''--hosts'' then (case parse_hosts y of Inl e \<Rightarrow> Inl e | Inr hs \<Rightarrow> parse_args rest (a\<lparr>arg_hosts := hs\<rparr>))
      else parse_args (y # rest) a)"

definition bench_hosts :: "bench_args \<Rightarrow> Host list" where
  "bench_hosts a = (if arg_hosts a = [] then [\<lparr>host_address = lit ''127.0.0.1'', host_port = 8080\<rparr>] else arg_hosts a)"

section \<open>The run\<close>

text \<open>
  The concurrent phase: thread \<open>i\<close> has the draws \<open>draws i 0, draws i 1, ...\<close> and starts from the client state
  \<open>cs i\<close>; every thread writes its own slot of \<^verbatim>\<open>results\<close>, and the totals are taken when all have been joined.
\<close>

definition run_phase_concurrent :: "('c, 'd) smart_client \<Rightarrow> (nat \<Rightarrow> nat \<Rightarrow> int \<times> nat \<times> nat list) \<Rightarrow> (nat \<Rightarrow> 'c) \<Rightarrow>
    int \<Rightarrow> int \<Rightarrow> Host list \<Rightarrow> (bench_error + ThreadResult) option" where
  "run_phase_concurrent C draws cs operation_count threads hosts =
     (case ops_per_thread operation_count threads of
        None \<Rightarrow> None
      | Some (Inl e) \<Rightarrow> Some (Inl e)
      | Some (Inr k) \<Rightarrow>
          Some (Inr (totals (map (\<lambda>i. fst (run_worker C i k (map (draws i) [0..<nat k]) hosts (cs i))) [0..<nat threads]))))"

text \<open>How the program ends: an exception while the arguments are read is caught by nobody, one of the run
  gives exit code 1, and otherwise the totals are printed. \<open>None\<close> is the division by zero.\<close>

datatype bench_end = Uncaught stoll_error | Exit_1 bench_error | Exit_0 ThreadResult

definition ycsb_main :: "('c, 'd) smart_client \<Rightarrow> (nat \<Rightarrow> nat list list) \<Rightarrow> (nat \<Rightarrow> nat \<Rightarrow> int \<times> nat \<times> nat list) \<Rightarrow>
    ('c \<Rightarrow> nat \<Rightarrow> 'c) \<Rightarrow> bytes list \<Rightarrow> 'c \<Rightarrow> bench_end option" where
  "ycsb_main C record_draws draws client_of args c =
     (case parse_args args default_args of
        Inl e \<Rightarrow> Some (Uncaught e)
      | Inr a \<Rightarrow>
          (let hosts = bench_hosts a in
           case (if arg_skip_load a then Some c
                 else map_option snd (load_phase C (map record_draws [0..<nat (arg_records a)]) hosts c)) of
             None \<Rightarrow> None
           | Some c1 \<Rightarrow>
               (case run_phase_concurrent C draws (client_of c1) (arg_ops a) (arg_threads a) hosts of
                  None \<Rightarrow> None
                | Some (Inl e) \<Rightarrow> Some (Exit_1 e)
                | Some (Inr t) \<Rightarrow> Some (Exit_0 t))))"

section \<open>The host list reads back\<close>

definition host_text :: "Host \<Rightarrow> bytes" where
  "host_text h = host_address h @ [58] @ to_string (host_port h)"

definition plain_host :: "Host \<Rightarrow> bool" where
  "plain_host h \<longleftrightarrow> 58 \<notin> set (host_address h) \<and> 44 \<notin> set (host_address h) \<and>
     - (2 ^ 31) \<le> host_port h \<and> host_port h < 2 ^ 31"

fun hosts_text :: "Host list \<Rightarrow> bytes" where
  "hosts_text [] = []"
| "hosts_text (h # hs) = host_text h @ [44] @ hosts_text hs"

lemma to_string_no_comma: "44 \<notin> set (to_string v)"
  using dec_digits_all [of 44] by (auto simp: to_string_def is_digit_def)

lemma stoi_to_string: "- (2 ^ 31) \<le> v \<Longrightarrow> v < 2 ^ 31 \<Longrightarrow> stoi (to_string v) = Inr v"
  by (simp add: stoi_def stoll_to_string)

lemma host_text_first:
  assumes "plain_host h"
  shows "\<exists>b bs. host_text h = b # bs \<and> b \<noteq> 44" "44 \<notin> set (host_text h)"
proof -
  show "44 \<notin> set (host_text h)" using assms to_string_no_comma by (simp add: plain_host_def host_text_def)
  moreover have "host_text h \<noteq> []" by (simp add: host_text_def)
  ultimately show "\<exists>b bs. host_text h = b # bs \<and> b \<noteq> 44" by (cases "host_text h") auto
qed

lemma parse_one_host:
  assumes "plain_host h"
  shows "parse_hosts (host_text h @ [44] @ rest) =
    (case parse_hosts rest of Inl e \<Rightarrow> Inl e | Inr hs \<Rightarrow> Inr (h # hs))"
proof -
  let ?arg = "host_text h @ 44 # rest"
  have d: "dropWhile (\<lambda>b. b = 44) ?arg = ?arg" using host_text_first(1) [OF assms] by auto
  have t: "takeWhile (\<lambda>b. b \<noteq> 44) ?arg = host_text h"
    using host_text_first(2) [OF assms] by (auto simp: takeWhile_append takeWhile_eq_all_conv)
  have c: "split_colon (host_text h) = Some (host_address h, to_string (host_port h))"
    using assms by (simp add: host_text_def plain_host_def split_colon_join [simplified])
  show ?thesis
    using assms stoi_to_string [of "host_port h"]
    by (subst parse_hosts.simps) (simp add: d t c Let_def plain_host_def del: dropWhile_eq_Nil_conv split: sum.splits)
qed

text \<open>A list of hosts written with commas is read back as that list; spare commas in front are skipped.\<close>

theorem parse_hosts_roundtrip:
  assumes "list_all plain_host hs"
  shows "parse_hosts (replicate n 44 @ hosts_text hs) = Inr hs"
proof -
  have strip: "parse_hosts (replicate n 44 @ xs) = parse_hosts xs" for xs
  proof -
    have "dropWhile (\<lambda>b. b = 44) (replicate n 44 @ xs) = dropWhile (\<lambda>b. b = 44) xs" by (induction n) simp_all
    then show ?thesis by (subst (1 2) parse_hosts.simps) simp
  qed
  have "parse_hosts (hosts_text hs) = Inr hs"
    using assms
  proof (induction hs)
    case Nil
    show ?case by (subst parse_hosts.simps) simp
  next
    case (Cons h hs)
    then show ?case using parse_one_host [of h "hosts_text hs"] by simp
  qed
  then show ?thesis by (simp add: strip)
qed

section \<open>What the totals mean\<close>

lemma one_op_counts:
  assumes "one_op C x res c = (go, res', c')"
  shows "reads res' + updates res' \<le> reads res + updates res + 1" "errors res \<le> errors res'" "errors res' \<le> errors res + 1"
    "reads res + updates res + errors res + 1 \<le> reads res' + updates res' + errors res'"
    "\<not> go \<Longrightarrow> errors res' = errors res + 1"
  using assms by (auto simp: one_op_def Let_def split: prod.splits if_splits outcome.splits option.splits)

lemma worker_loop_counts:
  "worker_loop C xs res c = (res', c') \<Longrightarrow>
   reads res' + updates res' \<le> reads res + updates res + int (length xs) \<and> errors res' \<le> errors res + int (length xs) \<and>
   (errors res' = errors res \<longrightarrow> reads res' + updates res' = reads res + updates res + int (length xs)) \<and> errors res \<le> errors res'"
proof (induction xs arbitrary: res c)
  case (Cons x xs)
  obtain go r1 c1 where o: "one_op C x res c = (go, r1, c1)" by (metis prod_cases3)
  note n = one_op_counts [OF o]
  show ?case
  proof (cases go)
    case True
    with Cons.prems o have "worker_loop C xs r1 c1 = (res', c')" by simp
    with Cons.IH n show ?thesis by fastforce
  qed (use Cons.prems o n in auto)
qed simp

text \<open>The report of a run: with a positive number of threads, each given its share of the operations, the
  reported operations and the reported errors are at most the operations asked for; without
  errors, exactly the shares are reported, which leaves out the remainder of the division.\<close>

lemma run_worker_counts:
  assumes "r = fst (run_worker C i (int (length xs)) xs hosts c)"
  shows "total_ops r \<le> int (length xs) \<and> 0 \<le> errors r \<and> errors r \<le> int (length xs) \<and>
    (errors r = 0 \<longrightarrow> total_ops r = int (length xs))"
proof -
  obtain ok c1 where c1: "connect C (hosts ! (i mod length hosts)) c = (ok, c1)" by fastforce
  obtain res c2 where w: "worker_loop C xs no_result c1 = (res, c2)" by fastforce
  show ?thesis
    using assms c1 w worker_loop_counts [OF w]
    by (cases ok) (simp_all add: run_worker_def total_ops_def no_result_def)
qed

lemma totals_counts:
  assumes "\<forall>r \<in> set rs. total_ops r \<le> k \<and> 0 \<le> errors r \<and> errors r \<le> k \<and> (errors r = 0 \<longrightarrow> total_ops r = k)"
  shows "total_ops (totals rs) \<le> int (length rs) * k \<and> 0 \<le> errors (totals rs) \<and> errors (totals rs) \<le> int (length rs) * k \<and>
    (errors (totals rs) = 0 \<longrightarrow> total_ops (totals rs) = int (length rs) * k)"
  using assms by (induction rs) (auto simp: totals_def total_ops_def algebra_simps)

theorem report_bounds:
  assumes "ops_per_thread n threads = Some (Inr k)" and "0 \<le> n" and "length cs = nat threads"
    and "\<forall>(i, xs, c) \<in> set cs. int (length xs) = k"
    and "t = totals (map (\<lambda>(i, xs, c). fst (run_worker C i k xs hosts c)) cs)"
  shows "total_ops t \<le> n \<and> errors t \<le> n \<and> (errors t = 0 \<longrightarrow> total_ops t = threads * k)"
proof -
  have pos: "0 < threads" and k: "k = n div threads"
    using assms(1,2) by (auto simp: ops_per_thread_def split: if_splits)
  have "threads * k \<le> n" using mult_div_mod_eq [of threads n] pos_mod_sign [OF pos, of n] unfolding k by linarith
  moreover have "int (length cs) = threads" using assms(3) pos by simp
  moreover have "\<forall>r \<in> set (map (\<lambda>(i, xs, c). fst (run_worker C i k xs hosts c)) cs).
      total_ops r \<le> k \<and> 0 \<le> errors r \<and> errors r \<le> k \<and> (errors r = 0 \<longrightarrow> total_ops r = k)"
    using assms(4) run_worker_counts by fastforce
  from totals_counts [OF this] have "total_ops t \<le> int (length cs) * k \<and> errors t \<le> int (length cs) * k \<and>
      (errors t = 0 \<longrightarrow> total_ops t = int (length cs) * k)" using assms(5) by simp
  ultimately show ?thesis by auto
qed

text \<open>The whole program on every branch: there is always a host to talk to, so only zero threads are
  undefined; a negative number of threads exits with 1; otherwise the printed totals are within the
  operations asked for, and without errors they are the shares of all threads.\<close>

lemma load_phase_defined: "hosts \<noteq> [] \<Longrightarrow> \<exists>r. load_phase C draws hosts c = Some r"
  by (cases hosts) (auto simp: load_phase_def Let_def split: prod.splits)

lemma bench_hosts_nonempty: "bench_hosts a \<noteq> []"
  by (simp add: bench_hosts_def)

lemma run_phase_report:
  assumes "run_phase_concurrent C draws cs n threads hosts = Some (Inr t)" "0 \<le> n"
  shows "total_ops t \<le> n \<and> errors t \<le> n \<and> (errors t = 0 \<longrightarrow> total_ops t = threads * (n div threads))"
proof -
  obtain k where k: "ops_per_thread n threads = Some (Inr k)"
    "t = totals (map (\<lambda>i. fst (run_worker C i k (map (draws i) [0..<nat k]) hosts (cs i))) [0..<nat threads])"
    using assms(1) by (auto simp: run_phase_concurrent_def split: option.splits sum.splits)
  have kd: "k = n div threads" "0 < threads" using k(1) assms(2) by (auto simp: ops_per_thread_def split: if_splits)
  then have "0 \<le> k" using assms(2) by (simp add: pos_imp_zdiv_nonneg_iff)
  let ?cs = "map (\<lambda>i. (i, map (draws i) [0..<nat k], cs i)) [0..<nat threads]"
  have "t = totals (map (\<lambda>(i, xs, c). fst (run_worker C i k xs hosts c)) ?cs)" using k(2) by (simp add: comp_def)
  moreover have "\<forall>(i, xs, c) \<in> set ?cs. int (length xs) = k" using \<open>0 \<le> k\<close> by auto
  ultimately have "total_ops t \<le> n \<and> errors t \<le> n \<and> (errors t = 0 \<longrightarrow> total_ops t = threads * k)"
    using report_bounds [OF k(1) assms(2), of ?cs t C hosts] by simp
  then show ?thesis using kd(1) by simp
qed

theorem ycsb_main_outcomes:
  assumes "parse_args args default_args = Inr a" and "0 \<le> arg_ops a"
  shows "(ycsb_main C record_draws draws client_of args c = None \<longleftrightarrow> arg_threads a = 0) \<and>
    (arg_threads a < 0 \<longrightarrow> ycsb_main C record_draws draws client_of args c = Some (Exit_1 Length_error)) \<and>
    (0 < arg_threads a \<longrightarrow> (\<exists>t. ycsb_main C record_draws draws client_of args c = Some (Exit_0 t) \<and>
       total_ops t \<le> arg_ops a \<and> errors t \<le> arg_ops a \<and>
       (errors t = 0 \<longrightarrow> total_ops t = arg_threads a * (arg_ops a div arg_threads a))))"
proof -
  obtain c1 where c1: "(if arg_skip_load a then Some c
      else map_option snd (load_phase C (map record_draws [0..<nat (arg_records a)]) (bench_hosts a) c)) = Some c1"
    using load_phase_defined [OF bench_hosts_nonempty, of C _ a c] by (metis option.simps(9))
  let ?p = "run_phase_concurrent C draws (client_of c1) (arg_ops a) (arg_threads a) (bench_hosts a)"
  have m: "ycsb_main C record_draws draws client_of args c =
      (case ?p of None \<Rightarrow> None | Some (Inl e) \<Rightarrow> Some (Exit_1 e) | Some (Inr t) \<Rightarrow> Some (Exit_0 t))"
    unfolding ycsb_main_def assms(1) sum.case Let_def c1 by simp
  consider "arg_threads a = 0" | "arg_threads a < 0" | t where "0 < arg_threads a" "?p = Some (Inr t)"
    by (cases "arg_threads a" "0 :: int" rule: linorder_cases) (auto simp: run_phase_concurrent_def ops_per_thread_def)
  then show ?thesis
  proof cases
    case (3 t)
    with run_phase_report [OF 3(2) assms(2)] m show ?thesis by simp
  qed (simp_all add: m run_phase_concurrent_def ops_per_thread_def)
qed

end
