(* ===== verification/Bench_Twitter.thy ===== *)
theory Bench_Twitter
  imports Bench_Ycsb "HOL-Library.AList"
begin

text \<open>
  The benchmark \<^verbatim>\<open>tests_cpp/bench_twitter.cpp\<close>: a counter in a document is incremented by reading, changing
  and writing the document, and by patching the field on the server. The client and \<^verbatim>\<open>nlohmann::json\<close> are
  outside the repository and enter as a record of functions. Shown: over a service that
  answers every call the two ways leave the same document, and how the program ends.
\<close>

section \<open>The client and the documents\<close>

text \<open>\<^verbatim>\<open>put\<close> and \<^verbatim>\<open>patch_int\<close> say whether they succeeded, \<^verbatim>\<open>get\<close> returns the text unless it failed. Parsing and
  reading the number may throw (\<open>None\<close>). The type \<open>'t\<close> is that of the JSON texts.
  Calls of the client are taken not to throw.\<close>

record ('c, 'j, 't) profile_client =
  pc_put :: "bytes \<Rightarrow> 't \<Rightarrow> 'c \<Rightarrow> bool \<times> 'c"
  pc_get :: "bytes \<Rightarrow> 'c \<Rightarrow> 't option \<times> 'c"
  pc_patch_int :: "bytes \<Rightarrow> bytes \<Rightarrow> int \<Rightarrow> 'c \<Rightarrow> bool \<times> 'c"
  pj_object :: "(bytes \<times> (int + bytes)) list \<Rightarrow> 'j"
  pj_parse :: "'t \<Rightarrow> 'j option"
  pj_dump :: "'j \<Rightarrow> 't"
  pj_get_int :: "bytes \<Rightarrow> 'j \<Rightarrow> int option"
  pj_set_int :: "bytes \<Rightarrow> int \<Rightarrow> 'j \<Rightarrow> 'j"

definition initial_profile :: "('c, 'j, 't) profile_client \<Rightarrow> 'j" where
  "initial_profile P = pj_object P
     [(lit ''id'', Inl 12345), (lit ''handle'', Inr (lit ''antigravity_ai'')), (lit ''followers'', Inl 1000),
      (lit ''following'', Inl 500), (lit ''tweets'', Inl 42)]"

text \<open>A signed 32-bit sum; overflow is undefined (\<open>None\<close>).\<close>

definition int_sum :: "int \<Rightarrow> int \<Rightarrow> int option" where
  "int_sum a b = (if - (2 ^ 31) \<le> a + b \<and> a + b < 2 ^ 31 then Some (a + b) else None)"

section \<open>The two loops\<close>

definition rmw_round :: "('c, 'j, 't) profile_client \<Rightarrow> bytes \<Rightarrow> 'c \<Rightarrow> 'c option" where
  "rmw_round P key c =
     (case pc_get P key c of
        (None, c1) \<Rightarrow> Some c1
      | (Some body, c1) \<Rightarrow>
          (case pj_parse P body of
             None \<Rightarrow> Some c1
           | Some j \<Rightarrow>
               (case pj_get_int P (lit ''followers'') j of
                  None \<Rightarrow> Some c1
                | Some v \<Rightarrow>
                    (case int_sum v 1 of
                       None \<Rightarrow> None
                     | Some v' \<Rightarrow> Some (snd (pc_put P key (pj_dump P (pj_set_int P (lit ''followers'') v' j)) c1))))))"

fun rmw_loop :: "('c, 'j, 't) profile_client \<Rightarrow> bytes \<Rightarrow> nat \<Rightarrow> 'c \<Rightarrow> 'c option" where
  "rmw_loop P key 0 c = Some c"
| "rmw_loop P key (Suc n) c = (case rmw_round P key c of None \<Rightarrow> None | Some c' \<Rightarrow> rmw_loop P key n c')"

definition run_rmw_benchmark :: "('c, 'j, 't) profile_client \<Rightarrow> int \<Rightarrow> 'c \<Rightarrow> 'c option" where
  "run_rmw_benchmark P iterations c =
     (let key = lit ''twitter_profile_rmw'';
          (ok, c1) = pc_put P key (pj_dump P (initial_profile P)) c
      in rmw_loop P key (nat iterations) c1)"

fun zeroparse_loop :: "('c, 'j, 't) profile_client \<Rightarrow> bytes \<Rightarrow> int \<Rightarrow> nat \<Rightarrow> 'c \<Rightarrow> 'c option" where
  "zeroparse_loop P key i 0 c = Some c"
| "zeroparse_loop P key i (Suc n) c =
     (case int_sum 1001 i of
        None \<Rightarrow> None
      | Some v \<Rightarrow> zeroparse_loop P key (i + 1) n (snd (pc_patch_int P key (lit ''followers'') v c)))"

definition run_zeroparse_benchmark :: "('c, 'j, 't) profile_client \<Rightarrow> int \<Rightarrow> 'c \<Rightarrow> 'c option" where
  "run_zeroparse_benchmark P iterations c =
     (let key = lit ''twitter_profile_zp'';
          (ok, c1) = pc_put P key (pj_dump P (initial_profile P)) c
      in zeroparse_loop P key 0 (nat iterations) c1)"

text \<open>\<^verbatim>\<open>stoi\<close> is called before the \<^verbatim>\<open>try\<close>, so a bad argument ends the process; \<open>Inr None\<close> is an overflow.\<close>

definition twitter_main :: "('c, 'j, 't) profile_client \<Rightarrow> bytes list \<Rightarrow> 'c \<Rightarrow> stoll_error + 'c option" where
  "twitter_main P args c =
     (case (case args of [] \<Rightarrow> Inr 10000 | a # _ \<Rightarrow> stoi a) of
        Inl e \<Rightarrow> Inl e
      | Inr iterations \<Rightarrow>
          Inr (case run_rmw_benchmark P iterations c of
                 None \<Rightarrow> None
               | Some c1 \<Rightarrow> run_zeroparse_benchmark P iterations c1))"

section \<open>A service that answers\<close>

text \<open>
  What the loops rely on: \<open>doc c k\<close> is the document the service would return for the key \<open>k\<close>. A \<^verbatim>\<open>put\<close>
  replaces the document of its key and no other, a patch sets one field, and reading changes nothing.
  The laws of the JSON values are those of \<^verbatim>\<open>nlohmann::json\<close>.
\<close>

definition answering :: "('c, 'j, 't) profile_client \<Rightarrow> ('c \<Rightarrow> bytes \<Rightarrow> 'j option) \<Rightarrow> bool" where
  "answering P doc \<longleftrightarrow>
     (\<forall>k j c. doc (snd (pc_put P k (pj_dump P j) c)) = (doc c)(k \<mapsto> j)) \<and>
     (\<forall>k j c. doc c k = Some j \<longrightarrow> pc_get P k c = (Some (pj_dump P j), c)) \<and>
     (\<forall>k j f v c. doc c k = Some j \<longrightarrow> doc (snd (pc_patch_int P k f v c)) = (doc c)(k \<mapsto> pj_set_int P f v j)) \<and>
     (\<forall>j. pj_parse P (pj_dump P j) = Some j) \<and>
     (\<forall>f v j. pj_get_int P f (pj_set_int P f v j) = Some v) \<and>
     (\<forall>f v w j. pj_set_int P f w (pj_set_int P f v j) = pj_set_int P f w j) \<and>
     (\<forall>f fs. pj_get_int P f (pj_object P fs) = (case map_of fs f of Some (Inl v) \<Rightarrow> Some v | _ \<Rightarrow> None))"

lemma answering_laws:
  assumes "answering P doc"
  shows put_doc: "doc (snd (pc_put P k (pj_dump P j) c)) = (doc c)(k \<mapsto> j)"
    and get_doc: "doc c k = Some j \<Longrightarrow> pc_get P k c = (Some (pj_dump P j), c)"
    and patch_doc: "doc c k = Some j \<Longrightarrow> doc (snd (pc_patch_int P k f v c)) = (doc c)(k \<mapsto> pj_set_int P f v j)"
    and parse_dump: "pj_parse P (pj_dump P j) = Some j"
    and get_set: "pj_get_int P f (pj_set_int P f v j) = Some v"
    and set_set: "pj_set_int P f w (pj_set_int P f v j) = pj_set_int P f w j"
    and get_object: "pj_get_int P f (pj_object P fs) = (case map_of fs f of Some (Inl v) \<Rightarrow> Some v | _ \<Rightarrow> None)"
  using assms by (simp_all add: answering_def)

abbreviation profile :: "('c, 'j, 't) profile_client \<Rightarrow> int \<Rightarrow> 'j" where
  "profile P v \<equiv> pj_set_int P (lit ''followers'') v (initial_profile P)"

lemma initial_followers: "answering P doc \<Longrightarrow> pj_get_int P (lit ''followers'') (initial_profile P) = Some 1000"
  by (simp add: initial_profile_def get_object lit_def)

lemma rmw_round_doc:
  assumes law: "answering P doc" and "doc c key = Some j" "pj_get_int P (lit ''followers'') j = Some v" "- (2 ^ 31) \<le> v + 1" "v + 1 < 2 ^ 31"
  shows "\<exists>c'. rmw_round P key c = Some c' \<and> doc c' = (doc c)(key \<mapsto> pj_set_int P (lit ''followers'') (v + 1) j)"
  using assms by (simp add: rmw_round_def get_doc [OF law assms(2)] parse_dump [OF law] int_sum_def put_doc [OF law])

lemma rmw_loop_doc:
  assumes law: "answering P doc" and "doc c key = Some j" "pj_get_int P (lit ''followers'') j = Some v" "0 \<le> v" "v + int n < 2 ^ 31"
  shows "\<exists>c'. rmw_loop P key n c = Some c' \<and>
    doc c' = (if n = 0 then doc c else (doc c)(key \<mapsto> pj_set_int P (lit ''followers'') (v + int n) j))"
  using assms
proof (induction n arbitrary: c j v)
  case (Suc n)
  let ?j = "pj_set_int P (lit ''followers'') (v + 1) j"
  obtain c1 where c1: "rmw_round P key c = Some c1" "doc c1 = (doc c)(key \<mapsto> ?j)"
    using rmw_round_doc [OF law Suc.prems(2,3)] Suc.prems(4,5) by auto
  from Suc.IH [of c1 ?j "v + 1"] c1 Suc.prems show ?case
    by (cases n) (auto simp: get_set [OF law] set_set [OF law] add_ac)
qed simp

lemma zeroparse_loop_doc:
  assumes law: "answering P doc" and "doc c key = Some j" "0 \<le> i" "1000 + i + int n < 2 ^ 31"
  shows "\<exists>c'. zeroparse_loop P key i n c = Some c' \<and>
    doc c' = (if n = 0 then doc c else (doc c)(key \<mapsto> pj_set_int P (lit ''followers'') (1000 + i + int n) j))"
  using assms
proof (induction n arbitrary: c j i)
  case (Suc n)
  let ?c = "snd (pc_patch_int P key (lit ''followers'') (1001 + i) c)"
  from Suc.IH [of ?c "pj_set_int P (lit ''followers'') (1001 + i) j" "i + 1"] patch_doc [OF law Suc.prems(2)] Suc.prems
  show ?case by (cases n) (auto simp: int_sum_def set_set [OF law] add_ac)
qed simp

text \<open>After both parts the two keys hold the same document, whose counter went up by the number of
  rounds, and no other document has changed.\<close>

theorem benchmarks_agree:
  assumes "answering P doc" and "0 < n" and "n < 2 ^ 31 - 1000"
  shows "\<exists>c1 c2. run_rmw_benchmark P n c = Some c1 \<and> run_zeroparse_benchmark P n c1 = Some c2 \<and>
    doc c2 = (doc c)(lit ''twitter_profile_rmw'' \<mapsto> profile P (1000 + n), lit ''twitter_profile_zp'' \<mapsto> profile P (1000 + n))"
proof -
  let ?r = "lit ''twitter_profile_rmw''" and ?z = "lit ''twitter_profile_zp''" and ?i = "pj_dump P (initial_profile P)"
  have n: "nat n \<noteq> 0" "int (nat n) = n" using assms by auto
  let ?a = "snd (pc_put P ?r ?i c)"
  have a: "doc ?a = (doc c)(?r \<mapsto> initial_profile P)" by (rule put_doc [OF assms(1)])
  obtain c1 where c1: "rmw_loop P ?r (nat n) ?a = Some c1" "doc c1 = (doc c)(?r \<mapsto> profile P (1000 + n))"
    using rmw_loop_doc [OF assms(1), of ?a ?r, OF _ initial_followers [OF assms(1)], of "nat n"] a n assms(2,3) by auto
  let ?b = "snd (pc_put P ?z ?i c1)"
  have b: "doc ?b = (doc c1)(?z \<mapsto> initial_profile P)" by (rule put_doc [OF assms(1)])
  obtain c2 where "zeroparse_loop P ?z 0 (nat n) ?b = Some c2" "doc c2 = (doc c1)(?z \<mapsto> profile P (1000 + n))"
    using zeroparse_loop_doc [OF assms(1), of ?b ?z _ 0 "nat n"] b n assms(2,3) by auto
  with c1 show ?thesis by (auto simp: run_rmw_benchmark_def run_zeroparse_benchmark_def case_prod_beta Let_def)
qed

text \<open>A service that keeps its documents in a table satisfies the laws.\<close>

definition table_client :: "(bytes \<Rightarrow> (bytes \<times> (int + bytes)) list option, (bytes \<times> (int + bytes)) list,
    (bytes \<times> (int + bytes)) list) profile_client" where
  "table_client =
     \<lparr>pc_put = (\<lambda>k t c. (True, c(k \<mapsto> t))), pc_get = (\<lambda>k c. (c k, c)),
      pc_patch_int = (\<lambda>k f v c. (True, c(k := map_option (AList.update f (Inl v)) (c k)))),
      pj_object = (\<lambda>fs. fs), pj_parse = Some, pj_dump = (\<lambda>j. j),
      pj_get_int = (\<lambda>f j. case map_of j f of Some (Inl v) \<Rightarrow> Some v | _ \<Rightarrow> None),
      pj_set_int = (\<lambda>f v j. AList.update f (Inl v) j)\<rparr>"

lemma table_answering: "answering table_client (\<lambda>c. c)"
  by (simp add: answering_def table_client_def update_conv')

theorem benchmarks_agree_witness:
  "\<exists>c1 c2. run_rmw_benchmark table_client 3 (\<lambda>_. None) = Some c1 \<and> run_zeroparse_benchmark table_client 3 c1 = Some c2 \<and>
     c2 (lit ''twitter_profile_rmw'') = c2 (lit ''twitter_profile_zp'')"
proof -
  have "lit ''twitter_profile_zp'' \<noteq> lit ''twitter_profile_rmw''" by (simp add: lit_def)
  with benchmarks_agree [OF table_answering, of 3 "\<lambda>_. None"] show ?thesis by fastforce
qed

end
