(* ===== verification/Spec2Isabelle.thy ===== *)
theory Spec2Isabelle
  imports Clock Replication_Log Merkle Wal_Storage Wal Decimal Store Engine Wal_Startup Mesh Sync
    Double Kalman Thread_Pool Ordered_Map Metrics Http Config Gossip Node Restart Cluster Concurrency
    Disjoint_Writes Connection Bench_Ycsb Bench_Twitter
begin

text \<open>
  \<^bold>\<open>L3KV\<close>, the replicated document store of this repository, as a HOL model of its C++ sources
  (\<^verbatim>\<open>src/src\<close>) and theorems about it.

  \<^bold>\<open>The program.\<close> A node keeps documents in 64 shards (\<^verbatim>\<open>engine/store.hpp\<close>). Every client write takes a
  stamp from a hybrid logical clock (\<^verbatim>\<open>engine/clock.*\<close>), is appended as a batch of the document and
  its \<^verbatim>\<open>:meta\<close> sidecar to a write-ahead log (\<^verbatim>\<open>engine/wal.hpp\<close>), and is then applied; each change
  of a document also changes a leaf of a Merkle tree (\<^verbatim>\<open>engine/merkle.hpp\<close>). Nodes exchange messages
  over a mesh (\<^verbatim>\<open>engine/mesh.*\<close>); the sync manager (\<^verbatim>\<open>engine/sync_manager.hpp\<close>) compares Merkle trees
  and repairs differences by last-writer-wins mutations. Clients use HTTP (\<^verbatim>\<open>http/http_server.*\<close>),
  whose thread pool is sized from a Kalman forecast (\<^verbatim>\<open>http/kalman_filter.hpp\<close>); \<^verbatim>\<open>main.cpp\<close> reads the
  configuration and connects the parts, and \<^verbatim>\<open>observability/simple_metrics.*\<close> counts what they do.

  \<^bold>\<open>Theories.\<close>
  \<^item> \<^verbatim>\<open>L3_Prelude\<close>: machine types, byte strings, little-endian layout, xor algebra. \<^verbatim>\<open>Decimal\<close>: \<^verbatim>\<open>to_string\<close>,
    \<^verbatim>\<open>stoll\<close>, splitting at a colon. \<^verbatim>\<open>Ordered_Map\<close>: \<^verbatim>\<open>std::map\<close> as a sorted association list. \<^verbatim>\<open>Double\<close>: the rounding of
    IEEE binary64 (to nearest, ties to even, subnormals included); an operation on doubles is the
    exact one on reals followed by \<open>rnd\<close>. Shown: it is monotone, keeps doubles, and its error bounds.
  \<^item> \<^verbatim>\<open>Clock\<close>: \<open>hlc\<close> and \<open>tlc\<close> are the members of \<^verbatim>\<open>HybridLogicalClock\<close> and \<^verbatim>\<open>ThreadLocalClock\<close>; readings of
    the system clock are a list argument, and \<open>None\<close> is a call still spinning. Shown: stamps
    increase, respect causality and are unique on a node under every interleaving of its clocks that is
    \<open>orderly\<close> (no received counter is at its maximum, and a call that waits out an exhausted counter sees
    readings that do not go back); that they can repeat otherwise; exactly when \<^verbatim>\<open>now\<close> returns.
  \<^item> \<^verbatim>\<open>Replication_Log\<close>: the bounded queue; it keeps the latest entries in order.
  \<^item> \<^verbatim>\<open>Merkle\<close>: FNV-1a, the five lazily recomputed levels. Shown: equality with the tree computed from
    scratch after any history.
  \<^item> \<^verbatim>\<open>Wal_Storage\<close>, \<^verbatim>\<open>Wal\<close>, \<^verbatim>\<open>Wal_Startup\<close>: positioned file access, the record format with its checksum, the
    recovery loop, and opening the log with all failure branches. The locale \<open>sequential_reader\<close> is
    what recovery needs of a byte source, interpreted on positioned reads. Shown: recovery of any
    prefix of a log replays exactly its complete batches and stops at damage; its limits.
  \<^item> \<^verbatim>\<open>Store\<close>, \<^verbatim>\<open>Engine\<close>: blobs, shards, replay, \<^verbatim>\<open>put\<close>, \<^verbatim>\<open>patch_int\<close>, \<^verbatim>\<open>patch_str\<close>, \<^verbatim>\<open>del\<close>, \<^verbatim>\<open>apply_mutation\<close>.
    The locale \<open>lww_register\<close> is the contract of one key under mutations, interpreted on
    \<open>apply_mutation\<close>. Shown: reads return the last write, the Merkle leaves track the blobs, a crash
    loses only a suffix of unflushed operations, and replicas converge.
  \<^item> \<^verbatim>\<open>Mesh\<close>, \<^verbatim>\<open>Sync\<close>: framing, the outgoing queue, the read loop, all messages and handlers. Shown: frames
    arrive in order, the drill-down finds exactly the differing buckets, a delivered repair copies
    the document; and that with the callback of \<^verbatim>\<open>main.cpp\<close> no repair is ever delivered.
  \<^item> \<^verbatim>\<open>Connection\<close>: a mesh connection byte by byte, with the write of its id, failing writes and closing. Shown:
    it refines the queue of \<open>Mesh\<close> if the id is written before the first message, and that otherwise two
    writes overlap.
  \<^item> \<^verbatim>\<open>Kalman\<close>, \<^verbatim>\<open>Thread_Pool\<close>: the filter, in doubles, and the pool as a step relation (manager ticks and
    threads that take an exit handler). Shown: an update moves the estimate towards the measurement
    up to a stated rounding error and shrinks the variance; the size of the pool stays within its bounds.
  \<^item> \<^verbatim>\<open>Metrics\<close>: counters and reports, latencies in doubles. The locale \<open>recorder\<close> says what recording needs so that
    its order does not matter for a view of the state, interpreted on \<open>record_event\<close>. Shown: only the sums of
    latencies depend on the order, and how far a reported average can be from the mean.
  \<^item> \<^verbatim>\<open>Http\<close>, \<^verbatim>\<open>Config\<close>: requests and replies, routing, redirects, sessions, accept; the configuration
    file, the table of peers and the ring. Shown: the life of a document over HTTP, redirects that
    always name a configured peer, the accounts of a session, and requests that end the process.
  \<^item> \<^verbatim>\<open>Gossip\<close>: the thread of the sync manager, its start, loop and stop; \<open>terminated\<close> is a call of \<^verbatim>\<open>std::terminate\<close> and
    the join a \<open>partial_function\<close>. Shown: under any sequence of calls and steps stops return, nothing is
    terminated, and it gossips exactly while started.
  \<^item> \<^verbatim>\<open>Node\<close>: the whole process. \<open>process\<close> collects the state of all parts, \<open>node_event\<close> has one constructor per
    completion or timer that an executor can deliver, \<open>node_run\<close> runs a list of them; \<open>boot\<close> and \<open>main_end\<close> are
    the start and the end of \<^verbatim>\<open>main\<close>, and \<open>leave_block\<close> the destruction of its locals. Shown: an invariant of every
    reachable state, and with what the process ends on each failure and after a signal.
  \<^item> \<^verbatim>\<open>Restart\<close>: a process started on the log of another serves the same documents.
  \<^item> \<^verbatim>\<open>Cluster\<close>: several processes with the sockets between them, and \<^verbatim>\<open>Mesh::do_accept\<close>. Shown: since the code
    drops accepted connections, no node ever hears another.
  \<^item> \<^verbatim>\<open>Concurrency\<close>: the calls of the engine cut at their locks, and schedules of threads. Shown: a call alone
    is the one-step operation; the Merkle tree is right when all threads have returned; and two
    schedules on one key that go wrong.
  \<^item> \<^verbatim>\<open>Disjoint_Writes\<close>: calls on different keys, over the locale \<open>pending_changes\<close>. Shown: the log always replays
    to the store, and the documents are those of some order of the whole calls.
  \<^item> \<^verbatim>\<open>Bench_Ycsb\<close>, \<^verbatim>\<open>Bench_Twitter\<close>: the load generators, apart from the service. Shown: the host list reads
    back, how the first ends and what its totals bound, and that the two ways of counting of
    the second leave the same document.
  \<^item> This theory: two nodes that write one key concurrently.

  \<^bold>\<open>Parameters.\<close> Code that is not in the repository is an argument: \<^verbatim>\<open>lite3cpp::Buffer\<close>, \<^verbatim>\<open>std::hash\<close> and the
  log writer in the record \<open>env\<close>, the Windows calls and \<^verbatim>\<open>libconveyor\<close> in \<open>wal_os\<close> and the reader
  arguments, \<^verbatim>\<open>nlohmann::json\<close> in \<open>json_api\<close> and \<open>dump_json\<close>, the hash ring in \<open>ring_api\<close>, the printing of
  doubles. Laws of these are hypotheses of the theorems that need them (\<open>json_meta_ok\<close>,
  \<open>object_frame\<close>, \<open>wal_appends\<close>, \<open>flush_keeps\<close>, \<open>ring_law\<close>), and \<open>demo_env\<close>, \<open>demo_api\<close> and \<open>demo_ring\<close> satisfy them.

  \<^bold>\<open>Bounds and fuel.\<close> The recovery loop has fuel \<^verbatim>\<open>fileSize + 1\<close>: every round consumes at least the eleven
  bytes of a header, so it never runs out, which is proved. The drill-down has one round per tree
  level. All other loops are structural or have a termination proof. Theorems about the log ask that
  operations fit its format (\<open>loggable\<close>, \<open>event_ok\<close>: keys below 65531 bytes, no colon in a patched field,
  times within 64 bits); what happens beyond is shown separately.

  \<^bold>\<open>Not modelled.\<close> Data races below a mutex: a step is what runs under one lock, and outside the theories
  \<open>Clock\<close>, \<open>Concurrency\<close> and \<open>Disjoint_Writes\<close> an operation is one step. In \<open>Node\<close> and \<open>Cluster\<close> a connection starts
  with its id written. Overflow of doubles to infinity and NaN, and the cast of the forecast to \<^verbatim>\<open>int\<close> when it
  does not fit; the cast of a sidecar's time beyond 64 bits, and failing allocations. Sockets, timers and executors of \<^verbatim>\<open>boost\<close>:
  their completions are the events. The dashboard page (static text), diagnostic output,
  the times the benchmarks print, and the tests, which drive the service from outside.
\<close>

section \<open>Concurrent writes on two nodes\<close>

text \<open>
  A put as a mutation, of the shape \<^verbatim>\<open>test_store.cpp\<close> feeds to \<^verbatim>\<open>apply_mutation\<close>. This is a notion of the
  specification: the only code that makes mutations is \<^verbatim>\<open>on_put_val\<close>, which takes the bytes of the stored
  buffer and the sidecar; \<open>repair_copies_document\<close> in \<^verbatim>\<open>Sync\<close> is about that path.
\<close>

definition put_mutation :: "Timestamp \<Rightarrow> bytes \<Rightarrow> bytes \<Rightarrow> Mutation" where
  "put_mutation ts key body = \<lparr>mut_timestamp = ts, mut_key = key, mut_value = body, is_delete = False\<rparr>"

lemma put_register:
  assumes "store_inv E (db en)" "hlc_now (eclock en) rs = Some (now, c, rs')"
    "put E K body en rs = Some (ok, en', rs'')" "json_meta_ok E now False"
  shows "reg_inv E K en'" "reg_stamp E K en' = now" "find_blob E K (db en') = Some (overwrite E body)"
proof -
  have "local_ts E K (db en') = Some now"
    by (rule local_ts_meta [OF assms(4)]) (use put_effect(3) [OF assms(1-3)] in simp)
  then show "reg_inv E K en'" "reg_stamp E K en' = now"
    using put_effect(1) [OF assms(1-3)] by (simp_all add: reg_inv_def reg_stamp_def)
  show "find_blob E K (db en') = Some (overwrite E body)" using put_effect(3) [OF assms(1-3)] by simp
qed

lemma put_mutation_good: "json_meta_ok E ts False \<Longrightarrow> mut_good E K (put_mutation ts K body)"
  by (simp add: mut_good_def put_mutation_def)

text \<open>C8: two nodes with different ids write the same key concurrently, each taking its stamp from its
  own clock, and each write then reaches the other node. Both end with the same document and
  the same time stamp, the larger of the two; ties of wall time and counter are decided by the
  node ids, so the outcome never depends on the order of arrival.\<close>

theorem concurrent_puts_converge:
  assumes "store_inv E (db A)" and "store_inv E (db B)"
    and "hlc_node_id (eclock A) \<noteq> hlc_node_id (eclock B)"
    and "hlc_now (eclock A) rsA = Some (nowA, cA, rsA')" and "hlc_now (eclock B) rsB = Some (nowB, cB, rsB')"
    and "put E K bodyA A rsA = Some (okA, A1, rA)" and "put E K bodyB B rsB = Some (okB, B1, rB)"
    and "json_meta_ok E nowA False" and "json_meta_ok E nowB False"
    and "A2 = snd (apply_mutation E (put_mutation nowB K bodyB) A1)"
    and "B2 = snd (apply_mutation E (put_mutation nowA K bodyA) B1)"
  shows "get E K (db A2) = get E K (db B2) \<and> reg_stamp E K A2 = max nowA nowB \<and> reg_stamp E K B2 = max nowA nowB \<and>
    get E K (db A2) = overwrite E (if nowA < nowB then bodyB else bodyA)"
proof -
  note a = put_register [OF assms(1,4,6,8)] and b = put_register [OF assms(2,5,7,9)]
  have "node_id nowA \<noteq> node_id nowB"
    using assms(3) hlc_now_stamp [OF assms(4)] hlc_now_stamp [OF assms(5)] hlc_now_node [OF assms(4)]
      hlc_now_node [OF assms(5)] by (simp add: hlc_stamp_def)
  then have "nowA \<noteq> nowB" by auto
  then consider "nowA < nowB" | "nowB < nowA" by fastforce
  then show ?thesis
  proof cases
    case 1
    then have "nowA \<le> nowB" by simp
    with 1 reg.app_newer [OF a(1) put_mutation_good [OF assms(9)], of bodyB] a
      reg.app_stale [OF b(1) put_mutation_good [OF assms(8)], of bodyA] b assms(10,11)
    show ?thesis by (simp add: put_mutation_def mut_buf_def get_def max_def)
  next
    case 2
    then have "nowB \<le> nowA" "\<not> nowA \<le> nowB" "\<not> nowA < nowB" by auto
    with 2 reg.app_newer [OF b(1) put_mutation_good [OF assms(8)], of bodyA] a
      reg.app_stale [OF a(1) put_mutation_good [OF assms(9)], of bodyB] b assms(10,11)
    show ?thesis by (simp add: put_mutation_def mut_buf_def get_def max_def)
  qed
qed

theorem concurrent_puts_converge_witness:
  "\<exists>A1 B1. put demo_env [97] [49] (engine_empty [] 1) [5] = Some (True, A1, []) \<and>
     put demo_env [97] [50] (engine_empty [] 2) [5] = Some (True, B1, []) \<and>
     get demo_env [97] (db (snd (apply_mutation demo_env (put_mutation (Timestamp 5 0 2) [97] [50]) A1))) =
     get demo_env [97] (db (snd (apply_mutation demo_env (put_mutation (Timestamp 5 0 1) [97] [49]) B1)))"
proof -
  let ?A = "engine_empty [] 1 :: (demo_buf, bytes) engine" and ?B = "engine_empty [] 2 :: (demo_buf, bytes) engine"
  have inv: "store_inv demo_env (db (engine_empty w n))" for w :: bytes and n
    by (simp add: engine_empty_def store_inv_init)
  have now: "hlc_now (eclock ?A) [5] = Some (Timestamp 5 0 1, (hlc_init 1)\<lparr>max_wall_time := 5\<rparr>, [])"
    "hlc_now (eclock ?B) [5] = Some (Timestamp 5 0 2, (hlc_init 2)\<lparr>max_wall_time := 5\<rparr>, [])"
    by (simp_all add: hlc_now_def hlc_init_def hlc_stamp_def engine_empty_def Let_def)
  obtain A1 B1 where p: "put demo_env [97] [49] ?A [5] = Some (True, A1, [])"
    "put demo_env [97] [50] ?B [5] = Some (True, B1, [])"
    using now by (simp add: put_def Let_def)
  have j: "json_meta_ok demo_env (Timestamp 5 0 1) False" "json_meta_ok demo_env (Timestamp 5 0 2) False"
    by code_simp+
  have n: "hlc_node_id (eclock ?A) \<noteq> hlc_node_id (eclock ?B)"
    by (simp add: engine_empty_def hlc_init_def)
  from concurrent_puts_converge [OF inv inv n now p j refl refl] p show ?thesis by blast
qed

end
